(* ===== verification/Prelude.thy ===== *)
theory Prelude
  imports Main "HOL-Library.Word" "HOL-Library.AList" "HOL-Library.Signed_Division"
begin

text \<open>
  What every component of the proxy shares: Go's machine integers, \<^verbatim>\<open>time.Time\<close> and
  \<^verbatim>\<open>time.Duration\<close>, Go maps as association lists, and the generic lemmas the component
  proofs rest on.

  Conventions.  Go's \<^verbatim>\<open>int\<close> and \<^verbatim>\<open>int64\<close> (64 bits on every released platform but
  armv6/armv7) are \<open>int\<close>, with \<open>wrap64\<close> written out wherever the code computes on them
  and the result can leave the range.  \<^verbatim>\<open>atomic.Int64\<close> and \<^verbatim>\<open>atomic.Uint64\<close> cells, which are
  only ever added to, are \<open>64 word\<close>; \<open>sint\<close> reads a signed one.  Unsigned Go integers are
  words of their width.  A Go string is a byte sequence, so \<open>string\<close> (a list of bytes).
\<close>

unbundle bit_operations_syntax

named_theorems frame_simps \<open>fields an operation leaves alone\<close>
named_theorems inv_intros \<open>preservation lemmas, used as introduction rules\<close>

section \<open>Machine integers\<close>

definition wrap64 :: "int \<Rightarrow> int" where
  "wrap64 x = (x + 2 ^ 63) mod 2 ^ 64 - 2 ^ 63"

definition in_int64 :: "int \<Rightarrow> bool" where
  "in_int64 x \<longleftrightarrow> - (2 ^ 63) \<le> x \<and> x < 2 ^ 63"

lemma wrap64_id [simp]: "in_int64 x \<Longrightarrow> wrap64 x = x"
  by (simp add: wrap64_def in_int64_def)

lemma smod_nonneg_eq: "0 \<le> a \<Longrightarrow> 0 < b \<Longrightarrow> (a :: int) smod b = a mod b"
  by (cases "a = 0") (simp_all add: signed_modulo_int_def)

text \<open>Saturation, as \<^verbatim>\<open>time.Time.Sub\<close> does it.\<close>

definition sat64 :: "int \<Rightarrow> int" where
  "sat64 x = max (- (2 ^ 63)) (min (2 ^ 63 - 1) x)"

lemma sat64_pos_iff [simp]: "0 < sat64 x \<longleftrightarrow> 0 < x"
  by (auto simp: sat64_def)

lemma sat64_le: "0 \<le> x \<Longrightarrow> sat64 x \<le> x"
  by (auto simp: sat64_def)

lemma sat64_in_int64: "in_int64 (sat64 x)"
  by (auto simp: sat64_def in_int64_def)

section \<open>Time\<close>

text \<open>
  A reading of \<^verbatim>\<open>time.Now()\<close> carries a wall clock (nanoseconds since the Unix epoch) and a
  monotonic clock.  \<^verbatim>\<open>Sub\<close> and \<^verbatim>\<open>Before\<close> on two such readings use the monotonic one;
  \<^verbatim>\<open>Unix\<close> and \<^verbatim>\<open>UnixNano\<close> the wall clock; \<^verbatim>\<open>Add\<close> moves both.
\<close>

record time =
  t_wall :: int
  t_mono :: int

type_synonym duration = int

abbreviation Second :: duration where
  "Second \<equiv> 1000000000"

definition time_add :: "time \<Rightarrow> duration \<Rightarrow> time" where
  "time_add t d = t\<lparr>t_wall := t_wall t + d, t_mono := t_mono t + d\<rparr>"

definition time_sub :: "time \<Rightarrow> time \<Rightarrow> duration" where
  "time_sub a b = sat64 (t_mono a - t_mono b)"

definition time_before :: "time \<Rightarrow> time \<Rightarrow> bool" where
  "time_before a b \<longleftrightarrow> t_mono a < t_mono b"

definition time_unix :: "time \<Rightarrow> int" where
  "time_unix t = t_wall t div Second"

lemma t_wall_time_add [simp]: "t_wall (time_add t d) = t_wall t + d"
  and t_mono_time_add [simp]: "t_mono (time_add t d) = t_mono t + d"
  by (simp_all add: time_add_def)

lemma time_unix_add_le: "d \<le> 0 \<Longrightarrow> time_unix (time_add t d) \<le> time_unix t"
  by (simp add: time_unix_def zdiv_mono1)

section \<open>Go maps\<close>

text \<open>
  A Go map that the code ranges over is an association list with distinct keys: the list
  order is the iteration order, which Go leaves unspecified, so facts about a loop over a
  map are stated for any list.  Lookup is \<open>map_of\<close>, \<^verbatim>\<open>m[k] = v\<close> is \<open>AList.update\<close>,
  \<^verbatim>\<open>delete(m, k)\<close> is \<open>AList.delete\<close>.
\<close>

definition distinct_keys :: "('k \<times> 'v) list \<Rightarrow> bool" where
  "distinct_keys xs \<longleftrightarrow> distinct (map fst xs)"

lemma distinct_keys_Nil [simp]: "distinct_keys []"
  by (simp add: distinct_keys_def)

lemma distinct_keys_update [simp]: "distinct_keys xs \<Longrightarrow> distinct_keys (AList.update k v xs)"
  by (simp add: distinct_keys_def distinct_update)

lemma distinct_keys_delete [simp]: "distinct_keys xs \<Longrightarrow> distinct_keys (AList.delete k xs)"
  by (simp add: distinct_keys_def distinct_delete)

lemma distinct_keys_filter [simp]: "distinct_keys xs \<Longrightarrow> distinct_keys (filter P xs)"
  by (simp add: distinct_keys_def distinct_map_filter)

lemma map_of_filter_distinct:
  "distinct_keys xs \<Longrightarrow>
     map_of (filter P xs) k = (case map_of xs k of None \<Rightarrow> None | Some v \<Rightarrow> if P (k, v) then Some v else None)"
  by (induction xs) (auto simp: distinct_keys_def map_of_eq_None_iff split: option.splits)

lemma update_fresh: "map_of xs k = None \<Longrightarrow> AList.update k v xs = xs @ [(k, v)]"
  by (induction xs) (auto split: if_splits)

lemma set_alist_update: "set (AList.update k v xs) \<subseteq> insert (k, v) (set xs)"
  by (induction xs) auto

lemma length_alist_update: "length xs \<le> length (AList.update k v xs)"
  by (induction xs) auto

section \<open>Lists\<close>

lemma dropWhile_eq_filter_sorted:
  assumes "sorted (map f xs)"
  shows "dropWhile (\<lambda>x. f x < c) xs = filter (\<lambda>x. \<not> f x < c) xs"
  using assms
proof (induction xs)
  case Nil
  then show ?case by simp
next
  case (Cons x xs)
  then show ?case
    by (cases "f x < c") (force simp: filter_id_conv intro: filter_True [symmetric])+
qed

section \<open>Striped maps\<close>

text \<open>
  The session table, the client limiter and the abuse protector all stripe one map over an
  array of shards.  The contract: a key's shard is inside the array.  What a client sees of a
  map striped this way is \<open>lookup\<close>, and replacing the shard of one key changes no key of
  another shard.
\<close>

definition striped_lookup ::
  "('k \<Rightarrow> nat) \<Rightarrow> ('sh \<Rightarrow> ('k \<times> 'v) list) \<Rightarrow> 'sh list \<Rightarrow> 'k \<Rightarrow> 'v option" where
  "striped_lookup shard_of entries shs k = map_of (entries (shs ! shard_of k)) k"

text \<open>Every key in its own shard, counted from \<open>i\<close>: the stripes then make up one map.\<close>

fun stripes_ok :: "('k \<Rightarrow> nat) \<Rightarrow> nat \<Rightarrow> ('k \<times> 'v) list list \<Rightarrow> bool" where
  "stripes_ok f i [] = True"
| "stripes_ok f i (sh # shs) \<longleftrightarrow>
     distinct_keys sh \<and> (\<forall>k \<in> fst ` set sh. f k = i) \<and> stripes_ok f (Suc i) shs"

lemma stripes_ok_later: "stripes_ok f i shs \<Longrightarrow> k \<in> fst ` set (concat shs) \<Longrightarrow> i \<le> f k"
proof (induction shs arbitrary: i)
  case Nil
  then show ?case by simp
next
  case (Cons sh shs)
  show ?case
  proof (cases "k \<in> fst ` set sh")
    case True
    with Cons.prems show ?thesis by auto
  next
    case False
    with Cons.prems have "Suc i \<le> f k" by (intro Cons.IH) auto
    then show ?thesis by simp
  qed
qed

lemma stripes_ok_distinct: "stripes_ok f i shs \<Longrightarrow> distinct_keys (concat shs)"
proof (induction shs arbitrary: i)
  case Nil
  then show ?case by simp
next
  case (Cons sh shs)
  have "fst ` set sh \<inter> fst ` set (concat shs) = {}"
  proof (rule equals0I)
    fix k
    assume k: "k \<in> fst ` set sh \<inter> fst ` set (concat shs)"
    then have "f k = i" using Cons.prems by auto
    moreover have "Suc i \<le> f k" using k stripes_ok_later [of f "Suc i" shs k] Cons.prems by auto
    ultimately show False by simp
  qed
  moreover have "distinct_keys (concat shs)" using Cons by auto
  ultimately show ?case using Cons.prems by (auto simp: distinct_keys_def)
qed

lemma stripes_ok_lookup:
  "stripes_ok f i shs \<Longrightarrow> i \<le> f k \<Longrightarrow> f k < i + length shs \<Longrightarrow> map_of (concat shs) k = map_of (shs ! (f k - i)) k"
proof (induction shs arbitrary: i)
  case Nil
  then show ?case by simp
next
  case (Cons sh shs)
  show ?case
  proof (cases "f k = i")
    case True
    have "map_of (concat shs) k = None"
      using stripes_ok_later [of f "Suc i" shs k] Cons.prems(1) True by (force simp: map_of_eq_None_iff)
    with True show ?thesis by (auto simp: map_add_def split: option.splits)
  next
    case False
    then have "k \<notin> fst ` set sh" using Cons.prems(1) by auto
    then have "map_of sh k = None" by (simp add: map_of_eq_None_iff)
    with False Cons show ?thesis by (simp add: map_add_def nth_Cons' split: option.splits)
  qed
qed

lemma stripes_ok_update:
  "stripes_ok f i shs \<Longrightarrow> j < length shs \<Longrightarrow> distinct_keys sh \<Longrightarrow> (\<forall>k \<in> fst ` set sh. f k = i + j) \<Longrightarrow>
     stripes_ok f i (shs[j := sh])"
  by (induction shs arbitrary: i j) (auto split: nat.splits)

lemma stripes_ok_nth: "stripes_ok f i shs \<Longrightarrow> j < length shs \<Longrightarrow> distinct_keys (shs ! j) \<and> (\<forall>k \<in> fst ` set (shs ! j). f k = i + j)"
proof (induction shs arbitrary: i j)
  case Nil
  then show ?case by simp
next
  case (Cons sh shs)
  then show ?case using Cons.IH [of "Suc i" "j - 1"] by (cases j) auto
qed

lemma stripes_ok_filter: "stripes_ok f i shs \<Longrightarrow> stripes_ok f i (map (filter P) shs)"
  by (induction shs arbitrary: i) auto

locale striped =
  fixes shard_of :: "'k \<Rightarrow> nat" and entries :: "'sh \<Rightarrow> ('k \<times> 'v) list" and n :: nat
  assumes shard_bound: "shard_of k < n"
begin

lemma lookup_write:
  "length shs = n \<Longrightarrow>
   striped_lookup shard_of entries (shs[shard_of a := sh]) k =
     (if shard_of k = shard_of a then map_of (entries sh) k else striped_lookup shard_of entries shs k)"
  using shard_bound [of a] by (simp add: striped_lookup_def)

lemma lookup_write_same:
  "length shs = n \<Longrightarrow>
   striped_lookup shard_of entries (shs[shard_of a := sh]) a = map_of (entries sh) a"
  by (simp add: lookup_write)

end

section \<open>Limiters\<close>

text \<open>
  The contract the frontend's admission chain relies on: a limiter answers a request with a
  decision and a new state, and keeps its well-formedness whatever it decides.
\<close>

fun run_limiter :: "('s \<Rightarrow> 'r \<Rightarrow> bool \<times> 's) \<Rightarrow> 's \<Rightarrow> 'r list \<Rightarrow> bool list \<times> 's" where
  "run_limiter allow s [] = ([], s)"
| "run_limiter allow s (r # rs) =
     (let (ok, s') = allow s r; (oks, t) = run_limiter allow s' rs in (ok # oks, t))"

locale limiter =
  fixes allow :: "'s \<Rightarrow> 'r \<Rightarrow> bool \<times> 's" and good :: "'s \<Rightarrow> bool" and req :: "'r \<Rightarrow> bool"
  assumes allow_good: "good s \<Longrightarrow> req r \<Longrightarrow> good (snd (allow s r))"
begin

lemma run_good: "good s \<Longrightarrow> list_all req rs \<Longrightarrow> good (snd (run_limiter allow s rs))"
  by (induction rs arbitrary: s) (auto simp: split_beta intro: allow_good)

text \<open>
  A quantity every call pays for: if each call raises \<open>pot\<close> by at most \<open>gain\<close> less what
  an allowed request costs, a run's total cost is bounded by the initial potential and the gains.
\<close>

lemma run_cost_bound:
  fixes pot :: "'s \<Rightarrow> 'v :: linordered_idom" and gain :: "'s \<Rightarrow> 's \<Rightarrow> 'v" and cost :: "'r \<Rightarrow> 'v"
  assumes step: "\<And>s r. good s \<Longrightarrow> req r \<Longrightarrow>
      pot (snd (allow s r)) + (if fst (allow s r) then cost r else 0) \<le> pot s + gain s (snd (allow s r)) + c"
    and gain: "\<And>s t u. gain s t + gain t u = gain s u" "\<And>s. gain s s = 0"
    and nonneg: "\<And>s. good s \<Longrightarrow> 0 \<le> pot s"
    and "good s" "list_all req rs" "run_limiter allow s rs = (oks, t)"
  shows "(\<Sum>(ok, r) \<leftarrow> zip oks rs. if ok then cost r else 0)
      \<le> pot s + gain s t + of_nat (length rs) * c"
proof -
  have "pot t + (\<Sum>(ok, r) \<leftarrow> zip oks rs. if ok then cost r else 0)
      \<le> pot s + gain s t + of_nat (length rs) * c"
    using assms(5-7)
  proof (induction rs arbitrary: s oks)
    case Nil
    then show ?case by (simp add: gain(2))
  next
    case (Cons r rs)
    obtain ok s' where a: "allow s r = (ok, s')" by fastforce
    obtain oks' t' where run: "run_limiter allow s' rs = (oks', t')" by fastforce
    from Cons.prems(3) a run have eqs: "oks = ok # oks'" "t' = t" by auto
    have "good s'" using allow_good [of s r] Cons.prems a by simp
    with Cons.IH [of s' oks'] Cons.prems run eqs
    have "pot t + (\<Sum>(ok, r) \<leftarrow> zip oks' rs. if ok then cost r else 0)
        \<le> pot s' + gain s' t + of_nat (length rs) * c" by simp
    moreover have "pot s' + (if ok then cost r else 0) \<le> pot s + gain s s' + c"
      using step [of s r] Cons.prems a by simp
    moreover have "gain s s' + gain s' t = gain s t" by (rule gain(1))
    ultimately show ?case by (simp add: eqs algebra_simps)
  qed
  moreover have "0 \<le> pot t" using run_good [OF assms(5,6)] assms(7) nonneg by simp
  ultimately show ?thesis by simp
qed

end

section \<open>Runs of labelled step relations\<close>

inductive run_of :: "('s \<Rightarrow> 'e \<Rightarrow> 's \<Rightarrow> bool) \<Rightarrow> 's \<Rightarrow> 'e list \<Rightarrow> 's \<Rightarrow> bool" for step where
  run_Nil: "run_of step s [] s"
| run_snoc: "run_of step s tr t \<Longrightarrow> step t e u \<Longrightarrow> run_of step s (tr @ [e]) u"

lemma run_one: "step s e t \<Longrightarrow> run_of step s [e] t"
  using run_snoc [of step s "[]" s e t] run_Nil [of step s] by simp

text \<open>
  The contract between a labelled step relation and a property of the events so far and the
  state that every step keeps; its lemma lifts the property to every run.
\<close>

locale traced =
  fixes step :: "'s \<Rightarrow> 'e \<Rightarrow> 's \<Rightarrow> bool" and inv :: "'e list \<Rightarrow> 's \<Rightarrow> bool"
  assumes step_keeps: "inv tr s \<Longrightarrow> step s e t \<Longrightarrow> inv (tr @ [e]) t"
begin

lemma run_keeps: "run_of step s tr t \<Longrightarrow> inv [] s \<Longrightarrow> inv tr t"
  by (induction rule: run_of.induct) (auto intro: step_keeps)

end

end
