(* ===== verification/GoFloat.thy ===== *)
theory GoFloat
  imports Prelude Complex_Main "HOL-Library.Log_Nat"
begin

text \<open>
  Go's \<^verbatim>\<open>float64\<close> as the token buckets use it: a value is a rational number, and every
  operation is the exact operation followed by \<open>fl\<close>, rounding to the nearest number with a
  53-bit significand, ties to even (IEEE 754 binary64).  The buckets compute on values
  between a nanosecond's worth of tokens and \<open>2 ^ 64\<close>, so neither the subnormal numbers
  nor overflow to infinity are modelled.  The lemmas are the facts the limiter proofs need:
  \<open>fl\<close> is monotone, exact on integers up to \<open>2 ^ 53\<close>, and errs by at most a factor
  \<open>2 ^ -53\<close>.
\<close>

definition round_half_even :: "rat \<Rightarrow> int" where
  "round_half_even x = (let f = \<lfloor>x\<rfloor>; r = x - of_int f in
     if r < 1 / 2 then f else if 1 / 2 < r then f + 1 else if even f then f else f + 1)"

definition exponent :: "rat \<Rightarrow> int" where
  "exponent x = (let (n, d) = quotient_of x; k = bitlen n - bitlen d in
     if 2 powi k \<le> x then k else k - 1)"

definition fl_pos :: "rat \<Rightarrow> rat" where
  "fl_pos x = (let e = exponent x in
     of_int (round_half_even (x * 2 powi (52 - e))) * 2 powi (e - 52))"

definition fl :: "rat \<Rightarrow> rat" where
  "fl x = (if x = 0 then 0 else if 0 < x then fl_pos x else - fl_pos (- x))"

definition fadd :: "rat \<Rightarrow> rat \<Rightarrow> rat" where
  "fadd a b = fl (a + b)"

definition fsub :: "rat \<Rightarrow> rat \<Rightarrow> rat" where
  "fsub a b = fl (a - b)"

definition fmul :: "rat \<Rightarrow> rat \<Rightarrow> rat" where
  "fmul a b = fl (a * b)"

definition fdiv :: "rat \<Rightarrow> rat \<Rightarrow> rat" where
  "fdiv a b = fl (a / b)"

text \<open>\<^verbatim>\<open>float64(n)\<close> for an integer, and \<^verbatim>\<open>int64(x)\<close>, which truncates towards zero.\<close>

definition float64 :: "int \<Rightarrow> rat" where
  "float64 n = fl (of_int n)"

definition int64_of_float :: "rat \<Rightarrow> int" where
  "int64_of_float x = (if 0 \<le> x then \<lfloor>x\<rfloor> else \<lceil>x\<rceil>)"

text \<open>\<^verbatim>\<open>time.Duration.Seconds()\<close>: whole seconds plus the remainder divided by 1e9.\<close>

definition dur_seconds :: "duration \<Rightarrow> rat" where
  "dur_seconds d = fadd (float64 (d sdiv Second)) (fdiv (float64 (d smod Second)) 1000000000)"

text \<open>The unit roundoff of binary64.\<close>

definition eps53 :: rat where
  "eps53 = 1 / 2 ^ 53"

lemma eps53_pos: "0 < eps53"
  by (simp add: eps53_def)

section \<open>Rounding to an integer\<close>

lemma round_half_even_of_int [simp]: "round_half_even (of_int n) = n"
  by (simp add: round_half_even_def)

lemma round_half_even_error: "\<bar>of_int (round_half_even x) - x\<bar> \<le> 1 / 2"
proof -
  have "of_int \<lfloor>x\<rfloor> \<le> x" "x < of_int \<lfloor>x\<rfloor> + 1"
    using floor_correct [of x] by auto
  then show ?thesis by (auto simp: round_half_even_def Let_def abs_le_iff)
qed

lemma round_half_even_bounds: "\<lfloor>x\<rfloor> \<le> round_half_even x" "round_half_even x \<le> \<lfloor>x\<rfloor> + 1"
  by (auto simp: round_half_even_def Let_def)

lemma round_half_even_mono:
  assumes "x \<le> y" shows "round_half_even x \<le> round_half_even y"
proof (cases "\<lfloor>x\<rfloor> = \<lfloor>y\<rfloor>")
  case True
  with assms show ?thesis by (auto simp: round_half_even_def Let_def)
next
  case False
  with assms have "\<lfloor>x\<rfloor> + 1 \<le> \<lfloor>y\<rfloor>" using floor_mono [OF assms] by simp
  then show ?thesis using round_half_even_bounds [of x] round_half_even_bounds [of y] by simp
qed

lemma round_half_even_ge: "of_int n \<le> x \<Longrightarrow> n \<le> round_half_even x"
  using round_half_even_mono [of "of_int n" x] by simp

lemma round_half_even_le: "x \<le> of_int n \<Longrightarrow> round_half_even x \<le> n"
  using round_half_even_mono [of x "of_int n"] by simp

section \<open>The exponent\<close>

lemma bitlen_power_bounds:
  assumes "0 < n"
  shows "2 powi (bitlen n - 1) \<le> (of_int n :: rat)" "(of_int n :: rat) < 2 powi (bitlen n)"
proof -
  have b: "0 < bitlen n" using assms bitlen_eq_zero_iff [of n] bitlen_nonneg [of n] by linarith
  have "2 ^ nat (bitlen n - 1) \<le> n" "n < 2 ^ nat (bitlen n)"
    using bitlen_bounds [OF assms] by auto
  then have "(of_int (2 ^ nat (bitlen n - 1)) :: rat) \<le> of_int n"
    and "(of_int n :: rat) < of_int (2 ^ nat (bitlen n))"
    by (simp_all only: of_int_le_iff of_int_less_iff)
  then show "2 powi (bitlen n - 1) \<le> (of_int n :: rat)" "(of_int n :: rat) < 2 powi (bitlen n)"
    using b by (simp_all add: power_int_def)
qed

lemma exponent_bounds:
  assumes "0 < x"
  shows "2 powi (exponent x) \<le> x" "x < 2 powi (exponent x + 1)"
proof -
  obtain n d where q: "quotient_of x = (n, d)" by fastforce
  have d: "0 < d" using quotient_of_denom_pos [OF q] .
  have x: "x = of_int n / of_int d" using quotient_of_div [OF q] .
  have n: "0 < n" using assms d by (simp add: x zero_less_divide_iff)
  let ?k = "bitlen n - bitlen d"
  have "2 powi (?k - 1) * of_int d < 2 powi (?k - 1) * (2 powi (bitlen d) :: rat)"
    using bitlen_power_bounds(2) [OF d] by simp
  also have "\<dots> = 2 powi (bitlen n - 1)"
    by (simp flip: power_int_add)
  finally have "2 powi (?k - 1) * of_int d < (2 powi (bitlen n - 1) :: rat)" .
  then have lo: "2 powi (?k - 1) < x"
    using bitlen_power_bounds(1) [OF n] d by (simp add: x field_simps)
  have "of_int n * 2 powi (bitlen d - 1) < (2 powi (bitlen n) * of_int d :: rat)"
    using bitlen_power_bounds(2) [OF n] bitlen_power_bounds(1) [OF d] n d
    by (intro mult_less_le_imp_less) auto
  then have hi: "x < 2 powi (?k + 1)"
    using d by (simp add: x field_simps power_int_diff power_int_add)
  show "2 powi (exponent x) \<le> x" "x < 2 powi (exponent x + 1)"
    using lo hi by (auto simp: exponent_def q Let_def)
qed

lemma exponent_mono:
  assumes "0 < x" "x \<le> y" shows "exponent x \<le> exponent y"
proof (rule ccontr)
  assume "\<not> ?thesis"
  then have "exponent y + 1 \<le> exponent x" by simp
  then have "(2 powi (exponent y + 1) :: rat) \<le> 2 powi (exponent x)"
    by (rule power_int_increasing) simp
  with exponent_bounds [of x] exponent_bounds [of y] assms show False by simp
qed

section \<open>Rounding to a float64\<close>

lemma powi_mult: "(2 powi a :: rat) * 2 powi b = 2 powi (a + b)"
  by (simp add: power_int_add)

lemma powi_split: "(2 powi (e - 52) :: rat) * 2 powi (52 - e) = 1"
  by (simp flip: power_int_add)

lemma powi_pos [simp]: "(0 :: rat) < 2 powi e"
  by (simp add: zero_less_power_int)

lemma fl_pos_lower: assumes "0 < x" shows "2 powi (exponent x) \<le> fl_pos x"
proof -
  let ?e = "exponent x"
  have "(2 powi 52 :: rat) = 2 powi ?e * 2 powi (52 - ?e)"
    by (simp flip: power_int_add)
  also have "\<dots> \<le> x * 2 powi (52 - ?e)"
    using exponent_bounds(1) [OF assms] by (simp add: mult_right_mono)
  finally have "2 ^ 52 \<le> round_half_even (x * 2 powi (52 - ?e))"
    by (intro round_half_even_ge) simp
  then have "(of_int (2 ^ 52) :: rat) \<le> of_int (round_half_even (x * 2 powi (52 - ?e)))"
    by (simp only: of_int_le_iff)
  then have "(2 powi 52 :: rat) \<le> of_int (round_half_even (x * 2 powi (52 - ?e)))" by simp
  then have "(2 powi 52 :: rat) * 2 powi (?e - 52) \<le> fl_pos x"
    by (simp add: fl_pos_def Let_def mult_right_mono)
  then show ?thesis unfolding powi_mult by simp
qed

lemma fl_pos_upper: assumes "0 < x" shows "fl_pos x \<le> 2 powi (exponent x + 1)"
proof -
  let ?e = "exponent x"
  have "x * 2 powi (52 - ?e) \<le> 2 powi (?e + 1) * 2 powi (52 - ?e)"
    using exponent_bounds(2) [OF assms] by (simp add: mult_right_mono)
  also have "\<dots> = (2 powi 53 :: rat)"
    by (simp flip: power_int_add)
  finally have "round_half_even (x * 2 powi (52 - ?e)) \<le> 2 ^ 53"
    by (intro round_half_even_le) simp
  then have "of_int (round_half_even (x * 2 powi (52 - ?e))) \<le> (of_int (2 ^ 53) :: rat)"
    by (simp only: of_int_le_iff)
  then have "of_int (round_half_even (x * 2 powi (52 - ?e))) \<le> (2 powi 53 :: rat)" by simp
  then have "fl_pos x \<le> (2 powi 53 :: rat) * 2 powi (?e - 52)"
    by (simp add: fl_pos_def Let_def mult_right_mono)
  then show ?thesis unfolding powi_mult by (simp add: add.commute)
qed

lemma fl_pos_mono:
  assumes "0 < x" "x \<le> y" shows "fl_pos x \<le> fl_pos y"
proof (cases "exponent x = exponent y")
  case True
  have "x * 2 powi (52 - exponent x) \<le> y * 2 powi (52 - exponent x)"
    using assms by (simp add: mult_right_mono)
  then show ?thesis
    by (simp add: fl_pos_def Let_def True mult_right_mono round_half_even_mono)
next
  case False
  then have "exponent x + 1 \<le> exponent y" using exponent_mono [OF assms] by simp
  then have "(2 powi (exponent x + 1) :: rat) \<le> 2 powi (exponent y)"
    by (rule power_int_increasing) simp
  then show ?thesis using fl_pos_upper [of x] fl_pos_lower [of y] assms by simp
qed

lemma fl_pos_error: assumes "0 < x" shows "\<bar>fl_pos x - x\<bar> \<le> x / 2 ^ 53"
proof -
  let ?e = "exponent x" and ?m = "x * 2 powi (52 - exponent x)"
  have "fl_pos x - x = (of_int (round_half_even ?m) - ?m) * 2 powi (?e - 52)"
    by (simp add: fl_pos_def Let_def algebra_simps powi_split flip: mult.assoc)
  then have "\<bar>fl_pos x - x\<bar> \<le> 1 / 2 * 2 powi (?e - 52)"
    using round_half_even_error [of ?m] by (simp add: abs_mult mult_right_mono)
  also have "\<dots> = 2 powi ?e / 2 ^ 53"
    by (simp add: power_int_diff)
  also have "\<dots> \<le> x / 2 ^ 53"
    using exponent_bounds(1) [OF assms] by (simp add: divide_right_mono)
  finally show ?thesis .
qed

lemma fl_pos_gt0: "0 < x \<Longrightarrow> 0 < fl_pos x"
  using fl_pos_lower [of x] powi_pos [of "exponent x"] by linarith

lemma fl_0 [simp]: "fl 0 = 0"
  by (simp add: fl_def)

lemma fl_pos_iff [simp]: "0 < fl x \<longleftrightarrow> 0 < x"
  using fl_pos_gt0 [of x] fl_pos_gt0 [of "- x"] by (auto simp: fl_def)

lemma fl_mono: "x \<le> y \<Longrightarrow> fl x \<le> fl y"
  using fl_pos_mono [of x y] fl_pos_mono [of "- y" "- x"] fl_pos_gt0 [of y] fl_pos_gt0 [of "- x"]
  by (auto simp: fl_def)

lemma fl_nonneg [simp]: "0 \<le> x \<Longrightarrow> 0 \<le> fl x"
  using fl_mono [of 0 x] by simp

lemma fl_error: "\<bar>fl x - x\<bar> \<le> \<bar>x\<bar> / 2 ^ 53"
  using fl_pos_error [of x] fl_pos_error [of "- x"] by (auto simp: fl_def abs_if split: if_splits)

lemma fl_le: "0 \<le> x \<Longrightarrow> fl x \<le> x * (1 + eps53)"
  using abs_le_D1 [OF fl_error [of x]] by (simp add: algebra_simps eps53_def)

lemma fl_le_add:
  assumes "0 \<le> x" "x \<le> b" shows "fl x \<le> x + b * eps53"
proof -
  have "x * eps53 \<le> b * eps53" using assms eps53_pos by (simp add: mult_right_mono)
  with fl_le [OF assms(1)] show ?thesis by (simp add: distrib_left)
qed

lemma fl_pos_of_int:
  assumes "0 < n" "n < 2 ^ 53" shows "fl_pos (of_int n) = of_int n"
proof -
  let ?e = "exponent (of_int n)"
  have "?e < 53"
  proof (rule ccontr)
    assume "\<not> ?thesis"
    then have "(2 powi 53 :: rat) \<le> 2 powi ?e" by (intro power_int_increasing) auto
    also have "\<dots> \<le> of_int n" using exponent_bounds(1) [of "of_int n"] assms by simp
    finally have "(of_int (2 ^ 53) :: rat) \<le> of_int n" by simp
    then show False using assms by (simp only: of_int_le_iff)
  qed
  then have "(2 powi (52 - ?e) :: rat) = of_int (2 ^ nat (52 - ?e))"
    by (simp add: power_int_def)
  then have "of_int n * 2 powi (52 - ?e) = (of_int (n * 2 ^ nat (52 - ?e)) :: rat)" by simp
  then have "of_int (round_half_even (of_int n * 2 powi (52 - ?e))) = (of_int n * 2 powi (52 - ?e) :: rat)"
    by (simp only: round_half_even_of_int)
  then show ?thesis
    by (simp add: fl_pos_def Let_def mult.assoc) (simp flip: power_int_add)
qed

lemma fl_of_int [simp]: "\<bar>n\<bar> < 2 ^ 53 \<Longrightarrow> fl (of_int n) = of_int n"
  using fl_pos_of_int [of n] fl_pos_of_int [of "- n"] by (auto simp: fl_def)

lemma fl_1 [simp]: "fl 1 = 1"
  using fl_of_int [of 1] by simp

lemma exponent_unique:
  assumes "2 powi e \<le> x" "x < 2 powi (e + 1)" shows "exponent x = e"
proof (rule ccontr)
  have x: "0 < x" using assms(1) powi_pos [of e] by linarith
  assume "exponent x \<noteq> e"
  then consider "exponent x + 1 \<le> e" | "e + 1 \<le> exponent x" by linarith
  then show False
  proof cases
    case 1
    then have "(2 powi (exponent x + 1) :: rat) \<le> 2 powi e" by (rule power_int_increasing) simp
    with exponent_bounds(2) [OF x] assms(1) show False by simp
  next
    case 2
    then have "(2 powi (e + 1) :: rat) \<le> 2 powi (exponent x)" by (rule power_int_increasing) simp
    with exponent_bounds(1) [OF x] assms(2) show False by simp
  qed
qed

text \<open>Numbers with a 53-bit significand are exact.\<close>

lemma fl_pos_significand:
  assumes "2 ^ 52 \<le> m" "m < 2 ^ 53"
  shows "fl_pos (of_int m * 2 powi k) = of_int m * 2 powi k"
proof -
  let ?x = "of_int m * 2 powi k :: rat"
  have "(of_int (2 ^ 52) :: rat) \<le> of_int m" "(of_int m :: rat) < of_int (2 ^ 53)"
    using assms by (simp_all only: of_int_le_iff of_int_less_iff)
  then have m: "(2 powi 52 :: rat) \<le> of_int m" "(of_int m :: rat) < 2 powi 53" by simp_all
  have lo: "2 powi (52 + k) \<le> ?x" and hi: "?x < 2 powi (53 + k)"
    using mult_right_mono [OF m(1), of "2 powi k"] mult_strict_right_mono [OF m(2), of "2 powi k"]
    unfolding powi_mult by simp_all
  have "53 + k = 52 + k + 1" by simp
  then have e: "exponent ?x = 52 + k" using exponent_unique [OF lo] hi by simp
  have "?x * 2 powi (52 - (52 + k)) = of_int m"
    by (simp add: mult.assoc powi_mult)
  then have "round_half_even (?x * 2 powi (52 - (52 + k))) = m"
    by (simp only: round_half_even_of_int)
  then show ?thesis unfolding fl_pos_def Let_def e by simp
qed

lemma fl_pos_idem: assumes "0 < x" shows "fl_pos (fl_pos x) = fl_pos x"
proof -
  let ?e = "exponent x" and ?m = "round_half_even (x * 2 powi (52 - exponent x))"
  have f: "fl_pos x = of_int ?m * 2 powi (?e - 52)" by (simp add: fl_pos_def Let_def)
  have le: "fl_pos x * 2 powi (52 - ?e) = of_int ?m"
    by (simp add: f mult.assoc powi_mult)
  have "2 powi ?e * 2 powi (52 - ?e) \<le> fl_pos x * 2 powi (52 - ?e)"
    using fl_pos_lower [OF assms] by (simp add: mult_right_mono)
  then have "(of_int (2 ^ 52) :: rat) \<le> of_int ?m" unfolding powi_mult le by simp
  then have m1: "2 ^ 52 \<le> ?m" by (simp only: of_int_le_iff)
  have "fl_pos x * 2 powi (52 - ?e) \<le> 2 powi (?e + 1) * 2 powi (52 - ?e)"
    using fl_pos_upper [OF assms] by (simp add: mult_right_mono)
  then have "of_int ?m \<le> (of_int (2 ^ 53) :: rat)" unfolding powi_mult le by simp
  then have m2: "?m \<le> 2 ^ 53" by (simp only: of_int_le_iff)
  show ?thesis
  proof (cases "?m = 2 ^ 53")
    case True
    then have "fl_pos x = of_int (2 ^ 53) * 2 powi (?e - 52)" using f by simp
    also have "\<dots> = 2 powi 53 * 2 powi (?e - 52)" by simp
    also have "\<dots> = 2 powi 52 * 2 powi (?e - 51)" unfolding powi_mult by simp
    also have "\<dots> = of_int (2 ^ 52) * 2 powi (?e - 51)" by simp
    finally show ?thesis using fl_pos_significand [of "2 ^ 52" "?e - 51"] by simp
  next
    case False
    with m1 m2 show ?thesis using fl_pos_significand [of ?m "?e - 52"] by (simp add: f)
  qed
qed

lemma fl_idem [simp]: "fl (fl x) = fl x"
  using fl_pos_idem [of x] fl_pos_idem [of "- x"] fl_pos_gt0 [of x] fl_pos_gt0 [of "- x"]
  by (auto simp: fl_def)

lemma fl_float64 [simp]: "fl (float64 n) = float64 n"
  by (simp add: float64_def)

lemma float64_exact: "\<bar>n\<bar> < 2 ^ 53 \<Longrightarrow> float64 n = of_int n"
  by (simp add: float64_def)

lemma float64_mono: "m \<le> n \<Longrightarrow> float64 m \<le> float64 n"
  by (simp add: float64_def fl_mono)

lemma float64_nonneg [simp]: "0 \<le> n \<Longrightarrow> 0 \<le> float64 n"
  by (simp add: float64_def)

lemma float64_pos_iff [simp]: "0 < float64 n \<longleftrightarrow> 0 < n"
  by (simp add: float64_def)

lemma float64_le: "0 \<le> n \<Longrightarrow> float64 n \<le> of_int n * (1 + eps53)"
  using fl_le [of "of_int n"] by (simp add: float64_def)

section \<open>Durations in seconds\<close>

lemma dur_seconds_parts:
  assumes "0 \<le> d" "in_int64 d"
  shows "dur_seconds d = fl (of_int (d div Second) + fl (of_int (d mod Second) / 1000000000))"
proof -
  have "0 \<le> d div Second" "d div Second < 2 ^ 53"
    using assms by (auto simp: in_int64_def pos_imp_zdiv_nonneg_iff)
  moreover have "0 \<le> d mod Second" "d mod Second < 2 ^ 53"
    using pos_mod_bound [of Second d] by simp_all
  moreover have "d sdiv Second = d div Second" "d smod Second = d mod Second"
    using assms by (auto simp: signed_divide_int_def signed_modulo_int_def sgn_if)
  ultimately show ?thesis by (simp add: dur_seconds_def fadd_def fdiv_def float64_exact)
qed

lemma dur_seconds_0 [simp]: "dur_seconds 0 = 0"
  by (simp add: dur_seconds_parts in_int64_def)

lemma dur_seconds_nonpos: "d \<le> 0 \<Longrightarrow> dur_seconds d \<le> 0"
proof -
  assume d: "d \<le> 0"
  have "d sdiv Second \<le> 0" "d smod Second \<le> 0"
    using d by (auto simp: signed_divide_int_def signed_modulo_int_def sgn_if pos_imp_zdiv_nonneg_iff)
  then have "float64 (d sdiv Second) \<le> 0" "float64 (d smod Second) \<le> 0"
    using float64_mono [of _ 0] by (simp_all add: float64_def)
  then have "float64 (d sdiv Second) + fl (float64 (d smod Second) / 1000000000) \<le> 0"
    using fl_mono [of "float64 (d smod Second) / 1000000000" 0] by simp
  then show ?thesis
    using fl_mono [of _ 0] by (simp add: dur_seconds_def fadd_def fdiv_def)
qed

lemma dur_seconds_le:
  assumes "0 \<le> d" "in_int64 d"
  shows "dur_seconds d \<le> of_int d / 1000000000 * (1 + eps53) ^ 2"
proof -
  let ?q = "of_int (d div Second) :: rat" and ?r = "of_int (d mod Second) / 1000000000 :: rat"
  have nonneg: "0 \<le> ?q" "0 \<le> ?r"
    using assms by (simp_all add: pos_imp_zdiv_nonneg_iff)
  have "fl ?r \<le> ?r * (1 + eps53)"
    using nonneg(2) by (rule fl_le)
  moreover have "?q \<le> ?q * (1 + eps53)"
    using nonneg eps53_pos by (simp add: algebra_simps)
  ultimately have "?q + fl ?r \<le> (?q + ?r) * (1 + eps53)"
    by (simp only: distrib_right)
  moreover have "dur_seconds d \<le> (?q + fl ?r) * (1 + eps53)"
    using nonneg by (simp add: dur_seconds_parts [OF assms] fl_le)
  ultimately have "dur_seconds d \<le> (?q + ?r) * (1 + eps53) * (1 + eps53)"
    using eps53_pos by (elim order_trans mult_right_mono) simp
  moreover have "?q + ?r = of_int d / 1000000000"
  proof -
    have "of_int (d div Second) * 1000000000 + of_int (d mod Second) = (of_int d :: rat)"
      by (metis div_mult_mod_eq of_int_add of_int_mult of_int_numeral)
    then show ?thesis by (simp add: field_simps)
  qed
  ultimately show ?thesis by (simp add: power2_eq_square mult.assoc)
qed

lemma dur_seconds_whole:
  assumes "0 \<le> k" "in_int64 (k * Second)"
  shows "dur_seconds (k * Second) = of_int k"
proof -
  have "k < 2 ^ 53" using assms by (auto simp: in_int64_def)
  then show ?thesis using assms by (simp add: dur_seconds_parts)
qed

end
