(* ===== verification/GoStrings.thy ===== *)
theory GoStrings
  imports Prelude
begin

text \<open>
  The functions of Go's \<^verbatim>\<open>strings\<close> and \<^verbatim>\<open>strconv\<close> packages that the configuration code calls,
  on byte strings.  \<^verbatim>\<open>TrimSpace\<close> strips the UTF-8 encodings of the Unicode white-space runes.
  \<^verbatim>\<open>ToLower\<close> is modelled as far as its callers can tell: they compare the result with ASCII
  words only, and the runes that lower to ASCII letters are \<open>A\<close> to \<open>Z\<close>, U+0130 (to
  \<open>i\<close>) and U+212A (to \<open>k\<close>); every other non-ASCII byte is left as it is.
\<close>

section \<open>White space\<close>

definition spaces :: "string list" where
  "spaces =
     [[CHR 0x09], [CHR 0x0A], [CHR 0x0B], [CHR 0x0C], [CHR 0x0D], [CHR 0x20],
      [CHR 0xC2, CHR 0x85], [CHR 0xC2, CHR 0xA0], [CHR 0xE1, CHR 0x9A, CHR 0x80],
      [CHR 0xE2, CHR 0x80, CHR 0x80], [CHR 0xE2, CHR 0x80, CHR 0x81],
      [CHR 0xE2, CHR 0x80, CHR 0x82], [CHR 0xE2, CHR 0x80, CHR 0x83],
      [CHR 0xE2, CHR 0x80, CHR 0x84], [CHR 0xE2, CHR 0x80, CHR 0x85],
      [CHR 0xE2, CHR 0x80, CHR 0x86], [CHR 0xE2, CHR 0x80, CHR 0x87],
      [CHR 0xE2, CHR 0x80, CHR 0x88], [CHR 0xE2, CHR 0x80, CHR 0x89],
      [CHR 0xE2, CHR 0x80, CHR 0x8A], [CHR 0xE2, CHR 0x80, CHR 0xA8],
      [CHR 0xE2, CHR 0x80, CHR 0xA9], [CHR 0xE2, CHR 0x80, CHR 0xAF],
      [CHR 0xE2, CHR 0x81, CHR 0x9F], [CHR 0xE3, CHR 0x80, CHR 0x80]]"

fun strip_prefix :: "string \<Rightarrow> string \<Rightarrow> string option" where
  "strip_prefix [] s = Some s"
| "strip_prefix (p # ps) [] = None"
| "strip_prefix (p # ps) (c # cs) = (if p = c then strip_prefix ps cs else None)"

definition strip_any :: "string list \<Rightarrow> string \<Rightarrow> string option" where
  "strip_any ps s = (case List.find (\<lambda>p. strip_prefix p s \<noteq> None) ps of None \<Rightarrow> None
                     | Some p \<Rightarrow> strip_prefix p s)"

lemma strip_prefix_Some: "strip_prefix p s = Some r \<Longrightarrow> s = p @ r"
  by (induction p s rule: strip_prefix.induct) (auto split: if_splits)

lemma strip_any_shorter:
  assumes "[] \<notin> set ps" "strip_any ps s = Some r" shows "length r < length s"
proof -
  from assms(2) obtain p where "List.find (\<lambda>p. strip_prefix p s \<noteq> None) ps = Some p"
    and r: "strip_prefix p s = Some r"
    by (auto simp: strip_any_def split: option.splits)
  then have "p \<in> set ps" by (auto simp: find_Some_iff)
  then have "p \<noteq> []" using assms(1) by auto
  then show ?thesis using strip_prefix_Some [OF r] by simp
qed

function trim_left :: "string list \<Rightarrow> string \<Rightarrow> string" where
  "trim_left ps s =
     (if [] \<in> set ps then s
      else case strip_any ps s of None \<Rightarrow> s | Some r \<Rightarrow> trim_left ps r)"
  by pat_completeness auto
termination
  by (relation "measure (\<lambda>(ps, s). length s)") (auto intro: strip_any_shorter)

declare trim_left.simps [simp del]

definition TrimSpace :: "string \<Rightarrow> string" where
  "TrimSpace s = rev (trim_left (map rev spaces) (rev (trim_left spaces s)))"

lemma trim_left_unchanged: "strip_any ps s = None \<Longrightarrow> trim_left ps s = s"
  by (simp add: trim_left.simps [of ps s])

lemma strip_prefix_first:
  "strip_prefix p s = Some r \<Longrightarrow> p \<noteq> [] \<Longrightarrow> s \<noteq> [] \<and> hd p = hd s"
  by (drule strip_prefix_Some) (cases p; simp)

text \<open>A string whose first and last bytes are not the first or last byte of a white-space
  encoding is left as it is; every ASCII byte from \<open>!\<close> on qualifies.\<close>

definition graphic :: "char \<Rightarrow> bool" where
  "graphic c \<longleftrightarrow> 33 \<le> (of_char c :: nat) \<and> (of_char c :: nat) < 127"

lemma strip_any_graphic:
  assumes "list_all (\<lambda>p. p \<noteq> [] \<and> \<not> graphic (hd p)) ps" "s = [] \<or> graphic (hd s)"
  shows "strip_any ps s = None"
proof -
  have "strip_prefix p s = None" if "p \<in> set ps" for p
    using assms that strip_prefix_first [of p s] by (cases "strip_prefix p s") (auto simp: list_all_iff)
  then have "List.find (\<lambda>p. strip_prefix p s \<noteq> None) ps = None" by (auto simp: find_None_iff)
  then show ?thesis by (simp add: strip_any_def)
qed

lemma spaces_not_graphic:
  "list_all (\<lambda>p. p \<noteq> [] \<and> \<not> graphic (hd p)) spaces"
  "list_all (\<lambda>p. p \<noteq> [] \<and> \<not> graphic (hd p)) (map rev spaces)"
  by (simp_all add: spaces_def graphic_def)

lemma TrimSpace_graphic:
  assumes "s = [] \<or> graphic (hd s) \<and> graphic (last s)" shows "TrimSpace s = s"
proof -
  have "trim_left spaces s = s" "trim_left (map rev spaces) (rev s) = rev s"
    using assms by (auto intro!: trim_left_unchanged strip_any_graphic spaces_not_graphic simp: hd_rev)
  then show ?thesis by (simp add: TrimSpace_def)
qed

section \<open>Case\<close>

definition upper_char :: "char \<Rightarrow> char" where
  "upper_char c = (let n = of_char c :: nat in if 97 \<le> n \<and> n \<le> 122 then char_of (n - 32) else c)"

definition lower_char :: "char \<Rightarrow> char" where
  "lower_char c = (let n = of_char c :: nat in if 65 \<le> n \<and> n \<le> 90 then char_of (n + 32) else c)"

text \<open>\<^verbatim>\<open>ToUpper\<close> is only called on strings of ASCII letters.\<close>

definition ToUpper :: "string \<Rightarrow> string" where
  "ToUpper = map upper_char"

fun ToLower :: "string \<Rightarrow> string" where
  "ToLower [] = []"
| "ToLower (c # cs) =
     (case strip_prefix ([CHR 0xC4, CHR 0xB0]) (c # cs) of
        Some r \<Rightarrow> CHR ''i'' # ToLower (drop 1 cs)
      | None \<Rightarrow>
        (case strip_prefix ([CHR 0xE2, CHR 0x84, CHR 0xAA]) (c # cs) of
           Some r \<Rightarrow> CHR ''k'' # ToLower (drop 2 cs)
         | None \<Rightarrow> lower_char c # ToLower cs))"

section \<open>Integers\<close>

datatype numError = ErrSyntax | ErrRange

definition digit_val :: "char \<Rightarrow> int option" where
  "digit_val c = (let n = of_char c :: nat in if 48 \<le> n \<and> n \<le> 57 then Some (int n - 48) else None)"

fun parse_digits :: "string \<Rightarrow> int \<Rightarrow> int option" where
  "parse_digits [] acc = Some acc"
| "parse_digits (c # cs) acc =
     (case digit_val c of None \<Rightarrow> None | Some d \<Rightarrow> parse_digits cs (10 * acc + d))"

text \<open>\<^verbatim>\<open>strconv.ParseInt(s, 10, 64)\<close>: an optional sign, one or more decimal digits, and the
  value in range.\<close>

definition ParseInt :: "string \<Rightarrow> numError + int" where
  "ParseInt s =
     (let neg = (s \<noteq> [] \<and> hd s = CHR ''-'');
          ds = (if s \<noteq> [] \<and> (hd s = CHR ''-'' \<or> hd s = CHR ''+'') then tl s else s)
      in if ds = [] then Inl ErrSyntax
         else case parse_digits ds 0 of
           None \<Rightarrow> Inl ErrSyntax
         | Some v \<Rightarrow> (let n = (if neg then - v else v) in if in_int64 n then Inr n else Inl ErrRange))"

fun show_nat :: "nat \<Rightarrow> string" where
  "show_nat n = (if n < 10 then [char_of (48 + n)] else show_nat (n div 10) @ [char_of (48 + n mod 10)])"

declare show_nat.simps [simp del]

definition show_int :: "int \<Rightarrow> string" where
  "show_int n = (if n < 0 then ''-'' @ show_nat (nat (- n)) else show_nat (nat n))"

lemma digit_val_char_of: "d < 10 \<Longrightarrow> digit_val (char_of (48 + d)) = Some (int d)"
  by (simp add: digit_val_def Let_def)

lemma parse_digits_append: "parse_digits (xs @ ys) acc = Option.bind (parse_digits xs acc) (parse_digits ys)"
  by (induction xs arbitrary: acc) (auto split: option.splits)

lemma parse_digits_show_nat: "parse_digits (show_nat n) 0 = Some (int n)"
proof (induction n rule: show_nat.induct)
  case (1 n)
  show ?case
  proof (cases "n < 10")
    case True
    then show ?thesis by (simp add: show_nat.simps [of n] digit_val_char_of)
  next
    case False
    then show ?thesis
      using "1.IH" by (simp add: show_nat.simps [of n] parse_digits_append digit_val_char_of zdiv_int zmod_int)
  qed
qed

lemma show_nat_digits: "c \<in> set (show_nat n) \<Longrightarrow> digit_val c \<noteq> None"
proof (induction n rule: show_nat.induct)
  case (1 n)
  then show ?case by (cases "n < 10") (auto simp: show_nat.simps [of n] digit_val_char_of)
qed

lemma show_nat_not_Nil [simp]: "show_nat n \<noteq> []"
  by (simp add: show_nat.simps)

lemma hd_show_nat: "hd (show_nat n) \<noteq> CHR ''-''" "hd (show_nat n) \<noteq> CHR ''+''"
  using show_nat_digits [OF hd_in_set, of n] by (auto simp: digit_val_def)

text \<open>Printing an \<^verbatim>\<open>int64\<close> in decimal and parsing it back.\<close>

lemma ParseInt_show_int: "in_int64 n \<Longrightarrow> ParseInt (show_int n) = Inr n"
proof -
  assume r: "in_int64 n"
  show ?thesis
  proof (cases "n < 0")
    case True
    then show ?thesis using r by (simp add: ParseInt_def show_int_def parse_digits_show_nat)
  next
    case False
    then show ?thesis using r by (simp add: ParseInt_def show_int_def parse_digits_show_nat hd_show_nat)
  qed
qed

end
