(* ===== verification/Netip.thy ===== *)
theory Netip
  imports GoStrings
begin

text \<open>
  The part of Go's \<^verbatim>\<open>net/netip\<close> the proxy uses: addresses with their 16-byte form, the
  removal of the IPv4-mapped prefix, the text form (hashed by the load balancer), address and
  port pairs, and the FNV-1a step that \<^verbatim>\<open>backend.go\<close>, \<^verbatim>\<open>session.go\<close> and \<^verbatim>\<open>frontend.go\<close>
  each write out inline.
\<close>

unbundle bit_operations_syntax

type_synonym byte = "8 word"

text \<open>\<^verbatim>\<open>netip.Addr\<close>: the zero value, an IPv4 address, or an IPv6 address with its zone.\<close>

datatype addr = AddrZero | Addr4 "32 word" | Addr6 "128 word" string

record addrport =
  ap_addr :: addr
  ap_port :: "16 word"

definition mapped4 :: "32 word \<Rightarrow> 128 word" where
  "mapped4 a = push_bit 32 0xffff OR ucast a"

primrec addr_bits :: "addr \<Rightarrow> 128 word" where
  "addr_bits AddrZero = 0"
| "addr_bits (Addr4 a) = mapped4 a"
| "addr_bits (Addr6 a z) = a"

definition As16 :: "addr \<Rightarrow> byte list" where
  "As16 a = map (\<lambda>i. ucast (drop_bit (120 - 8 * i) (addr_bits a))) [0..<16]"

primrec Is4In6 :: "addr \<Rightarrow> bool" where
  "Is4In6 AddrZero = False"
| "Is4In6 (Addr4 a) = False"
| "Is4In6 (Addr6 a z) \<longleftrightarrow> drop_bit 32 a = 0xffff"

definition Unmap :: "addr \<Rightarrow> addr" where
  "Unmap a = (case a of Addr6 w z \<Rightarrow> if Is4In6 a then Addr4 (ucast w) else a | _ \<Rightarrow> a)"

definition addrport_unmap :: "addrport \<Rightarrow> addrport" where
  "addrport_unmap ap = \<lparr>ap_addr = Unmap (ap_addr ap), ap_port = ap_port ap\<rparr>"

text \<open>\<^verbatim>\<open>netip.AddrFromSlice\<close>: 4 or 16 bytes, in network order.\<close>

definition AddrFromSlice :: "byte list \<Rightarrow> addr option" where
  "AddrFromSlice bs =
     (if length bs = 4 then Some (Addr4 (foldl (\<lambda>a b. push_bit 8 a OR ucast b) 0 bs))
      else if length bs = 16 then Some (Addr6 (foldl (\<lambda>a b. push_bit 8 a OR ucast b) 0 bs) [])
      else None)"

lemma length_As16 [simp]: "length (As16 a) = 16"
  by (simp add: As16_def)

lemma Is4In6_Unmap [simp]: "\<not> Is4In6 (Unmap a)"
  by (cases a) (simp_all add: Unmap_def)

lemma Unmap_Unmap [simp]: "Unmap (Unmap a) = Unmap a"
  by (cases a) (simp_all add: Unmap_def)

section \<open>Text form\<close>

definition hex_digit :: "nat \<Rightarrow> char" where
  "hex_digit d = (if d < 10 then char_of (48 + d) else char_of (87 + d))"

fun hex_digits :: "nat \<Rightarrow> string" where
  "hex_digits n = (if n < 16 then [hex_digit n] else hex_digits (n div 16) @ [hex_digit (n mod 16)])"

declare hex_digits.simps [simp del]

definition string4 :: "32 word \<Rightarrow> string" where
  "string4 a =
     show_nat (unat (drop_bit 24 a AND 255)) @ ''.'' @ show_nat (unat (drop_bit 16 a AND 255)) @ ''.'' @
     show_nat (unat (drop_bit 8 a AND 255)) @ ''.'' @ show_nat (unat (a AND 255))"

definition v6u16 :: "128 word \<Rightarrow> nat \<Rightarrow> nat" where
  "v6u16 a i = unat (drop_bit (112 - 16 * i) a AND 0xffff)"

text \<open>
  \<^verbatim>\<open>appendTo6\<close>: the leftmost longest run of two or more zero groups is elided.  The first
  loop finds it, the second prints the groups.
\<close>

definition zeroRun :: "128 word \<Rightarrow> nat \<Rightarrow> nat" where
  "zeroRun a i = length (takeWhile (\<lambda>j. v6u16 a j = 0) [i..<8])"

definition longestZeroRun :: "128 word \<Rightarrow> (nat \<times> nat) option" where
  "longestZeroRun a =
     foldl (\<lambda>best i. let l = zeroRun a i in
              if l \<ge> 2 \<and> (case best of None \<Rightarrow> True | Some (s, e) \<Rightarrow> l > e - s) then Some (i, i + l) else best)
       None [0..<8]"

fun print6 :: "128 word \<Rightarrow> (nat \<times> nat) option \<Rightarrow> nat \<Rightarrow> nat \<Rightarrow> string" where
  "print6 a run i 0 = []"
| "print6 a run i (Suc fuel) =
     (if 8 \<le> i then []
      else case run of
        Some (s, e) \<Rightarrow>
          (if i = s then ''::'' @ (if 8 \<le> e then [] else hex_digits (v6u16 a e) @ print6 a run (Suc e) fuel)
           else (if i > 0 then '':'' else []) @ hex_digits (v6u16 a i) @ print6 a run (Suc i) fuel)
      | None \<Rightarrow> (if i > 0 then '':'' else []) @ hex_digits (v6u16 a i) @ print6 a run (Suc i) fuel)"

definition string6 :: "128 word \<Rightarrow> string \<Rightarrow> string" where
  "string6 a z = print6 a (longestZeroRun a) 0 9 @ (if z = [] then [] else ''%'' @ z)"

definition addr_string :: "addr \<Rightarrow> string" where
  "addr_string a =
     (case a of
        AddrZero \<Rightarrow> ''invalid IP''
      | Addr4 w \<Rightarrow> string4 w
      | Addr6 w z \<Rightarrow>
          (if Is4In6 a then ''::ffff:'' @ string4 (ucast w) @ (if z = [] then [] else ''%'' @ z)
           else string6 w z))"

section \<open>FNV-1a\<close>

text \<open>\<^verbatim>\<open>h ^= uint32(b); h *= prime32\<close>, with the 32-bit wrap-around of the multiplication.\<close>

definition fnv_step :: "32 word \<Rightarrow> 32 word \<Rightarrow> 32 word" where
  "fnv_step h b = (h XOR b) * 16777619"

definition fnv_offset :: "32 word" where
  "fnv_offset = 2166136261"

definition fnv_addrport :: "addrport \<Rightarrow> 32 word" where
  "fnv_addrport ap =
     (let h = foldl (\<lambda>h b. fnv_step h (ucast b)) fnv_offset (As16 (ap_addr ap));
          port = ap_port ap
      in fnv_step (fnv_step h (ucast (drop_bit 8 port))) (ucast (port AND 0xff)))"

end
