(* ===== verification/Shaping.thy ===== *)
theory Shaping
  imports GoFloat Netip
begin

text \<open>
  \<^verbatim>\<open>src/internal/shaping/shaping.go\<close>: the token bucket and the per-client limiter.
  \<^verbatim>\<open>float64\<close> arithmetic is rounded (\<open>GoFloat\<close>).  A \<^verbatim>\<open>nil\<close> bucket or limiter is \<open>None\<close>.
  \<^verbatim>\<open>NewBucket\<close> reads the clock, so it takes that reading as an argument.
\<close>

section \<open>Limits\<close>

record limits =
  Enabled :: bool
  PacketsPerSecond :: int
  BytesPerSecond :: int
  BurstPackets :: int
  BurstBytes :: int

definition Normalize :: "limits \<Rightarrow> limits" where
  "Normalize l =
     (let l1 = (if BurstPackets l \<le> 0 \<and> PacketsPerSecond l > 0
                then l\<lparr>BurstPackets := PacketsPerSecond l\<rparr> else l);
          l2 = (if BurstBytes l1 \<le> 0 \<and> BytesPerSecond l1 > 0
                then l1\<lparr>BurstBytes := BytesPerSecond l1\<rparr> else l1)
      in if PacketsPerSecond l2 > 0 \<or> BytesPerSecond l2 > 0 then l2\<lparr>Enabled := True\<rparr> else l2)"

section \<open>The token bucket\<close>

record bucket =
  b_limits :: limits
  lastRefill :: time
  packetTok :: rat
  byteTok :: rat

definition NewBucket :: "limits \<Rightarrow> time \<Rightarrow> bucket option" where
  "NewBucket l0 now =
     (let l = Normalize l0 in
      if \<not> Enabled l then None
      else Some \<lparr>b_limits = l, lastRefill = now,
                 packetTok = (if PacketsPerSecond l > 0 then float64 (BurstPackets l) else 0),
                 byteTok = (if BytesPerSecond l > 0 then float64 (BurstBytes l) else 0)\<rparr>)"

text \<open>The refill of one kind of token: add what \<open>elapsed\<close> seconds bring, cap at the burst.\<close>

definition refillTok :: "rat \<Rightarrow> int \<Rightarrow> int \<Rightarrow> rat \<Rightarrow> rat" where
  "refillTok elapsed rate burst tok =
     (let t = fadd tok (fmul elapsed (float64 rate))
      in if t > float64 burst then float64 burst else t)"

definition refill :: "bucket \<Rightarrow> time \<Rightarrow> bucket" where
  "refill b now =
     (let elapsed = dur_seconds (time_sub now (lastRefill b)); l = b_limits b in
      if elapsed > 0
      then b\<lparr>packetTok := (if PacketsPerSecond l > 0
                           then refillTok elapsed (PacketsPerSecond l) (BurstPackets l) (packetTok b)
                           else packetTok b),
             byteTok := (if BytesPerSecond l > 0
                         then refillTok elapsed (BytesPerSecond l) (BurstBytes l) (byteTok b)
                         else byteTok b),
             lastRefill := now\<rparr>
      else b)"

definition Bucket_Allow :: "bucket \<Rightarrow> int \<Rightarrow> time \<Rightarrow> bool \<times> bucket" where
  "Bucket_Allow b0 n now =
     (let b = refill b0 now; l = b_limits b in
      if PacketsPerSecond l > 0 \<and> packetTok b < 1 then (False, b)
      else if BytesPerSecond l > 0 \<and> byteTok b < float64 n then (False, b)
      else (True,
        b\<lparr>packetTok := (if PacketsPerSecond l > 0 then fsub (packetTok b) 1 else packetTok b),
          byteTok := (if BytesPerSecond l > 0 then fsub (byteTok b) (float64 n) else byteTok b)\<rparr>))"

text \<open>The method on a possibly \<^verbatim>\<open>nil\<close> receiver.\<close>

definition Allow_opt :: "bucket option \<Rightarrow> int \<Rightarrow> time \<Rightarrow> bool \<times> bucket option" where
  "Allow_opt ob n now =
     (case ob of None \<Rightarrow> (True, None)
      | Some b \<Rightarrow> (let (ok, b') = Bucket_Allow b n now in (ok, Some b')))"

section \<open>The per-client limiter\<close>

record clientEntry =
  ce_bucket :: "bucket option"
  ce_lastSeen :: int

record clientShard =
  cs_entries :: "(addr \<times> clientEntry) list"
  cs_lastSweep :: int

record clientLimiter =
  cl_ttl :: duration
  cl_shards :: "clientShard list"
  cl_enabled :: bool
  cl_limitBase :: limits

definition NewClientLimiter :: "limits \<Rightarrow> duration \<Rightarrow> clientLimiter option" where
  "NewClientLimiter l0 ttl0 =
     (let l = Normalize l0 in
      if \<not> Enabled l then None
      else Some \<lparr>cl_ttl = (if ttl0 \<le> 0 then 120 * Second else ttl0),
                 cl_shards = replicate 64 \<lparr>cs_entries = [], cs_lastSweep = 0\<rparr>,
                 cl_enabled = True, cl_limitBase = l\<rparr>)"

text \<open>The shard of an address: the two last bytes of its 16-byte form, xored, modulo the shards.\<close>

definition addrShard :: "addr \<Rightarrow> nat \<Rightarrow> nat" where
  "addrShard a len = unat (As16 a ! 14 XOR As16 a ! 15) mod len"

definition sweepClients :: "(addr \<times> clientEntry) list \<Rightarrow> int \<Rightarrow> (addr \<times> clientEntry) list" where
  "sweepClients es cutoff = filter (\<lambda>(ip, e). \<not> ce_lastSeen e < cutoff) es"

text \<open>The client's entry, created when it is new, with \<^verbatim>\<open>lastSeen\<close> stored.\<close>

definition touchClient :: "limits \<Rightarrow> clientShard \<Rightarrow> addr \<Rightarrow> int \<Rightarrow> time \<Rightarrow> clientEntry" where
  "touchClient l sh a nowUnix tnow =
     (case map_of (cs_entries sh) a of
        None \<Rightarrow> \<lparr>ce_bucket = NewBucket l tnow, ce_lastSeen = nowUnix\<rparr>
      | Some e \<Rightarrow> e\<lparr>ce_lastSeen := nowUnix\<rparr>)"

text \<open>
  \<^verbatim>\<open>Allow\<close> under the shard's lock, then the bucket's \<^verbatim>\<open>Allow\<close>.  \<open>tnow\<close> is what
  \<^verbatim>\<open>NewBucket\<close> reads from the clock when the client is new.  The entry is a pointer that
  stays in the table, so the bucket's new state is written back to the same entry.
\<close>

definition ClientLimiter_Allow ::
  "clientLimiter \<Rightarrow> addr \<Rightarrow> int \<Rightarrow> time \<Rightarrow> time \<Rightarrow> bool \<times> clientLimiter" where
  "ClientLimiter_Allow cl a n now tnow =
     (if \<not> cl_enabled cl then (True, cl)
      else let idx = addrShard a (length (cl_shards cl));
               sh = cl_shards cl ! idx;
               nowUnix = time_unix now;
               e = touchClient (cl_limitBase cl) sh a nowUnix tnow;
               es1 = AList.update a e (cs_entries sh);
               sweep = (nowUnix - cs_lastSweep sh \<ge> int64_of_float (dur_seconds (cl_ttl cl)));
               es2 = (if sweep then sweepClients es1 (time_unix (time_add now (- cl_ttl cl))) else es1);
               sw = (if sweep then nowUnix else cs_lastSweep sh);
               (ok, b') = Allow_opt (ce_bucket e) n now;
               es3 = (case map_of es2 a of None \<Rightarrow> es2
                      | Some e2 \<Rightarrow> AList.update a (e2\<lparr>ce_bucket := b'\<rparr>) es2)
           in (ok, cl\<lparr>cl_shards := (cl_shards cl)[idx := \<lparr>cs_entries = es3, cs_lastSweep = sw\<rparr>]\<rparr>))"

section \<open>Well-formed buckets\<close>

text \<open>
  Tokens stay between zero and the burst, for every kind of token that is limited; a limited
  kind has a positive burst, which \<open>Normalize\<close> arranges.
\<close>

definition tok_ok :: "int \<Rightarrow> int \<Rightarrow> rat \<Rightarrow> bool" where
  "tok_ok rate burst tok \<longleftrightarrow> (0 < rate \<longrightarrow> 0 < burst \<and> 0 \<le> tok \<and> tok \<le> float64 burst)"

definition bucket_ok :: "bucket \<Rightarrow> bool" where
  "bucket_ok b \<longleftrightarrow>
     tok_ok (PacketsPerSecond (b_limits b)) (BurstPackets (b_limits b)) (packetTok b) \<and>
     tok_ok (BytesPerSecond (b_limits b)) (BurstBytes (b_limits b)) (byteTok b)"

lemma Normalize_rates [simp]:
  "PacketsPerSecond (Normalize l) = PacketsPerSecond l"
  "BytesPerSecond (Normalize l) = BytesPerSecond l"
  by (auto simp: Normalize_def Let_def)

lemma Normalize_bursts:
  "0 < PacketsPerSecond l \<Longrightarrow> 0 < BurstPackets (Normalize l)"
  "0 < BytesPerSecond l \<Longrightarrow> 0 < BurstBytes (Normalize l)"
  by (auto simp: Normalize_def Let_def)

lemma Normalize_Enabled:
  "Enabled (Normalize l) \<longleftrightarrow> Enabled l \<or> 0 < PacketsPerSecond l \<or> 0 < BytesPerSecond l"
  by (auto simp: Normalize_def Let_def)

lemma NewBucket_ok: "NewBucket l now = Some b \<Longrightarrow> bucket_ok b"
  by (auto simp: NewBucket_def Let_def bucket_ok_def tok_ok_def Normalize_bursts
      float64_nonneg less_imp_le split: if_splits)

lemma refillTok_ok:
  "0 \<le> elapsed \<Longrightarrow> tok_ok rate burst tok \<Longrightarrow> 0 < rate \<Longrightarrow>
     tok_ok rate burst (refillTok elapsed rate burst tok)"
  by (auto simp: tok_ok_def refillTok_def Let_def fadd_def fmul_def less_imp_le)

lemma refill_limits [simp]: "b_limits (refill b now) = b_limits b"
  by (simp add: refill_def Let_def)

lemma refill_ok: "bucket_ok b \<Longrightarrow> bucket_ok (refill b now)"
  by (auto simp: refill_def Let_def bucket_ok_def refillTok_ok)

lemma fsub_ok:
  assumes "tok_ok rate burst tok" "0 < rate" "0 \<le> c" "c \<le> tok"
  shows "tok_ok rate burst (fsub tok c)"
proof -
  have "fl (tok - c) \<le> fl (float64 burst)"
    using assms by (intro fl_mono) (auto simp: tok_ok_def)
  then show ?thesis using assms by (simp add: tok_ok_def fsub_def)
qed

lemma Bucket_Allow_limits [simp]: "b_limits (snd (Bucket_Allow b n now)) = b_limits b"
  by (simp add: Bucket_Allow_def Let_def)

lemma Bucket_Allow_lastRefill: "lastRefill (snd (Bucket_Allow b n now)) = lastRefill (refill b now)"
  by (simp add: Bucket_Allow_def Let_def)

lemma Bucket_Allow_ok: "bucket_ok b \<Longrightarrow> 0 \<le> n \<Longrightarrow> bucket_ok (snd (Bucket_Allow b n now))"
  using refill_ok [of b now]
  by (auto simp: Bucket_Allow_def Let_def bucket_ok_def fsub_ok)

interpretation bucket: limiter "\<lambda>b (n, now). Bucket_Allow b n now"
    "\<lambda>b. bucket_ok b \<and> b_limits b = l" "\<lambda>(n, now). 0 \<le> n" for l
  by unfold_locales (auto intro: Bucket_Allow_ok)

text \<open>A run of \<^verbatim>\<open>Allow\<close> calls on one bucket, each with its packet size and time.\<close>

abbreviation Bucket_run :: "bucket \<Rightarrow> (int \<times> time) list \<Rightarrow> bool list \<times> bucket" where
  "Bucket_run \<equiv> run_limiter (\<lambda>b (n, now). Bucket_Allow b n now)"

lemma length_Bucket_run: "length (fst (Bucket_run b cs)) = length cs"
  by (induction cs arbitrary: b) (auto simp: split_beta)

section \<open>The rate bound\<close>

text \<open>Seconds of refill a bucket has taken between two of its states.\<close>

definition refilled :: "bucket \<Rightarrow> bucket \<Rightarrow> rat" where
  "refilled b b' = of_int (t_mono (lastRefill b') - t_mono (lastRefill b)) / 1000000000"

lemma refilled_trans: "refilled a b + refilled b c = refilled a c"
  by (simp add: refilled_def field_simps)

lemma refilled_self: "refilled a a = 0"
  by (simp add: refilled_def)

lemma refillTok_le:
  assumes "0 \<le> elapsed" "0 < rate" "tok_ok rate burst tok"
  shows "refillTok elapsed rate burst tok
    \<le> tok + elapsed * of_int rate * (1 + eps53) ^ 3 + float64 burst * eps53"
proof -
  let ?a = "fmul elapsed (float64 rate)"
  have tok: "0 \<le> tok" "tok \<le> float64 burst" using assms by (auto simp: tok_ok_def)
  have "elapsed * float64 rate \<le> elapsed * (of_int rate * (1 + eps53))"
    using assms by (intro mult_left_mono float64_le) auto
  moreover have "?a \<le> elapsed * float64 rate * (1 + eps53)"
    using assms unfolding fmul_def by (intro fl_le) simp
  ultimately have a: "?a \<le> elapsed * (of_int rate * (1 + eps53)) * (1 + eps53)"
    using eps53_pos by (elim order_trans mult_right_mono) simp
  have "0 \<le> ?a" using assms by (simp add: fmul_def)
  then have "fadd tok ?a \<le> (tok + ?a) * (1 + eps53)"
    using tok unfolding fadd_def by (intro fl_le) simp
  moreover have "refillTok elapsed rate burst tok \<le> fadd tok ?a"
    by (simp add: refillTok_def Let_def)
  moreover have "tok * eps53 \<le> float64 burst * eps53"
    using tok eps53_pos by (simp add: mult_right_mono)
  moreover have "?a * (1 + eps53) \<le> elapsed * of_int rate * (1 + eps53) ^ 3"
    using mult_right_mono [OF a, of "1 + eps53"] eps53_pos by (simp add: power3_eq_cube ac_simps)
  ultimately show ?thesis by (simp add: algebra_simps)
qed

lemma refill_elapsed_le:
  "dur_seconds (time_sub now (lastRefill b)) > 0 \<Longrightarrow>
     dur_seconds (time_sub now (lastRefill b)) \<le> refilled b (refill b now) * (1 + eps53) ^ 2"
proof -
  let ?d = "time_sub now (lastRefill b)"
  assume pos: "dur_seconds ?d > 0"
  then have "0 < ?d" using dur_seconds_nonpos [of ?d] by linarith
  then have "dur_seconds ?d \<le> of_int ?d / 1000000000 * (1 + eps53) ^ 2"
    by (intro dur_seconds_le) (simp_all add: time_sub_def sat64_in_int64 less_imp_le)
  moreover have "?d \<le> t_mono now - t_mono (lastRefill b)"
    using \<open>0 < ?d\<close> unfolding time_sub_def by (intro sat64_le) simp
  then have "of_int ?d / 1000000000 \<le> refilled b (refill b now)"
    using pos by (simp add: refilled_def refill_def Let_def divide_right_mono)
  then have "of_int ?d / 1000000000 * (1 + eps53) ^ 2 \<le> refilled b (refill b now) * (1 + eps53) ^ 2"
    using eps53_pos by (intro mult_right_mono) auto
  ultimately show ?thesis by simp
qed

lemma tok_gain:
  assumes "elapsed \<le> dt * (1 + eps53) ^ 2" "0 < elapsed" "0 < rate" "tok_ok rate burst tok"
  shows "refillTok elapsed rate burst tok
    \<le> tok + of_int rate * dt * (1 + eps53) ^ 5 + float64 burst * eps53"
proof -
  have "elapsed * (of_int rate * (1 + eps53) ^ 3) \<le> dt * (1 + eps53) ^ 2 * (of_int rate * (1 + eps53) ^ 3)"
    using assms eps53_pos by (intro mult_right_mono) auto
  also have "\<dots> = of_int rate * dt * (1 + eps53) ^ (2 + 3)"
    unfolding power_add by (simp only: ac_simps)
  finally have "elapsed * of_int rate * (1 + eps53) ^ 3 \<le> of_int rate * dt * (1 + eps53) ^ 5"
    by (simp only: mult.assoc) simp
  with refillTok_le [of elapsed rate burst tok] assms show ?thesis by linarith
qed

lemma refill_gain:
  assumes "bucket_ok b"
  shows "0 < PacketsPerSecond (b_limits b) \<Longrightarrow> packetTok (refill b now) \<le> packetTok b
      + of_int (PacketsPerSecond (b_limits b)) * refilled b (refill b now) * (1 + eps53) ^ 5
      + float64 (BurstPackets (b_limits b)) * eps53"
    and "0 < BytesPerSecond (b_limits b) \<Longrightarrow> byteTok (refill b now) \<le> byteTok b
      + of_int (BytesPerSecond (b_limits b)) * refilled b (refill b now) * (1 + eps53) ^ 5
      + float64 (BurstBytes (b_limits b)) * eps53"
proof -
  let ?el = "dur_seconds (time_sub now (lastRefill b))" and ?l = "b_limits b"
  have dt: "?el > 0 \<Longrightarrow> ?el \<le> refilled b (refill b now) * (1 + eps53) ^ 2"
    by (rule refill_elapsed_le)
  have same: "\<not> ?el > 0 \<Longrightarrow> refill b now = b" by (simp add: refill_def Let_def)
  have eps: "0 \<le> eps53" using eps53_pos by simp
  show "packetTok (refill b now) \<le> packetTok b
      + of_int (PacketsPerSecond ?l) * refilled b (refill b now) * (1 + eps53) ^ 5
      + float64 (BurstPackets ?l) * eps53" if "0 < PacketsPerSecond ?l"
  proof (cases "?el > 0")
    case True
    then have "packetTok (refill b now) = refillTok ?el (PacketsPerSecond ?l) (BurstPackets ?l) (packetTok b)"
      using that by (simp add: refill_def Let_def)
    with tok_gain [OF dt [OF True] True that] assms show ?thesis by (simp add: bucket_ok_def)
  next
    case False
    with assms that eps show ?thesis by (simp add: same refilled_self bucket_ok_def tok_ok_def)
  qed
  show "byteTok (refill b now) \<le> byteTok b
      + of_int (BytesPerSecond ?l) * refilled b (refill b now) * (1 + eps53) ^ 5
      + float64 (BurstBytes ?l) * eps53" if "0 < BytesPerSecond ?l"
  proof (cases "?el > 0")
    case True
    then have "byteTok (refill b now) = refillTok ?el (BytesPerSecond ?l) (BurstBytes ?l) (byteTok b)"
      using that by (simp add: refill_def Let_def)
    with tok_gain [OF dt [OF True] True that] assms show ?thesis by (simp add: bucket_ok_def)
  next
    case False
    with assms that eps show ?thesis by (simp add: same refilled_self bucket_ok_def tok_ok_def)
  qed
qed

lemma spend_le:
  assumes "tok_ok rate burst tok" "0 < rate" "0 \<le> c" "c \<le> tok"
  shows "fsub tok c + c \<le> tok + float64 burst * eps53"
  using fl_le_add [of "tok - c" "float64 burst"] assms by (simp add: fsub_def tok_ok_def)

lemma Allow_packet_step:
  assumes "bucket_ok b" and rate: "PacketsPerSecond (b_limits b) = rate" "0 < rate"
    and burst: "BurstPackets (b_limits b) = burst"
  shows "packetTok (snd (Bucket_Allow b n now)) + (if fst (Bucket_Allow b n now) then 1 else 0)
    \<le> packetTok b + of_int rate * (1 + eps53) ^ 5 * refilled b (snd (Bucket_Allow b n now))
      + 2 * float64 burst * eps53"
proof -
  have "refilled b (snd (Bucket_Allow b n now)) = refilled b (refill b now)"
    by (simp add: refilled_def Bucket_Allow_lastRefill)
  moreover have "packetTok (snd (Bucket_Allow b n now)) + (if fst (Bucket_Allow b n now) then 1 else 0)
      \<le> packetTok (refill b now) + float64 burst * eps53"
    using spend_le [of rate burst "packetTok (refill b now)" 1] refill_ok [OF assms(1), of now]
      eps53_pos assms by (auto simp: Bucket_Allow_def Let_def bucket_ok_def tok_ok_def)
  moreover note refill_gain(1) [OF assms(1), of now]
  ultimately show ?thesis using assms by (simp add: algebra_simps)
qed

lemma Allow_byte_step:
  assumes "bucket_ok b" and rate: "BytesPerSecond (b_limits b) = rate" "0 < rate"
    and burst: "BurstBytes (b_limits b) = burst" and "0 \<le> n"
  shows "byteTok (snd (Bucket_Allow b n now)) + (if fst (Bucket_Allow b n now) then float64 n else 0)
    \<le> byteTok b + of_int rate * (1 + eps53) ^ 5 * refilled b (snd (Bucket_Allow b n now))
      + 2 * float64 burst * eps53"
proof -
  have "refilled b (snd (Bucket_Allow b n now)) = refilled b (refill b now)"
    by (simp add: refilled_def Bucket_Allow_lastRefill)
  moreover have "byteTok (snd (Bucket_Allow b n now)) + (if fst (Bucket_Allow b n now) then float64 n else 0)
      \<le> byteTok (refill b now) + float64 burst * eps53"
    using spend_le [of rate burst "byteTok (refill b now)" "float64 n"] refill_ok [OF assms(1), of now]
      eps53_pos assms by (auto simp: Bucket_Allow_def Let_def bucket_ok_def tok_ok_def)
  moreover note refill_gain(2) [OF assms(1), of now]
  ultimately show ?thesis using assms by (simp add: algebra_simps)
qed

lemma sum_list_zip_count:
  "length oks = length rs \<Longrightarrow>
     (\<Sum>(ok, r) \<leftarrow> zip oks rs. if ok then 1 else (0 :: rat)) = of_nat (length (filter id oks))"
  by (induction oks rs rule: list_induct2) auto

text \<open>C21: packet rate.  From any well-formed bucket state, however the calls are spaced in
  time and whatever their sizes, the number of packets a bucket with a packet rate lets pass
  is at most its burst plus the rate times the seconds of refill taken, up to the rounding
  of float64: a factor \<open>(1 + 2^-53)^5\<close> on the refill and \<open>2 * burst * 2^-53\<close> a call.\<close>

theorem Bucket_packet_rate:
  assumes "bucket_ok b" and "0 < PacketsPerSecond (b_limits b)"
    and "list_all (\<lambda>(n, now). 0 \<le> n) cs" and "Bucket_run b cs = (oks, b')"
  shows "of_nat (length (filter id oks))
    \<le> float64 (BurstPackets (b_limits b))
      + of_int (PacketsPerSecond (b_limits b)) * (1 + eps53) ^ 5 * refilled b b'
      + of_nat (length cs) * (2 * float64 (BurstPackets (b_limits b)) * eps53)"
proof -
  let ?l = "b_limits b"
  have "(\<Sum>(ok, r) \<leftarrow> zip oks cs. if ok then 1 else 0)
      \<le> packetTok b + of_int (PacketsPerSecond ?l) * (1 + eps53) ^ 5 * refilled b b'
        + of_nat (length cs) * (2 * float64 (BurstPackets ?l) * eps53)"
  proof (rule bucket.run_cost_bound [where l = ?l and cost = "\<lambda>_. 1" and pot = packetTok
        and gain = "\<lambda>s t. of_int (PacketsPerSecond ?l) * (1 + eps53) ^ 5 * refilled s t"])
    fix c :: bucket and r :: "int \<times> time"
    assume "bucket_ok c \<and> b_limits c = ?l"
    with Allow_packet_step [of c _ _ "fst r" "snd r"] assms(2)
    show "packetTok (snd (case r of (n, now) \<Rightarrow> Bucket_Allow c n now))
        + (if fst (case r of (n, now) \<Rightarrow> Bucket_Allow c n now) then 1 else 0)
      \<le> packetTok c + of_int (PacketsPerSecond ?l) * (1 + eps53) ^ 5
          * refilled c (snd (case r of (n, now) \<Rightarrow> Bucket_Allow c n now))
        + 2 * float64 (BurstPackets ?l) * eps53"
      by (simp add: split_beta)
  qed (use assms in \<open>auto simp: bucket_ok_def tok_ok_def refilled_self
        simp flip: distrib_left intro: arg_cong2 refilled_trans\<close>)
  moreover have "length oks = length cs"
    using length_Bucket_run [of b cs] assms(4) by simp
  moreover have "packetTok b \<le> float64 (BurstPackets ?l)"
    using assms by (simp add: bucket_ok_def tok_ok_def)
  ultimately show ?thesis by (simp add: sum_list_zip_count)
qed

definition test_bucket :: bucket where
  "test_bucket = \<lparr>b_limits = \<lparr>Enabled = True, PacketsPerSecond = 1, BytesPerSecond = 0,
                    BurstPackets = 1, BurstBytes = 0\<rparr>,
     lastRefill = \<lparr>t_wall = 0, t_mono = 0\<rparr>, packetTok = 1, byteTok = 0\<rparr>"

definition test_calls :: "(int \<times> time) list" where
  "test_calls = map (\<lambda>t. (100, \<lparr>t_wall = t, t_mono = t\<rparr>)) [0, 0]"

lemma test_bucket_new:
  "NewBucket \<lparr>Enabled = True, PacketsPerSecond = 1, BytesPerSecond = 0, BurstPackets = 1, BurstBytes = 0\<rparr>
     \<lparr>t_wall = 0, t_mono = 0\<rparr> = Some test_bucket"
  by code_simp

lemma test_run: "fst (Bucket_run test_bucket test_calls) = [True, False]"
  by (simp add: test_bucket_def test_calls_def Bucket_Allow_def refill_def time_sub_def sat64_def
      fsub_def Let_def)

theorem Bucket_packet_rate_witness:
  "of_nat (length (filter id (fst (Bucket_run test_bucket test_calls))))
    \<le> float64 1 + 1 * (1 + eps53) ^ 5 * refilled test_bucket (snd (Bucket_run test_bucket test_calls))
      + 2 * (2 * float64 1 * eps53)
   \<and> fst (Bucket_run test_bucket test_calls) = [True, False]"
proof
  show "fst (Bucket_run test_bucket test_calls) = [True, False]" by (rule test_run)
qed (use Bucket_packet_rate [of test_bucket test_calls "fst (Bucket_run test_bucket test_calls)"
      "snd (Bucket_run test_bucket test_calls)"] NewBucket_ok [OF test_bucket_new]
    in \<open>simp add: test_bucket_def test_calls_def\<close>)

text \<open>Byte rate.  Likewise for the bytes of the packets a bucket with a byte rate lets pass.\<close>

theorem Bucket_byte_rate:
  assumes "bucket_ok b" and "0 < BytesPerSecond (b_limits b)"
    and "list_all (\<lambda>(n, now). 0 \<le> n) cs" and "Bucket_run b cs = (oks, b')"
  shows "(\<Sum>(ok, n, now) \<leftarrow> zip oks cs. if ok then float64 n else 0)
    \<le> float64 (BurstBytes (b_limits b))
      + of_int (BytesPerSecond (b_limits b)) * (1 + eps53) ^ 5 * refilled b b'
      + of_nat (length cs) * (2 * float64 (BurstBytes (b_limits b)) * eps53)"
proof -
  let ?l = "b_limits b"
  have "(\<Sum>(ok, r) \<leftarrow> zip oks cs. if ok then float64 (fst r) else 0)
      \<le> byteTok b + of_int (BytesPerSecond ?l) * (1 + eps53) ^ 5 * refilled b b'
        + of_nat (length cs) * (2 * float64 (BurstBytes ?l) * eps53)"
  proof (rule bucket.run_cost_bound [where l = ?l and cost = "\<lambda>r. float64 (fst r)" and pot = byteTok
        and gain = "\<lambda>s t. of_int (BytesPerSecond ?l) * (1 + eps53) ^ 5 * refilled s t"])
    fix c :: bucket and r :: "int \<times> time"
    assume "bucket_ok c \<and> b_limits c = ?l" "case r of (n, now) \<Rightarrow> 0 \<le> n"
    with Allow_byte_step [of c _ _ "fst r" "snd r"] assms(2)
    show "byteTok (snd (case r of (n, now) \<Rightarrow> Bucket_Allow c n now))
        + (if fst (case r of (n, now) \<Rightarrow> Bucket_Allow c n now) then float64 (fst r) else 0)
      \<le> byteTok c + of_int (BytesPerSecond ?l) * (1 + eps53) ^ 5
          * refilled c (snd (case r of (n, now) \<Rightarrow> Bucket_Allow c n now))
        + 2 * float64 (BurstBytes ?l) * eps53"
      by (simp add: split_beta)
  qed (use assms in \<open>auto simp: bucket_ok_def tok_ok_def refilled_self
        simp flip: distrib_left intro: arg_cong2 refilled_trans\<close>)
  moreover have "byteTok b \<le> float64 (BurstBytes ?l)"
    using assms by (simp add: bucket_ok_def tok_ok_def)
  moreover have "(\<lambda>(ok, r). if ok then float64 (fst r) else 0) =
      (\<lambda>(ok, n, now :: time). if ok then float64 n else 0)" by auto
  ultimately show ?thesis by simp
qed

definition test_byte_bucket :: bucket where
  "test_byte_bucket = \<lparr>b_limits = \<lparr>Enabled = True, PacketsPerSecond = 0, BytesPerSecond = 150,
                    BurstPackets = 0, BurstBytes = 150\<rparr>,
     lastRefill = \<lparr>t_wall = 0, t_mono = 0\<rparr>, packetTok = 0, byteTok = 150\<rparr>"

section \<open>No starvation\<close>

lemma refillTok_ge:
  assumes "0 \<le> tok" "float64 n \<le> float64 burst" "float64 n \<le> elapsed * float64 rate"
  shows "float64 n \<le> refillTok elapsed rate burst tok"
proof -
  have "fl (float64 n) \<le> fl (elapsed * float64 rate)" using assms(3) by (rule fl_mono)
  then have "fl (float64 n) \<le> fl (tok + fl (elapsed * float64 rate))"
    using assms(1) by (intro fl_mono) simp
  with assms(2) show ?thesis by (simp add: refillTok_def Let_def fadd_def fmul_def)
qed

text \<open>C22: no starvation.  A packet no larger than the byte burst passes once the bucket has
  been left alone for whole seconds that bring enough bytes, whatever tokens were left: a
  bucket never denies for good what fits its burst.\<close>

theorem Bucket_no_starvation:
  assumes "bucket_ok b" and "0 < k" and "in_int64 (k * Second)"
    and "t_mono now = t_mono (lastRefill b) + k * Second"
    and "0 < BytesPerSecond (b_limits b) \<Longrightarrow>
           n \<le> BurstBytes (b_limits b) \<and> n \<le> k * BytesPerSecond (b_limits b) \<and>
           BytesPerSecond (b_limits b) < 2 ^ 53 \<and> \<bar>n\<bar> < 2 ^ 53"
  shows "fst (Bucket_Allow b n now)"
proof -
  let ?l = "b_limits b"
  have el: "dur_seconds (time_sub now (lastRefill b)) = of_int k"
    using assms by (simp add: time_sub_def sat64_def in_int64_def dur_seconds_whole)
  have pk: "1 \<le> packetTok (refill b now)" if pps: "0 < PacketsPerSecond ?l"
  proof -
    have one: "float64 1 = 1" by (simp add: float64_exact)
    have p: "1 \<le> float64 (PacketsPerSecond ?l)" "float64 1 \<le> float64 (BurstPackets ?l)"
      using pps assms(1) float64_mono [of 1] one by (auto simp: bucket_ok_def tok_ok_def)
    have "1 * 1 \<le> of_int k * float64 (PacketsPerSecond ?l)"
      using assms(2) p by (intro mult_mono) auto
    then have "float64 1 \<le> refillTok (of_int k) (PacketsPerSecond ?l) (BurstPackets ?l) (packetTok b)"
      using pps assms(1) p one by (intro refillTok_ge) (auto simp: bucket_ok_def tok_ok_def)
    with pps assms(2) show ?thesis by (simp add: refill_def Let_def el one)
  qed
  have bt: "float64 n \<le> byteTok (refill b now)" if bps: "0 < BytesPerSecond ?l"
  proof -
    have f: "float64 (BytesPerSecond ?l) = of_int (BytesPerSecond ?l)" "float64 n = of_int n"
      using assms(5) [OF bps] bps by (simp_all add: float64_exact)
    have "float64 n \<le> of_int k * float64 (BytesPerSecond ?l)"
      using assms(5) [OF bps] unfolding f by (simp flip: of_int_mult)
    then have "float64 n \<le> refillTok (of_int k) (BytesPerSecond ?l) (BurstBytes ?l) (byteTok b)"
      using bps assms(1,5) by (intro refillTok_ge) (auto simp: bucket_ok_def tok_ok_def intro: float64_mono)
    with bps assms(2) show ?thesis by (simp add: refill_def Let_def el)
  qed
  show ?thesis using pk bt by (simp add: Bucket_Allow_def Let_def not_less) linarith
qed

theorem Bucket_no_starvation_witness:
  "fst (Bucket_Allow (test_byte_bucket\<lparr>byteTok := 0\<rparr>) 150 \<lparr>t_wall = 0, t_mono = Second\<rparr>)"
  using Bucket_no_starvation [of "test_byte_bucket\<lparr>byteTok := 0\<rparr>" 1 "\<lparr>t_wall = 0, t_mono = Second\<rparr>" 150]
  by (simp add: test_byte_bucket_def bucket_ok_def tok_ok_def in_int64_def)

section \<open>The client limiter is one bucket per address\<close>

abbreviation clientShardOf :: "addr \<Rightarrow> nat" where
  "clientShardOf a \<equiv> addrShard a 64"

abbreviation cl_lookup :: "clientLimiter \<Rightarrow> addr \<Rightarrow> clientEntry option" where
  "cl_lookup cl \<equiv> striped_lookup clientShardOf cs_entries (cl_shards cl)"

definition entry_ok :: "limits \<Rightarrow> clientEntry \<Rightarrow> bool" where
  "entry_ok l e \<longleftrightarrow> (\<exists>b. ce_bucket e = Some b \<and> bucket_ok b \<and> b_limits b = l)"

definition cl_wf :: "clientLimiter \<Rightarrow> bool" where
  "cl_wf cl \<longleftrightarrow> cl_enabled cl \<and> 0 < cl_ttl cl \<and> Enabled (cl_limitBase cl) \<and>
     Normalize (cl_limitBase cl) = cl_limitBase cl \<and> length (cl_shards cl) = 64 \<and>
     (\<forall>sh \<in> set (cl_shards cl). distinct_keys (cs_entries sh) \<and>
        (\<forall>e \<in> snd ` set (cs_entries sh). entry_ok (cl_limitBase cl) e))"

lemma Normalize_fixed:
  "(0 < PacketsPerSecond l \<longrightarrow> 0 < BurstPackets l) \<Longrightarrow> (0 < BytesPerSecond l \<longrightarrow> 0 < BurstBytes l) \<Longrightarrow>
   (0 < PacketsPerSecond l \<or> 0 < BytesPerSecond l \<longrightarrow> Enabled l) \<Longrightarrow> Normalize l = l"
  by (cases l) (auto simp: Normalize_def Let_def)

lemma Normalize_idem [simp]: "Normalize (Normalize l) = Normalize l"
  by (rule Normalize_fixed) (auto simp: Normalize_bursts Normalize_Enabled)

lemma addrShard_bound: "0 < len \<Longrightarrow> addrShard a len < len"
  by (simp add: addrShard_def)

interpretation clients: striped clientShardOf cs_entries 64
  by unfold_locales (simp add: addrShard_bound)

lemma NewClientLimiter_wf: "NewClientLimiter l ttl = Some cl \<Longrightarrow> cl_wf cl"
  by (auto simp: NewClientLimiter_def Let_def cl_wf_def split: if_splits)

text \<open>The bucket a client is judged by: its own, or a fresh one.\<close>

definition client_bucket :: "clientLimiter \<Rightarrow> addr \<Rightarrow> time \<Rightarrow> bucket option" where
  "client_bucket cl a tnow =
     (case cl_lookup cl a of None \<Rightarrow> NewBucket (cl_limitBase cl) tnow | Some e \<Rightarrow> ce_bucket e)"

lemma cl_wf_shard: "cl_wf cl \<Longrightarrow> distinct_keys (cs_entries (cl_shards cl ! clientShardOf a))"
  "cl_wf cl \<Longrightarrow> map_of (cs_entries (cl_shards cl ! clientShardOf a)) k = Some e \<Longrightarrow>
     entry_ok (cl_limitBase cl) e"
proof -
  assume wf: "cl_wf cl"
  have "cl_shards cl ! clientShardOf a \<in> set (cl_shards cl)"
    using wf clients.shard_bound [of a] by (simp add: cl_wf_def)
  with wf show "distinct_keys (cs_entries (cl_shards cl ! clientShardOf a))"
    and "map_of (cs_entries (cl_shards cl ! clientShardOf a)) k = Some e \<Longrightarrow> entry_ok (cl_limitBase cl) e"
    by (auto simp: cl_wf_def dest!: map_of_SomeD) (metis snd_conv)
qed

lemma client_bucket_ok:
  assumes "cl_wf cl"
  shows "\<exists>b. client_bucket cl a tnow = Some b \<and> bucket_ok b \<and> b_limits b = cl_limitBase cl"
proof (cases "cl_lookup cl a")
  case None
  then show ?thesis using assms NewBucket_ok [of "cl_limitBase cl" tnow]
    by (auto simp: client_bucket_def NewBucket_def Let_def cl_wf_def)
next
  case (Some e)
  then show ?thesis using cl_wf_shard(2) [OF assms] 
    by (auto simp: client_bucket_def striped_lookup_def entry_ok_def)
qed

lemma map_of_sweepClients:
  "distinct_keys es \<Longrightarrow> map_of (sweepClients es c) k =
     (case map_of es k of None \<Rightarrow> None | Some e \<Rightarrow> if ce_lastSeen e < c then None else Some e)"
  by (simp add: sweepClients_def map_of_filter_distinct split: option.splits)

lemma distinct_keys_sweepClients [simp]: "distinct_keys es \<Longrightarrow> distinct_keys (sweepClients es c)"
  by (simp add: sweepClients_def)

text \<open>The entries of the shard a call works on, after the call.\<close>

lemma ClientLimiter_Allow_shard:
  fixes n :: int and now :: time
  assumes "cl_wf cl" "client_bucket cl a tnow = Some b"
  defines "es \<equiv> cs_entries (cl_shards cl ! clientShardOf a)"
    and "e' \<equiv> \<lparr>ce_bucket = Some (snd (Bucket_Allow b n now)), ce_lastSeen = time_unix now\<rparr>"
  obtains sh where
    "ClientLimiter_Allow cl a n now tnow =
       (fst (Bucket_Allow b n now), cl\<lparr>cl_shards := (cl_shards cl)[clientShardOf a := sh]\<rparr>)"
    "distinct_keys (cs_entries sh)" "map_of (cs_entries sh) a = Some e'"
    "\<And>k. k \<noteq> a \<Longrightarrow> map_of (cs_entries sh) k = map_of es k \<or>
       (\<exists>e. map_of es k = Some e \<and> ce_lastSeen e < time_unix (time_add now (- cl_ttl cl)) \<and>
            map_of (cs_entries sh) k = None)"
proof -
  let ?cut = "time_unix (time_add now (- cl_ttl cl))"
  let ?sweep = "time_unix now - cs_lastSweep (cl_shards cl ! clientShardOf a)
                  \<ge> int64_of_float (dur_seconds (cl_ttl cl))"
  let ?es1 = "AList.update a \<lparr>ce_bucket = Some b, ce_lastSeen = time_unix now\<rparr> es"
  let ?es2 = "if ?sweep then sweepClients ?es1 ?cut else ?es1"
  let ?sh = "\<lparr>cs_entries = AList.update a e' ?es2,
      cs_lastSweep = (if ?sweep then time_unix now else cs_lastSweep (cl_shards cl ! clientShardOf a))\<rparr>"
  have wf: "cl_enabled cl" "length (cl_shards cl) = 64" "0 < cl_ttl cl"
    using assms(1) by (auto simp: cl_wf_def)
  have d: "distinct_keys es" unfolding es_def by (rule cl_wf_shard(1) [OF assms(1)])
  have cut: "?cut \<le> time_unix now" using wf by (intro time_unix_add_le) simp
  have e0: "touchClient (cl_limitBase cl) (cl_shards cl ! clientShardOf a) a (time_unix now) tnow =
      \<lparr>ce_bucket = Some b, ce_lastSeen = time_unix now\<rparr>"
    using assms(2) by (auto simp: touchClient_def client_bucket_def striped_lookup_def split: option.splits)
  have at_a: "map_of ?es2 a = Some \<lparr>ce_bucket = Some b, ce_lastSeen = time_unix now\<rparr>"
    using d cut by (simp add: map_of_sweepClients update_conv')
  show thesis
  proof (rule that [of ?sh])
    show "ClientLimiter_Allow cl a n now tnow =
       (fst (Bucket_Allow b n now), cl\<lparr>cl_shards := (cl_shards cl)[clientShardOf a := ?sh]\<rparr>)"
      using wf at_a
      by (cases ?sweep) (simp_all add: ClientLimiter_Allow_def Let_def e0 Allow_opt_def split_beta es_def e'_def)
    show "distinct_keys (cs_entries ?sh)" using d by simp
    show "map_of (cs_entries ?sh) a = Some e'" by (simp add: update_conv')
    show "map_of (cs_entries ?sh) k = map_of es k \<or>
       (\<exists>e. map_of es k = Some e \<and> ce_lastSeen e < ?cut \<and> map_of (cs_entries ?sh) k = None)"
      if "k \<noteq> a" for k
      using that d by (auto simp: update_conv' map_of_sweepClients split: option.splits)
  qed
qed

lemma ClientLimiter_Allow_lookup:
  assumes "cl_wf cl" and "0 \<le> n" and "ClientLimiter_Allow cl a n now tnow = (ok, cl')"
  shows "\<exists>b. client_bucket cl a tnow = Some b \<and> ok = fst (Bucket_Allow b n now) \<and>
       cl_lookup cl' a = Some \<lparr>ce_bucket = Some (snd (Bucket_Allow b n now)), ce_lastSeen = time_unix now\<rparr>"
    and "k \<noteq> a \<Longrightarrow> cl_lookup cl' k = cl_lookup cl k \<or>
       (\<exists>e. cl_lookup cl k = Some e \<and> ce_lastSeen e < time_unix (time_add now (- cl_ttl cl)) \<and>
            cl_lookup cl' k = None)"
    and "cl_wf cl'"
proof -
  obtain b where b: "client_bucket cl a tnow = Some b" "bucket_ok b" "b_limits b = cl_limitBase cl"
    using client_bucket_ok [OF assms(1)] by blast
  let ?e = "\<lparr>ce_bucket = Some (snd (Bucket_Allow b n now)), ce_lastSeen = time_unix now\<rparr>"
  obtain sh where sh: "ok = fst (Bucket_Allow b n now)"
      "cl' = cl\<lparr>cl_shards := (cl_shards cl)[clientShardOf a := sh]\<rparr>"
      "distinct_keys (cs_entries sh)" "map_of (cs_entries sh) a = Some ?e"
    and others: "\<And>k. k \<noteq> a \<Longrightarrow> map_of (cs_entries sh) k = map_of (cs_entries (cl_shards cl ! clientShardOf a)) k \<or>
       (\<exists>e. map_of (cs_entries (cl_shards cl ! clientShardOf a)) k = Some e \<and>
            ce_lastSeen e < time_unix (time_add now (- cl_ttl cl)) \<and> map_of (cs_entries sh) k = None)"
    using ClientLimiter_Allow_shard [OF assms(1) b(1), of n now] assms(3) by auto
  have len: "length (cl_shards cl) = 64" using assms(1) by (simp add: cl_wf_def)
  show "\<exists>b. client_bucket cl a tnow = Some b \<and> ok = fst (Bucket_Allow b n now) \<and>
       cl_lookup cl' a = Some \<lparr>ce_bucket = Some (snd (Bucket_Allow b n now)), ce_lastSeen = time_unix now\<rparr>"
    using b sh clients.lookup_write_same [OF len] by auto
  show "k \<noteq> a \<Longrightarrow> cl_lookup cl' k = cl_lookup cl k \<or>
       (\<exists>e. cl_lookup cl k = Some e \<and> ce_lastSeen e < time_unix (time_add now (- cl_ttl cl)) \<and>
            cl_lookup cl' k = None)"
    using others [of k] clients.lookup_write [OF len, of a sh k]
    by (auto simp: sh(2) striped_lookup_def)
  have "entry_ok (cl_limitBase cl) ?e"
    using Bucket_Allow_ok [OF b(2) assms(2)] b(3) by (simp add: entry_ok_def)
  then have "entry_ok (cl_limitBase cl) e" if "(k, e) \<in> set (cs_entries sh)" for k e
  proof -
    have "map_of (cs_entries sh) k = Some e" using that sh(3) by (simp add: distinct_keys_def)
    then show ?thesis
      using \<open>entry_ok (cl_limitBase cl) ?e\<close> others [of k] sh(4) cl_wf_shard(2) [OF assms(1), of a k e]
      by (cases "k = a") auto
  qed
  then show "cl_wf cl'"
    using assms(1) sh(2,3) by (auto simp: cl_wf_def dest!: set_update_subset_insert [THEN subsetD])
qed

text \<open>C23: client isolation.  The client limiter behaves as one independent bucket per source
  address: the decision and the new tokens of a client are those of its own bucket (a full one
  when the client is new), and no other client's entry changes, except that a sweep may drop
  entries not seen for the time to live.\<close>

theorem ClientLimiter_isolation:
  assumes "cl_wf cl" and "0 \<le> n" and "ClientLimiter_Allow cl a n now tnow = (ok, cl')"
  shows "(\<exists>b. client_bucket cl a tnow = Some b \<and> ok = fst (Bucket_Allow b n now) \<and>
       cl_lookup cl' a = Some \<lparr>ce_bucket = Some (snd (Bucket_Allow b n now)), ce_lastSeen = time_unix now\<rparr>) \<and>
     (\<forall>k. k \<noteq> a \<longrightarrow> cl_lookup cl' k = cl_lookup cl k \<or>
       (\<exists>e. cl_lookup cl k = Some e \<and> ce_lastSeen e < time_unix (time_add now (- cl_ttl cl)) \<and>
            cl_lookup cl' k = None))"
  using ClientLimiter_Allow_lookup [OF assms] by blast

definition test_limiter :: clientLimiter where
  "test_limiter = \<lparr>cl_ttl = 2 * Second, cl_shards = replicate 64 \<lparr>cs_entries = [], cs_lastSweep = 0\<rparr>,
     cl_enabled = True, cl_limitBase = b_limits test_bucket\<rparr>"

lemma test_limiter_new:
  "NewClientLimiter \<lparr>Enabled = False, PacketsPerSecond = 1, BytesPerSecond = 0, BurstPackets = 1, BurstBytes = 0\<rparr>
     (2 * Second) = Some test_limiter"
  by (simp add: NewClientLimiter_def Normalize_def test_limiter_def test_bucket_def)

theorem ClientLimiter_isolation_witness:
  "\<exists>b. client_bucket test_limiter (Addr4 0xC000020A) \<lparr>t_wall = 0, t_mono = 0\<rparr> = Some b \<and>
     fst (ClientLimiter_Allow test_limiter (Addr4 0xC000020A) 64 \<lparr>t_wall = 0, t_mono = 0\<rparr> \<lparr>t_wall = 0, t_mono = 0\<rparr>)
       = fst (Bucket_Allow b 64 \<lparr>t_wall = 0, t_mono = 0\<rparr>)"
proof -
  let ?t = "\<lparr>t_wall = 0, t_mono = 0\<rparr>"
  let ?r = "ClientLimiter_Allow test_limiter (Addr4 0xC000020A) 64 ?t ?t"
  have "?r = (fst ?r, snd ?r)" by simp
  from ClientLimiter_isolation [OF NewClientLimiter_wf [OF test_limiter_new] _ this]
  show ?thesis by auto
qed

interpretation clientLimiter: limiter "\<lambda>cl (a, n, now, tnow). ClientLimiter_Allow cl a n now tnow"
    cl_wf "\<lambda>(a, n, now, tnow). 0 \<le> n"
  by unfold_locales (auto dest: ClientLimiter_Allow_lookup(3) intro: prod.collapse [symmetric])

end
