(* ===== verification/Abuse.thy ===== *)
theory Abuse
  imports Shaping
begin

text \<open>
  \<^verbatim>\<open>src/internal/abuse/abuse.go\<close>: packet rate and session limits per source IP.  The code
  works on the wall clock in whole seconds.  A \<^verbatim>\<open>*entry\<close> is reached only through its shard's
  map and under the shard's lock, so a changed entry is written back to the map at the end of
  the call.
\<close>

section \<open>State\<close>

record abuseConfig =
  ab_Enabled :: bool
  ab_MaxPacketsPerSecond :: int
  ab_MaxSessionsPerClient :: int
  ab_SessionTTL :: duration

record abuseEntry =
  e_windowSecond :: int
  e_packets :: int
  e_lastSeen :: int
  e_lastSweep :: int
  e_sessions :: "(16 word \<times> int) list"

record abuseShard =
  as_entries :: "(addr \<times> abuseEntry) list"
  as_lastSweep :: int

record protector =
  pr_cfg :: abuseConfig
  pr_shards :: "abuseShard list"

definition Abuse_New :: "abuseConfig \<Rightarrow> protector option" where
  "Abuse_New cfg0 =
     (if \<not> ab_Enabled cfg0 then None
      else let cfg = (if ab_SessionTTL cfg0 \<le> 0 then cfg0\<lparr>ab_SessionTTL := 60 * Second\<rparr> else cfg0)
      in Some \<lparr>pr_cfg = cfg, pr_shards = replicate 64 \<lparr>as_entries = [], as_lastSweep = 0\<rparr>\<rparr>)"

section \<open>Sweeps\<close>

definition ttlCutoff :: "abuseConfig \<Rightarrow> time \<Rightarrow> int" where
  "ttlCutoff cfg now = time_unix (time_add now (- ab_SessionTTL cfg))"

definition sweepEntrySessionsLocked :: "abuseConfig \<Rightarrow> time \<Rightarrow> abuseEntry \<Rightarrow> abuseEntry" where
  "sweepEntrySessionsLocked cfg now e =
     e\<lparr>e_sessions := filter (\<lambda>(port, ts). \<not> ts < ttlCutoff cfg now) (e_sessions e)\<rparr>"

definition sweepLocked :: "abuseConfig \<Rightarrow> time \<Rightarrow> abuseShard \<Rightarrow> abuseShard" where
  "sweepLocked cfg now sh =
     sh\<lparr>as_entries := map (\<lambda>(ip, e). (ip, sweepEntrySessionsLocked cfg now e))
          (filter (\<lambda>(ip, e). \<not> e_lastSeen e < ttlCutoff cfg now) (as_entries sh))\<rparr>"

text \<open>The three lines every return but the first goes through: sweep the shard when it is due.\<close>

definition sweepIfDue :: "abuseConfig \<Rightarrow> time \<Rightarrow> abuseShard \<Rightarrow> abuseShard" where
  "sweepIfDue cfg now sh =
     (if time_unix now - as_lastSweep sh \<ge> int64_of_float (dur_seconds (ab_SessionTTL cfg))
      then (sweepLocked cfg now sh)\<lparr>as_lastSweep := time_unix now\<rparr> else sh)"

section \<open>Allow\<close>

definition touchEntry :: "abuseShard \<Rightarrow> addr \<Rightarrow> int \<Rightarrow> abuseEntry" where
  "touchEntry sh ip nowSec =
     (case map_of (as_entries sh) ip of
        None \<Rightarrow> \<lparr>e_windowSecond = nowSec, e_packets = 0, e_lastSeen = nowSec, e_lastSweep = 0, e_sessions = []\<rparr>
      | Some e \<Rightarrow> e\<lparr>e_lastSeen := nowSec\<rparr>)"

definition countPacket :: "int \<Rightarrow> abuseEntry \<Rightarrow> abuseEntry" where
  "countPacket nowSec e =
     (let e1 = (if e_windowSecond e \<noteq> nowSec then e\<lparr>e_windowSecond := nowSec, e_packets := 0\<rparr> else e)
      in e1\<lparr>e_packets := wrap64 (e_packets e1 + 1)\<rparr>)"

definition recordSession :: "abuseConfig \<Rightarrow> 16 word \<Rightarrow> time \<Rightarrow> abuseEntry \<Rightarrow> abuseEntry" where
  "recordSession cfg port now e =
     (let e1 = e\<lparr>e_sessions := AList.update port (time_unix now) (e_sessions e)\<rparr>
      in if time_unix now - e_lastSweep e1 \<ge> int64_of_float (dur_seconds (ab_SessionTTL cfg))
         then (sweepEntrySessionsLocked cfg now e1)\<lparr>e_lastSweep := time_unix now\<rparr> else e1)"

text \<open>The decision on the client's entry, with the entry it leaves.\<close>

definition judgeEntry :: "abuseConfig \<Rightarrow> 16 word \<Rightarrow> time \<Rightarrow> abuseEntry \<Rightarrow> bool \<times> abuseEntry" where
  "judgeEntry cfg port now e =
     (let e1 = (if ab_MaxPacketsPerSecond cfg > 0 then countPacket (time_unix now) e else e) in
      if ab_MaxPacketsPerSecond cfg > 0 \<and> e_packets e1 > ab_MaxPacketsPerSecond cfg then (False, e1)
      else if ab_MaxSessionsPerClient cfg > 0
      then (let e2 = recordSession cfg port now e1
            in (\<not> int (length (e_sessions e2)) > ab_MaxSessionsPerClient cfg, e2))
      else (True, e1))"

definition Abuse_Allow :: "protector \<Rightarrow> addrport \<Rightarrow> time \<Rightarrow> bool \<times> protector" where
  "Abuse_Allow p ap now =
     (if \<not> ab_Enabled (pr_cfg p) then (True, p)
      else
        let cfg = pr_cfg p; ip = ap_addr ap; idx = addrShard ip (length (pr_shards p));
            sh = pr_shards p ! idx;
            (ok, e) = judgeEntry cfg (ap_port ap) now (touchEntry sh ip (time_unix now));
            sh' = sweepIfDue cfg now (sh\<lparr>as_entries := AList.update ip e (as_entries sh)\<rparr>)
        in (ok, p\<lparr>pr_shards := (pr_shards p)[idx := sh']\<rparr>))"

section \<open>Well-formedness and the effect of a call\<close>

abbreviation abuseShardOf :: "addr \<Rightarrow> nat" where
  "abuseShardOf a \<equiv> addrShard a 64"

abbreviation ab_lookup :: "protector \<Rightarrow> addr \<Rightarrow> abuseEntry option" where
  "ab_lookup p \<equiv> striped_lookup abuseShardOf as_entries (pr_shards p)"

interpretation abuseIps: striped abuseShardOf as_entries 64
  by unfold_locales (simp add: addrShard_bound)

definition abuse_entry_ok :: "abuseEntry \<Rightarrow> bool" where
  "abuse_entry_ok e \<longleftrightarrow> distinct_keys (e_sessions e)"

definition pr_wf :: "protector \<Rightarrow> bool" where
  "pr_wf p \<longleftrightarrow> ab_Enabled (pr_cfg p) \<and> 0 < ab_SessionTTL (pr_cfg p) \<and> length (pr_shards p) = 64 \<and>
     (\<forall>sh \<in> set (pr_shards p). distinct_keys (as_entries sh) \<and>
        (\<forall>e \<in> snd ` set (as_entries sh). abuse_entry_ok e))"

lemma Abuse_New_wf: "Abuse_New cfg = Some p \<Longrightarrow> pr_wf p \<and> (\<forall>ip. ab_lookup p ip = None)"
  by (auto simp: Abuse_New_def Let_def pr_wf_def striped_lookup_def addrShard_def split: if_splits)

lemma pr_wf_shard:
  assumes "pr_wf p"
  shows "distinct_keys (as_entries (pr_shards p ! abuseShardOf a))"
    "map_of (as_entries (pr_shards p ! abuseShardOf a)) k = Some e \<Longrightarrow> abuse_entry_ok e"
proof -
  have "pr_shards p ! abuseShardOf a \<in> set (pr_shards p)"
    using assms abuseIps.shard_bound [of a] by (simp add: pr_wf_def)
  with assms show "distinct_keys (as_entries (pr_shards p ! abuseShardOf a))"
    and "map_of (as_entries (pr_shards p ! abuseShardOf a)) k = Some e \<Longrightarrow> abuse_entry_ok e"
    by (auto simp: pr_wf_def dest!: map_of_SomeD) (metis snd_conv)
qed

text \<open>What time does to an entry nobody uses: nothing, or a sweep.\<close>

definition aged :: "abuseConfig \<Rightarrow> time \<Rightarrow> abuseEntry option \<Rightarrow> abuseEntry option \<Rightarrow> bool" where
  "aged cfg now x y \<longleftrightarrow> y = x \<or>
     (\<exists>e. x = Some e \<and> y = (if e_lastSeen e < ttlCutoff cfg now then None
                             else Some (sweepEntrySessionsLocked cfg now e)))"

lemma map_of_sweepLocked:
  "distinct_keys (as_entries sh) \<Longrightarrow> map_of (as_entries (sweepLocked cfg now sh)) k =
     (case map_of (as_entries sh) k of
        None \<Rightarrow> None
      | Some e \<Rightarrow> if e_lastSeen e < ttlCutoff cfg now then None else Some (sweepEntrySessionsLocked cfg now e))"
  by (simp add: sweepLocked_def map_of_map map_of_filter_distinct split: option.splits)

lemma aged_sweepIfDue:
  "distinct_keys (as_entries sh) \<Longrightarrow>
     aged cfg now (map_of (as_entries sh) k) (map_of (as_entries (sweepIfDue cfg now sh)) k)"
  by (auto simp: aged_def sweepIfDue_def map_of_sweepLocked split: option.splits)

lemma distinct_sweepIfDue: "distinct_keys (as_entries sh) \<Longrightarrow> distinct_keys (as_entries (sweepIfDue cfg now sh))"
proof -
  have "map fst (map (\<lambda>(ip, e). (ip, f e)) xs) = map fst xs" for f :: "abuseEntry \<Rightarrow> abuseEntry" and xs :: "(addr \<times> abuseEntry) list"
    by (induction xs) auto
  then have "distinct_keys (map (\<lambda>(ip, e). (ip, f e)) xs) = distinct_keys xs"
    for f :: "abuseEntry \<Rightarrow> abuseEntry" and xs :: "(addr \<times> abuseEntry) list"
    by (simp only: distinct_keys_def)
  then show "distinct_keys (as_entries sh) \<Longrightarrow> ?thesis" by (simp add: sweepIfDue_def sweepLocked_def)
qed

lemma sweepEntry_ok: "abuse_entry_ok e \<Longrightarrow> abuse_entry_ok (sweepEntrySessionsLocked cfg now e)"
  by (simp add: abuse_entry_ok_def sweepEntrySessionsLocked_def)

lemma recordSession_ok: "abuse_entry_ok e \<Longrightarrow> abuse_entry_ok (recordSession cfg port now e)"
  by (simp add: abuse_entry_ok_def recordSession_def sweepEntrySessionsLocked_def Let_def)

lemma countPacket_frame [simp]:
  "e_sessions (countPacket s e) = e_sessions e" "e_lastSeen (countPacket s e) = e_lastSeen e"
  "e_lastSweep (countPacket s e) = e_lastSweep e" "e_windowSecond (countPacket s e) = s"
  by (auto simp: countPacket_def Let_def)

lemma recordSession_frame [simp]:
  "e_lastSeen (recordSession cfg port now e) = e_lastSeen e"
  "e_packets (recordSession cfg port now e) = e_packets e"
  "e_windowSecond (recordSession cfg port now e) = e_windowSecond e"
  by (simp_all add: recordSession_def sweepEntrySessionsLocked_def Let_def)

lemma sweepEntry_frame [simp]:
  "e_lastSeen (sweepEntrySessionsLocked cfg now e) = e_lastSeen e"
  "e_packets (sweepEntrySessionsLocked cfg now e) = e_packets e"
  "e_windowSecond (sweepEntrySessionsLocked cfg now e) = e_windowSecond e"
  by (simp_all add: sweepEntrySessionsLocked_def)

lemma aged_Some:
  "aged cfg now x (Some e) \<Longrightarrow> \<exists>e0. x = Some e0 \<and> e_windowSecond e = e_windowSecond e0 \<and>
     e_lastSeen e = e_lastSeen e0 \<and> e_packets e = e_packets e0"
  by (auto simp: aged_def split: if_splits)

lemma judgeEntry_ok: "abuse_entry_ok e \<Longrightarrow> abuse_entry_ok (snd (judgeEntry cfg port now e))"
proof -
  assume "abuse_entry_ok e"
  then have "abuse_entry_ok (countPacket (time_unix now) e)" by (simp add: abuse_entry_ok_def)
  with \<open>abuse_entry_ok e\<close> show ?thesis by (simp add: judgeEntry_def Let_def recordSession_ok)
qed

lemma judgeEntry_lastSeen: "e_lastSeen (snd (judgeEntry cfg port now e)) = e_lastSeen e"
  by (simp add: judgeEntry_def Let_def)

text \<open>The entry a client is judged by.\<close>

definition client_entry :: "protector \<Rightarrow> addr \<Rightarrow> time \<Rightarrow> abuseEntry" where
  "client_entry p ip now = touchEntry (pr_shards p ! abuseShardOf ip) ip (time_unix now)"

lemma client_entry_lastSeen [simp]: "e_lastSeen (client_entry p ip now) = time_unix now"
  by (simp add: client_entry_def touchEntry_def split: option.splits)

lemma client_entry_ok: "pr_wf p \<Longrightarrow> abuse_entry_ok (client_entry p ip now)"
  using pr_wf_shard(2) [of p ip ip]
  by (auto simp: client_entry_def touchEntry_def abuse_entry_ok_def split: option.splits)

lemma ttlCutoff_le: "pr_wf p \<Longrightarrow> ttlCutoff (pr_cfg p) now \<le> time_unix now"
  unfolding ttlCutoff_def by (intro time_unix_add_le) (simp add: pr_wf_def)

lemma pr_wf_write:
  assumes "pr_wf p" "distinct_keys (as_entries sh)"
    "\<And>k e. map_of (as_entries sh) k = Some e \<Longrightarrow> abuse_entry_ok e"
  shows "pr_wf (p\<lparr>pr_shards := (pr_shards p)[i := sh]\<rparr>)"
proof -
  have "abuse_entry_ok e" if "(k, e) \<in> set (as_entries sh)" for k e
    using assms(2,3) that by (simp add: distinct_keys_def)
  then show ?thesis
    using assms(1,2) by (auto simp: pr_wf_def dest!: set_update_subset_insert [THEN subsetD])
qed

lemma Abuse_Allow_effect:
  assumes "pr_wf p" and "Abuse_Allow p ap now = (ok, p')"
  defines "e \<equiv> snd (judgeEntry (pr_cfg p) (ap_port ap) now (client_entry p (ap_addr ap) now))"
  shows "ok = fst (judgeEntry (pr_cfg p) (ap_port ap) now (client_entry p (ap_addr ap) now))"
    and "pr_cfg p' = pr_cfg p" and "pr_wf p'"
    and "ab_lookup p' (ap_addr ap) = Some e \<or>
         ab_lookup p' (ap_addr ap) = Some (sweepEntrySessionsLocked (pr_cfg p) now e)"
    and "k \<noteq> ap_addr ap \<Longrightarrow> aged (pr_cfg p) now (ab_lookup p k) (ab_lookup p' k)"
proof -
  let ?ip = "ap_addr ap" and ?cfg = "pr_cfg p"
  let ?sh = "pr_shards p ! abuseShardOf ?ip"
  let ?sh1 = "?sh\<lparr>as_entries := AList.update ?ip e (as_entries ?sh)\<rparr>"
  let ?sh2 = "sweepIfDue ?cfg now ?sh1"
  have len: "length (pr_shards p) = 64" "ab_Enabled ?cfg" using assms(1) by (auto simp: pr_wf_def)
  show ok: "ok = fst (judgeEntry ?cfg (ap_port ap) now (client_entry p ?ip now))"
    using assms(2) len by (auto simp: Abuse_Allow_def client_entry_def Let_def split_beta)
  have p': "p' = p\<lparr>pr_shards := (pr_shards p)[abuseShardOf ?ip := ?sh2]\<rparr>"
    using assms(2) len by (auto simp: Abuse_Allow_def client_entry_def Let_def split_beta e_def)
  then show "pr_cfg p' = ?cfg" by simp
  have d: "distinct_keys (as_entries ?sh)" using pr_wf_shard(1) [OF assms(1)] .
  then have d1: "distinct_keys (as_entries ?sh1)" by simp
  have e_ok: "abuse_entry_ok e" unfolding e_def by (intro judgeEntry_ok client_entry_ok assms(1))
  have old: "abuse_entry_ok e'" if "map_of (as_entries ?sh1) k = Some e'" for k e'
    using that e_ok pr_wf_shard(2) [OF assms(1), of ?ip k e'] by (auto simp: update_conv' split: if_splits)
  note ag = aged_sweepIfDue [OF d1, of ?cfg now]
  have "abuse_entry_ok e'" if "map_of (as_entries ?sh2) k = Some e'" for k e'
    using ag [of k] old [of k] that by (auto simp: aged_def sweepEntry_ok split: if_splits)
  then show "pr_wf p'" unfolding p' using d1 by (intro pr_wf_write assms(1) distinct_sweepIfDue) auto
  have keep: "\<not> e_lastSeen e < ttlCutoff ?cfg now"
    using ttlCutoff_le [OF assms(1), of now] by (simp add: e_def judgeEntry_lastSeen)
  show "ab_lookup p' ?ip = Some e \<or> ab_lookup p' ?ip = Some (sweepEntrySessionsLocked ?cfg now e)"
    using ag [of ?ip] keep abuseIps.lookup_write_same [OF len(1), of ?ip ?sh2]
    by (auto simp: p' aged_def update_conv')
  show "aged ?cfg now (ab_lookup p k) (ab_lookup p' k)" if "k \<noteq> ?ip"
    using ag [of k] that abuseIps.lookup_write [OF len(1), of ?ip ?sh2 k]
    by (auto simp: p' update_conv' striped_lookup_def aged_def)
qed

interpretation protector: limiter "\<lambda>p (ap, now). Abuse_Allow p ap now" pr_wf "\<lambda>_. True"
  by unfold_locales (auto dest: Abuse_Allow_effect(3) intro: prod.collapse [symmetric])

section \<open>The packet cap\<close>

abbreviation Abuse_run :: "protector \<Rightarrow> (addrport \<times> time) list \<Rightarrow> bool list \<times> protector" where
  "Abuse_run \<equiv> run_limiter (\<lambda>p (ap, now). Abuse_Allow p ap now)"

definition allowed_in :: "addr \<Rightarrow> int \<Rightarrow> bool list \<Rightarrow> (addrport \<times> time) list \<Rightarrow> nat" where
  "allowed_in ip w oks rs =
     length (filter (\<lambda>(ok, ap, now). ok \<and> ap_addr ap = ip \<and> time_unix now = w) (zip oks rs))"

definition clock_forward :: "(addrport \<times> time) list \<Rightarrow> bool" where
  "clock_forward rs \<longleftrightarrow> sorted (map (\<lambda>r. t_wall (snd r)) rs)"

definition used :: "int \<Rightarrow> abuseEntry option \<Rightarrow> int" where
  "used w x = (case x of None \<Rightarrow> 0 | Some e \<Rightarrow> if e_windowSecond e = w then e_packets e else 0)"

definition windows_ok :: "protector \<Rightarrow> int \<Rightarrow> int \<Rightarrow> bool" where
  "windows_ok p s n \<longleftrightarrow> (\<forall>ip e. ab_lookup p ip = Some e \<longrightarrow>
     e_windowSecond e \<le> e_lastSeen e \<and> e_lastSeen e \<le> s \<and> 0 \<le> e_packets e \<and> e_packets e \<le> n)"

lemma client_entry_window:
  assumes "windows_ok p s n" "s \<le> time_unix now" "0 \<le> n"
  shows "e_windowSecond (client_entry p ip now) \<le> time_unix now"
    "0 \<le> e_packets (client_entry p ip now)" "e_packets (client_entry p ip now) \<le> n"
    "used w (Some (client_entry p ip now)) = used w (ab_lookup p ip)"
  using assms unfolding windows_ok_def
  by (force simp: client_entry_def touchEntry_def striped_lookup_def used_def split: option.splits)+

lemma judgeEntry_packets:
  assumes "0 \<le> e_packets e" "e_packets e + 1 < 2 ^ 63"
  shows "0 < ab_MaxPacketsPerSecond cfg \<Longrightarrow>
      e_packets (snd (judgeEntry cfg port now e)) = used (time_unix now) (Some e) + 1 \<and>
      e_windowSecond (snd (judgeEntry cfg port now e)) = time_unix now \<and>
      (fst (judgeEntry cfg port now e) \<longrightarrow> used (time_unix now) (Some e) + 1 \<le> ab_MaxPacketsPerSecond cfg)"
    and "\<not> 0 < ab_MaxPacketsPerSecond cfg \<Longrightarrow>
      e_packets (snd (judgeEntry cfg port now e)) = e_packets e \<and>
      e_windowSecond (snd (judgeEntry cfg port now e)) = e_windowSecond e"
proof -
  have c: "e_packets (countPacket (time_unix now) e) = used (time_unix now) (Some e) + 1"
    using assms by (simp add: countPacket_def used_def in_int64_def)
  show "0 < ab_MaxPacketsPerSecond cfg \<Longrightarrow>
      e_packets (snd (judgeEntry cfg port now e)) = used (time_unix now) (Some e) + 1 \<and>
      e_windowSecond (snd (judgeEntry cfg port now e)) = time_unix now \<and>
      (fst (judgeEntry cfg port now e) \<longrightarrow> used (time_unix now) (Some e) + 1 \<le> ab_MaxPacketsPerSecond cfg)"
    by (auto simp: judgeEntry_def Let_def c split: if_splits)
  show "\<not> 0 < ab_MaxPacketsPerSecond cfg \<Longrightarrow>
      e_packets (snd (judgeEntry cfg port now e)) = e_packets e \<and>
      e_windowSecond (snd (judgeEntry cfg port now e)) = e_windowSecond e"
    by (simp add: judgeEntry_def Let_def)
qed

lemma used_bounds: "0 \<le> e_packets e \<Longrightarrow> 0 \<le> used w (Some e) \<and> used w (Some e) \<le> e_packets e"
  by (simp add: used_def)

lemma Abuse_Allow_own:
  assumes "pr_wf p" "Abuse_Allow p ap now = (ok, p')"
  obtains e where "ab_lookup p' (ap_addr ap) = Some e" "e_lastSeen e = time_unix now"
    "e_packets e = e_packets (snd (judgeEntry (pr_cfg p) (ap_port ap) now (client_entry p (ap_addr ap) now)))"
    "e_windowSecond e = e_windowSecond (snd (judgeEntry (pr_cfg p) (ap_port ap) now (client_entry p (ap_addr ap) now)))"
  using Abuse_Allow_effect(4) [OF assms] by (auto simp: judgeEntry_lastSeen)

lemma windows_ok_step:
  assumes "pr_wf p" "windows_ok p s n" "0 \<le> n" "n + 1 < 2 ^ 63" "s \<le> time_unix now"
    "Abuse_Allow p ap now = (ok, p')"
  shows "windows_ok p' (time_unix now) (n + 1)"
proof -
  note ce = client_entry_window [OF assms(2,5,3), where ip = "ap_addr ap"]
  have j: "e_windowSecond (snd (judgeEntry (pr_cfg p) (ap_port ap) now (client_entry p (ap_addr ap) now))) \<le> time_unix now \<and>
      0 \<le> e_packets (snd (judgeEntry (pr_cfg p) (ap_port ap) now (client_entry p (ap_addr ap) now))) \<and>
      e_packets (snd (judgeEntry (pr_cfg p) (ap_port ap) now (client_entry p (ap_addr ap) now))) \<le> n + 1"
    using judgeEntry_packets [of "client_entry p (ap_addr ap) now" "pr_cfg p" "ap_port ap" now] ce(1-3) assms(4)
      used_bounds [OF ce(2), of "time_unix now"]
    by (cases "0 < ab_MaxPacketsPerSecond (pr_cfg p)") auto
  have "e_windowSecond e \<le> e_lastSeen e \<and> e_lastSeen e \<le> time_unix now \<and> 0 \<le> e_packets e \<and> e_packets e \<le> n + 1"
    if "ab_lookup p' ip = Some e" for ip e
  proof (cases "ip = ap_addr ap")
    case True
    show ?thesis by (rule Abuse_Allow_own [OF assms(1,6)]) (use j that True in simp)
  next
    case False
    from Abuse_Allow_effect(5) [OF assms(1,6) False] that
    obtain e0 where "ab_lookup p ip = Some e0" "e_windowSecond e = e_windowSecond e0"
      "e_lastSeen e = e_lastSeen e0" "e_packets e = e_packets e0"
      using aged_Some by fastforce
    with assms(2,5) show ?thesis by (fastforce simp: windows_ok_def)
  qed
  then show ?thesis by (simp add: windows_ok_def)
qed

lemma used_step:
  assumes "pr_wf p" "windows_ok p s n" "0 \<le> n" "n + 1 < 2 ^ 63" "s \<le> time_unix now"
    "Abuse_Allow p ap now = (ok, p')" "time_unix now \<le> w" "0 < ab_MaxPacketsPerSecond (pr_cfg p)"
  shows "used w (ab_lookup p' ip) =
      used w (ab_lookup p ip) + (if ap_addr ap = ip \<and> time_unix now = w then 1 else 0)"
    and "ok \<Longrightarrow> ap_addr ap = ip \<Longrightarrow> time_unix now = w \<Longrightarrow>
      used w (ab_lookup p ip) + 1 \<le> ab_MaxPacketsPerSecond (pr_cfg p)"
proof -
  note ce = client_entry_window [OF assms(2,5,3), where ip = "ap_addr ap"]
  have j: "e_packets (snd (judgeEntry (pr_cfg p) (ap_port ap) now (client_entry p (ap_addr ap) now))) =
        used (time_unix now) (ab_lookup p (ap_addr ap)) + 1 \<and>
      e_windowSecond (snd (judgeEntry (pr_cfg p) (ap_port ap) now (client_entry p (ap_addr ap) now))) = time_unix now \<and>
      (ok \<longrightarrow> used (time_unix now) (ab_lookup p (ap_addr ap)) + 1 \<le> ab_MaxPacketsPerSecond (pr_cfg p))"
    using judgeEntry_packets(1) [OF ce(2) _ assms(8), of "ap_port ap" now] ce(3) assms(4)
    by (simp add: ce(4) Abuse_Allow_effect(1) [OF assms(1,6)])
  show "ok \<Longrightarrow> ap_addr ap = ip \<Longrightarrow> time_unix now = w \<Longrightarrow>
      used w (ab_lookup p ip) + 1 \<le> ab_MaxPacketsPerSecond (pr_cfg p)"
    using j by blast
  show "used w (ab_lookup p' ip) =
      used w (ab_lookup p ip) + (if ap_addr ap = ip \<and> time_unix now = w then 1 else 0)"
  proof (cases "ap_addr ap = ip")
    case True
    obtain e where e: "ab_lookup p' ip = Some e" "e_windowSecond e = time_unix now"
        "e_packets e = used (time_unix now) (ab_lookup p ip) + 1"
      using j True Abuse_Allow_own [OF assms(1,6)] by metis
    have "used w (ab_lookup p ip) = 0" if "time_unix now \<noteq> w"
      using assms(2,5,7) that by (fastforce simp: used_def windows_ok_def split: option.splits)
    with e True show ?thesis by (auto simp: used_def)
  next
    case False
    then have "aged (pr_cfg p) now (ab_lookup p ip) (ab_lookup p' ip)"
      using Abuse_Allow_effect(5) [OF assms(1,6), of ip] by simp
    moreover have "e_windowSecond e \<noteq> w"
      if "ab_lookup p ip = Some e" "e_lastSeen e < ttlCutoff (pr_cfg p) now" for e
      using that assms(2,7) ttlCutoff_le [OF assms(1), of now] by (fastforce simp: windows_ok_def)
    ultimately show ?thesis using False by (auto simp: aged_def used_def)
  qed
qed

lemma Abuse_run_cap:
  assumes "pr_wf p" "windows_ok p s n" "0 \<le> n" "n + int (length rs) < 2 ^ 63"
    "clock_forward rs" "\<forall>r \<in> set rs. s \<le> time_unix (snd r)"
    "Abuse_run p rs = (oks, q)" "0 < ab_MaxPacketsPerSecond (pr_cfg p)"
  shows "int (allowed_in ip w oks rs) \<le> max 0 (ab_MaxPacketsPerSecond (pr_cfg p) - used w (ab_lookup p ip))"
  using assms
proof (induction rs arbitrary: p s n oks)
  case Nil
  then show ?case by (simp add: allowed_in_def)
next
  case (Cons r rs)
  obtain ap now where r: "r = (ap, now)" by fastforce
  obtain ok p' where a: "Abuse_Allow p ap now = (ok, p')" by fastforce
  obtain oks' where run: "Abuse_run p' rs = (oks', q)" "oks = ok # oks'"
    using Cons.prems(7) by (auto simp: r a split: prod.splits)
  have later: "\<forall>r \<in> set rs. time_unix now \<le> time_unix (snd r)"
    using Cons.prems(5) by (auto simp: clock_forward_def r time_unix_def intro: zdiv_mono1)
  show ?case
  proof (cases "time_unix now \<le> w")
    case False
    then have "allowed_in ip w oks (r # rs) = 0"
      using later by (force simp: allowed_in_def r run(2) filter_empty_conv dest: set_zip_rightD)
    then show ?thesis by simp
  next
    case True
    have s: "s \<le> time_unix now" and n: "n + 1 < 2 ^ 63" using Cons.prems(4,6) by (auto simp: r)
    note step = used_step [OF Cons.prems(1-3) n s a True Cons.prems(8), of ip]
    have "int (allowed_in ip w oks' rs) \<le> max 0 (ab_MaxPacketsPerSecond (pr_cfg p') - used w (ab_lookup p' ip))"
      using Cons.prems later run Abuse_Allow_effect(2,3) [OF Cons.prems(1) a]
        windows_ok_step [OF Cons.prems(1-3) n s a]
      by (intro Cons.IH [of p' "time_unix now" "n + 1"]) (auto simp: clock_forward_def)
    then show ?thesis using step Abuse_Allow_effect(2) [OF Cons.prems(1) a]
      by (auto simp: allowed_in_def r run(2) split: if_splits)
  qed
qed

text \<open>C36: the packet cap.  From a fresh protector, while the wall clock does not go back (and for
  fewer than \<open>2^63\<close> packets), at most the configured number of packets of an IP is allowed in
  any second, whatever the other IPs and the sweeps do.\<close>

theorem Abuse_packet_cap:
  assumes "Abuse_New cfg = Some p" and "0 < ab_MaxPacketsPerSecond cfg" and "clock_forward rs"
    and "int (length rs) < 2 ^ 63" and "fst (Abuse_run p rs) = oks"
  shows "int (allowed_in ip w oks rs) \<le> ab_MaxPacketsPerSecond cfg"
proof -
  have p: "pr_wf p" "ab_lookup p ip = None" "\<And>s n. windows_ok p s n"
    using Abuse_New_wf [OF assms(1)] by (auto simp: windows_ok_def)
  have cfg: "ab_MaxPacketsPerSecond (pr_cfg p) = ab_MaxPacketsPerSecond cfg"
    using assms(1) by (auto simp: Abuse_New_def Let_def split: if_splits)
  obtain s where "\<forall>r \<in> set rs. s \<le> time_unix (snd r)"
  proof (cases rs)
    case (Cons r rs')
    then show thesis using assms(3)
      by (intro that [of "time_unix (snd r)"]) (auto simp: clock_forward_def time_unix_def intro: zdiv_mono1)
  qed simp
  from Abuse_run_cap [OF p(1) p(3) [of s 0] _ _ assms(3) this, of oks "snd (Abuse_run p rs)" ip w]
  show ?thesis using assms(2,4,5) p(2) by (auto simp: cfg used_def)
qed

definition test_abuse_cfg :: abuseConfig where
  "test_abuse_cfg = \<lparr>ab_Enabled = True, ab_MaxPacketsPerSecond = 2, ab_MaxSessionsPerClient = 1, ab_SessionTTL = 10 * Second\<rparr>"

definition test_protector :: protector where
  "test_protector = \<lparr>pr_cfg = test_abuse_cfg, pr_shards = replicate 64 \<lparr>as_entries = [], as_lastSweep = 0\<rparr>\<rparr>"

definition test_request :: "16 word \<Rightarrow> addrport \<times> time" where
  "test_request port = (\<lparr>ap_addr = Addr4 0xC000020A, ap_port = port\<rparr>, \<lparr>t_wall = 100 * Second, t_mono = 0\<rparr>)"

lemma test_protector_New: "Abuse_New test_abuse_cfg = Some test_protector"
  by (simp add: Abuse_New_def test_abuse_cfg_def test_protector_def)

theorem Abuse_packet_cap_witness:
  "int (allowed_in (Addr4 0xC000020A) 100
     (fst (Abuse_run test_protector (replicate 5 (test_request 9)))) (replicate 5 (test_request 9))) \<le> 2"
  using Abuse_packet_cap [OF test_protector_New, of "replicate 5 (test_request 9)" _ "Addr4 0xC000020A" 100]
  by (simp add: test_abuse_cfg_def clock_forward_def)

section \<open>The session cap\<close>

definition remembers :: "protector \<Rightarrow> (addrport \<times> time) set \<Rightarrow> int \<Rightarrow> bool" where
  "remembers p past c \<longleftrightarrow> (\<forall>(ap, t) \<in> past. c \<le> time_unix t \<longrightarrow>
     (\<exists>e ts. ab_lookup p (ap_addr ap) = Some e \<and> time_unix t \<le> e_lastSeen e \<and>
             map_of (e_sessions e) (ap_port ap) = Some ts \<and> time_unix t \<le> ts))"

lemma remembersD:
  "remembers p past c \<Longrightarrow> (ap, t) \<in> past \<Longrightarrow> c \<le> time_unix t \<Longrightarrow>
     \<exists>e ts. ab_lookup p (ap_addr ap) = Some e \<and> time_unix t \<le> e_lastSeen e \<and>
            map_of (e_sessions e) (ap_port ap) = Some ts \<and> time_unix t \<le> ts"
  by (auto simp: remembers_def)

lemma map_of_sweepEntry:
  assumes "abuse_entry_ok e" "map_of (e_sessions e) port = Some ts" "ttlCutoff cfg now \<le> ts"
  shows "map_of (e_sessions (sweepEntrySessionsLocked cfg now e)) port = Some ts"
  using assms by (simp add: abuse_entry_ok_def sweepEntrySessionsLocked_def map_of_filter_distinct)

lemma recordSession_lookup:
  assumes "abuse_entry_ok e" "ttlCutoff cfg now \<le> time_unix now"
  shows "map_of (e_sessions (recordSession cfg port now e)) port = Some (time_unix now)"
    and "k \<noteq> port \<Longrightarrow> map_of (e_sessions e) k = Some ts \<Longrightarrow> ttlCutoff cfg now \<le> ts \<Longrightarrow>
      map_of (e_sessions (recordSession cfg port now e)) k = Some ts"
proof -
  let ?e1 = "e\<lparr>e_sessions := AList.update port (time_unix now) (e_sessions e)\<rparr>"
  have ok: "abuse_entry_ok ?e1" using assms(1) by (simp add: abuse_entry_ok_def)
  show "map_of (e_sessions (recordSession cfg port now e)) port = Some (time_unix now)"
    using map_of_sweepEntry [OF ok, of port "time_unix now" cfg now] assms(2)
    by (simp add: recordSession_def Let_def update_conv')
  show "k \<noteq> port \<Longrightarrow> map_of (e_sessions e) k = Some ts \<Longrightarrow> ttlCutoff cfg now \<le> ts \<Longrightarrow>
      map_of (e_sessions (recordSession cfg port now e)) k = Some ts"
    using map_of_sweepEntry [OF ok, of k ts cfg now] by (simp add: recordSession_def Let_def update_conv')
qed

text \<open>A call keeps what is recent in the entry it judges, and records the port of what it lets
  pass as far as the session check.\<close>

lemma judgeEntry_sessions:
  assumes "abuse_entry_ok e" "ttlCutoff cfg now \<le> time_unix now" "0 < ab_MaxSessionsPerClient cfg"
  shows "map_of (e_sessions e) k = Some ts \<Longrightarrow> ttlCutoff cfg now \<le> ts \<Longrightarrow>
      map_of (e_sessions (snd (judgeEntry cfg port now e))) k \<in> {Some ts, Some (time_unix now)}"
    and "fst (judgeEntry cfg port now e) \<Longrightarrow>
      map_of (e_sessions (snd (judgeEntry cfg port now e))) port = Some (time_unix now) \<and>
      int (length (e_sessions (snd (judgeEntry cfg port now e)))) \<le> ab_MaxSessionsPerClient cfg"
proof -
  let ?e1 = "if 0 < ab_MaxPacketsPerSecond cfg then countPacket (time_unix now) e else e"
  have ok: "abuse_entry_ok ?e1" "e_sessions ?e1 = e_sessions e"
    using assms(1) by (auto simp: abuse_entry_ok_def)
  note r = recordSession_lookup [OF ok(1) assms(2), where port = port]
  show "map_of (e_sessions (snd (judgeEntry cfg port now e))) k \<in> {Some ts, Some (time_unix now)}"
    if "map_of (e_sessions e) k = Some ts" "ttlCutoff cfg now \<le> ts"
    using assms(3) that ok(2) r(1) r(2) [of k ts] by (cases "k = port") (simp_all add: judgeEntry_def Let_def)
  show "fst (judgeEntry cfg port now e) \<Longrightarrow>
      map_of (e_sessions (snd (judgeEntry cfg port now e))) port = Some (time_unix now) \<and>
      int (length (e_sessions (snd (judgeEntry cfg port now e)))) \<le> ab_MaxSessionsPerClient cfg"
    using assms(3) r(1) by (simp add: judgeEntry_def Let_def split: if_splits)
qed

lemma client_entry_sessions:
  "ab_lookup p ip = Some e \<Longrightarrow> e_sessions (client_entry p ip now) = e_sessions e"
  by (simp add: client_entry_def touchEntry_def striped_lookup_def)

text \<open>The entry of the caller after the call, in terms of the session table of the judged entry.\<close>

lemma Abuse_Allow_sessions:
  assumes "pr_wf p" "Abuse_Allow p ap now = (ok, p')"
  defines "ss \<equiv> e_sessions (snd (judgeEntry (pr_cfg p) (ap_port ap) now (client_entry p (ap_addr ap) now)))"
  obtains e where "ab_lookup p' (ap_addr ap) = Some e" "e_lastSeen e = time_unix now"
    "\<And>k ts. map_of ss k = Some ts \<Longrightarrow> ttlCutoff (pr_cfg p) now \<le> ts \<Longrightarrow> map_of (e_sessions e) k = Some ts"
    "length (e_sessions e) \<le> length ss"
proof -
  let ?j = "snd (judgeEntry (pr_cfg p) (ap_port ap) now (client_entry p (ap_addr ap) now))"
  have ok: "abuse_entry_ok ?j" by (intro judgeEntry_ok client_entry_ok assms(1))
  consider "ab_lookup p' (ap_addr ap) = Some ?j"
    | "ab_lookup p' (ap_addr ap) = Some (sweepEntrySessionsLocked (pr_cfg p) now ?j)"
    using Abuse_Allow_effect(4) [OF assms(1,2)] by blast
  then show thesis
  proof cases
    case 1
    then show thesis by (rule that) (simp_all add: judgeEntry_lastSeen ss_def)
  next
    case 2
    show thesis
    proof (rule that [OF 2])
      show "length (e_sessions (sweepEntrySessionsLocked (pr_cfg p) now ?j)) \<le> length ss"
        by (simp add: ss_def sweepEntrySessionsLocked_def)
    qed (simp_all add: judgeEntry_lastSeen ss_def map_of_sweepEntry [OF ok])
  qed
qed

lemma remembers_step:
  assumes "pr_wf p" "remembers p past c" "Abuse_Allow p ap now = (ok, p')"
    "0 < ab_MaxSessionsPerClient (pr_cfg p)" "c \<le> ttlCutoff (pr_cfg p) now"
    "\<forall>r \<in> past. time_unix (snd r) \<le> time_unix now"
  shows "remembers p' (if ok then insert (ap, now) past else past) (ttlCutoff (pr_cfg p) now)"
proof -
  let ?c = "ttlCutoff (pr_cfg p) now" and ?j = "judgeEntry (pr_cfg p) (ap_port ap) now (client_entry p (ap_addr ap) now)"
  have cn: "?c \<le> time_unix now" by (rule ttlCutoff_le [OF assms(1)])
  note js = judgeEntry_sessions [OF client_entry_ok [OF assms(1), of "ap_addr ap" now] cn assms(4), where port = "ap_port ap"]
  obtain e where e: "ab_lookup p' (ap_addr ap) = Some e" "e_lastSeen e = time_unix now"
    "\<And>k ts. map_of (e_sessions (snd ?j)) k = Some ts \<Longrightarrow> ?c \<le> ts \<Longrightarrow> map_of (e_sessions e) k = Some ts"
    by (rule Abuse_Allow_sessions [OF assms(1,3)]) (rule that, assumption+)
  have new: "map_of (e_sessions e) (ap_port ap) = Some (time_unix now)" if ok
    using js(2) that cn by (intro e(3)) (simp_all add: Abuse_Allow_effect(1) [OF assms(1,3)])
  have old: "\<exists>e' ts. ab_lookup p' (ap_addr a) = Some e' \<and> time_unix t \<le> e_lastSeen e' \<and>
      map_of (e_sessions e') (ap_port a) = Some ts \<and> time_unix t \<le> ts"
    if past: "(a, t) \<in> past" "?c \<le> time_unix t" for a t
  proof -
    obtain e0 ts where e0: "ab_lookup p (ap_addr a) = Some e0" "time_unix t \<le> e_lastSeen e0"
        "map_of (e_sessions e0) (ap_port a) = Some ts" "time_unix t \<le> ts"
      using remembersD [OF assms(2) past(1)] assms(5) past(2) by auto
    have tn: "time_unix t \<le> time_unix now" using assms(6) that(1) by fastforce
    show ?thesis
    proof (cases "ap_addr a = ap_addr ap")
      case True
      then have "map_of (e_sessions (client_entry p (ap_addr ap) now)) (ap_port a) = Some ts"
        using e0 client_entry_sessions by metis
      then have "map_of (e_sessions (snd ?j)) (ap_port a) \<in> {Some ts, Some (time_unix now)}"
        using js(1) e0(4) that(2) by auto
      then show ?thesis using e True tn e0(4) that(2) by fastforce
    next
      case False
      from pr_wf_shard(2) [OF assms(1)] e0(1) have "abuse_entry_ok e0" by (auto simp: striped_lookup_def)
      then show ?thesis
        using Abuse_Allow_effect(5) [OF assms(1,3) False] e0 that(2)
          map_of_sweepEntry [of e0 "ap_port a" ts "pr_cfg p" now]
        by (auto simp: aged_def)
    qed
  qed
  show ?thesis using old new e(1,2) by (auto simp: remembers_def)
qed

text \<open>The calls allowed among the first \<open>n\<close> of a run, and the ports of one IP among calls since a
  moment.\<close>

definition allowed_first :: "nat \<Rightarrow> bool list \<Rightarrow> (addrport \<times> time) list \<Rightarrow> (addrport \<times> time) set" where
  "allowed_first n oks rs = snd ` {x \<in> set (take n (zip oks rs)). fst x}"

definition recent_ports :: "(addrport \<times> time) set \<Rightarrow> addr \<Rightarrow> int \<Rightarrow> 16 word set" where
  "recent_ports calls ip c = (\<lambda>r. ap_port (fst r)) ` {r \<in> calls. ap_addr (fst r) = ip \<and> c \<le> time_unix (snd r)}"

lemma allowed_first_Cons:
  "allowed_first (Suc n) (ok # oks) (r # rs) = (if ok then insert r (allowed_first n oks rs) else allowed_first n oks rs)"
proof -
  have "{x. (x = (ok, r) \<or> x \<in> A) \<and> fst x} = (if ok then insert (ok, r) {x \<in> A. fst x} else {x \<in> A. fst x})" for A
    by auto
  then show ?thesis by (simp add: allowed_first_def)
qed

lemma card_recent_ports:
  assumes "remembers p calls c" "ab_lookup p ip = Some e"
  shows "card (recent_ports calls ip c) \<le> length (e_sessions e)"
proof -
  have "recent_ports calls ip c \<subseteq> fst ` set (e_sessions e)"
  proof
    fix x
    assume "x \<in> recent_ports calls ip c"
    then obtain a t where "(a, t) \<in> calls" "c \<le> time_unix t" "ap_addr a = ip" "x = ap_port a"
      by (auto simp: recent_ports_def)
    then obtain ts where "map_of (e_sessions e) x = Some ts"
      using remembersD [OF assms(1)] assms(2) by fastforce
    then show "x \<in> fst ` set (e_sessions e)" by (force dest: map_of_SomeD)
  qed
  then have "card (recent_ports calls ip c) \<le> card (fst ` set (e_sessions e))" by (intro card_mono) auto
  also have "\<dots> \<le> length (e_sessions e)" using card_image_le [of "set (e_sessions e)" fst] card_length
    by (meson finite_set le_trans)
  finally show ?thesis .
qed

lemma ttlCutoff_mono: "t_wall a \<le> t_wall b \<Longrightarrow> ttlCutoff cfg a \<le> ttlCutoff cfg b"
  by (simp add: ttlCutoff_def time_unix_def zdiv_mono1)

lemma Abuse_run_sessions:
  assumes "pr_wf p" "remembers p past c" "0 < ab_MaxSessionsPerClient (pr_cfg p)"
    "clock_forward rs" "\<forall>r \<in> set rs. c \<le> ttlCutoff (pr_cfg p) (snd r)"
    "\<forall>r \<in> set rs. \<forall>s \<in> past. time_unix (snd s) \<le> time_unix (snd r)"
    "fst (Abuse_run p rs) = oks" "i < length rs" "oks ! i"
  shows "int (card (recent_ports (past \<union> allowed_first (Suc i) oks rs) (ap_addr (fst (rs ! i)))
      (ttlCutoff (pr_cfg p) (snd (rs ! i))))) \<le> ab_MaxSessionsPerClient (pr_cfg p)"
  using assms
proof (induction rs arbitrary: p past c oks i)
  case Nil
  then show ?case by simp
next
  case (Cons r rs)
  obtain ap now where r: "r = (ap, now)" by fastforce
  obtain ok p' where a: "Abuse_Allow p ap now = (ok, p')" by fastforce
  define oks' where "oks' = fst (Abuse_run p' rs)"
  have oks: "oks = ok # oks'" using Cons.prems(7) by (auto simp: r a oks'_def split: prod.splits)
  let ?past = "if ok then insert (ap, now) past else past"
  note eff = Abuse_Allow_effect [OF Cons.prems(1) a]
  have rem: "remembers p' ?past (ttlCutoff (pr_cfg p) now)"
    using Cons.prems by (intro remembers_step [OF Cons.prems(1,2) a]) (auto simp: r)
  have later: "t_wall now \<le> t_wall (snd s)" if "s \<in> set rs" for s
    using Cons.prems(4) that by (auto simp: clock_forward_def r)
  show ?case
  proof (cases i)
    case 0
    then have ok: ok using Cons.prems(9) by (simp add: oks)
    obtain e where e: "ab_lookup p' (ap_addr ap) = Some e" "length (e_sessions e) \<le>
        length (e_sessions (snd (judgeEntry (pr_cfg p) (ap_port ap) now (client_entry p (ap_addr ap) now))))"
      by (rule Abuse_Allow_sessions [OF Cons.prems(1) a]) (rule that, assumption+)
    have "int (length (e_sessions e)) \<le> ab_MaxSessionsPerClient (pr_cfg p)"
      using judgeEntry_sessions(2) [OF client_entry_ok [OF Cons.prems(1)] ttlCutoff_le [OF Cons.prems(1)] Cons.prems(3)]
        ok e(2) eff(1) by fastforce
    then show ?thesis using card_recent_ports [OF rem e(1)] ok
      by (simp add: 0 r oks allowed_first_Cons) (simp add: allowed_first_def)
  next
    case (Suc j)
    have "int (card (recent_ports (?past \<union> allowed_first (Suc j) oks' rs) (ap_addr (fst (rs ! j)))
        (ttlCutoff (pr_cfg p') (snd (rs ! j))))) \<le> ab_MaxSessionsPerClient (pr_cfg p')"
    proof (rule Cons.IH [OF eff(3) rem])
      show "\<forall>r \<in> set rs. ttlCutoff (pr_cfg p) now \<le> ttlCutoff (pr_cfg p') (snd r)"
        using later by (auto simp: eff(2) intro: ttlCutoff_mono)
      show "\<forall>r \<in> set rs. \<forall>s \<in> ?past. time_unix (snd s) \<le> time_unix (snd r)"
        using later Cons.prems(6) by (auto simp: time_unix_def intro: zdiv_mono1)
    qed (use Cons.prems in \<open>auto simp: eff(2) oks Suc clock_forward_def oks'_def\<close>)
    moreover have "past \<union> allowed_first (Suc i) oks (r # rs) = ?past \<union> allowed_first (Suc j) oks' rs"
      by (auto simp: Suc oks allowed_first_Cons r)
    ultimately show ?thesis by (simp add: Suc eff(2))
  qed
qed

text \<open>C37: the session cap.  From a fresh protector, while the wall clock does not go back, whenever
  a packet of an IP is allowed, the packets of that IP allowed so far within the time to live
  came from at most the configured number of source ports.\<close>

theorem Abuse_session_cap:
  assumes "Abuse_New cfg = Some p" and "0 < ab_MaxSessionsPerClient cfg" and "clock_forward rs"
    and "fst (Abuse_run p rs) = oks" and "i < length rs" and "oks ! i"
  shows "int (card (recent_ports (allowed_first (Suc i) oks rs) (ap_addr (fst (rs ! i)))
      (ttlCutoff (pr_cfg p) (snd (rs ! i))))) \<le> ab_MaxSessionsPerClient cfg"
proof -
  have cfg: "ab_MaxSessionsPerClient (pr_cfg p) = ab_MaxSessionsPerClient cfg"
    using assms(1) by (auto simp: Abuse_New_def Let_def split: if_splits)
  obtain c where "\<forall>r \<in> set rs. c \<le> ttlCutoff (pr_cfg p) (snd r)"
  proof (cases rs)
    case (Cons r rs')
    then show thesis using assms(3)
      by (intro that [of "ttlCutoff (pr_cfg p) (snd r)"]) (auto simp: clock_forward_def intro!: ttlCutoff_mono)
  qed simp
  moreover have "remembers p {} c" by (simp add: remembers_def)
  ultimately show ?thesis
    using Abuse_run_sessions [of p "{}" c rs oks i] Abuse_New_wf [OF assms(1)] assms(2-6) by (simp add: cfg)
qed

lemma test_run_allowed: "fst (Abuse_run test_protector [test_request 7]) = [True]"
  by (simp add: test_request_def Abuse_Allow_def test_protector_def test_abuse_cfg_def judgeEntry_def touchEntry_def
      addrShard_def countPacket_def recordSession_def sweepEntrySessionsLocked_def ttlCutoff_def time_unix_def
      in_int64_def Let_def split_beta)

theorem Abuse_session_cap_witness:
  "int (card (recent_ports (allowed_first 1 [True] [test_request 7]) (Addr4 0xC000020A)
     (ttlCutoff test_abuse_cfg \<lparr>t_wall = 100 * Second, t_mono = 0\<rparr>))) \<le> 1"
  using Abuse_session_cap [OF test_protector_New _ _ test_run_allowed, of 0]
  by (simp add: clock_forward_def test_abuse_cfg_def test_request_def test_protector_def)

section \<open>Isolation and lock-out\<close>

text \<open>Isolation of IPs.  The verdict on a packet depends on the configuration and the entry of
  its own IP only, and no other IP's entry changes except by ageing: it may lose sessions older
  than the time to live, or disappear when it was not seen for that long.\<close>

theorem Abuse_isolation:
  assumes "pr_wf p" and "pr_wf q" and "pr_cfg p = pr_cfg q"
    and "ab_lookup p (ap_addr ap) = ab_lookup q (ap_addr ap)"
  shows "fst (Abuse_Allow p ap now) = fst (Abuse_Allow q ap now) \<and>
    (\<forall>k. k \<noteq> ap_addr ap \<longrightarrow> aged (pr_cfg p) now (ab_lookup p k) (ab_lookup (snd (Abuse_Allow p ap now)) k))"
proof -
  have "client_entry p (ap_addr ap) now = client_entry q (ap_addr ap) now"
    using assms(4) by (simp add: client_entry_def touchEntry_def striped_lookup_def)
  then show ?thesis
    using Abuse_Allow_effect(1) [OF assms(1) prod.collapse [symmetric]]
      Abuse_Allow_effect(1) [OF assms(2) prod.collapse [symmetric]]
      Abuse_Allow_effect(5) [OF assms(1) prod.collapse [symmetric]] assms(3) by simp
qed

lemma recordSession_over:
  assumes "abuse_entry_ok e" "\<forall>(port, ts) \<in> set (e_sessions e). ttlCutoff cfg now \<le> ts"
    "ttlCutoff cfg now \<le> time_unix now"
  shows "length (e_sessions e) \<le> length (e_sessions (recordSession cfg port now e)) \<and>
    (\<forall>(port, ts) \<in> set (e_sessions (recordSession cfg port now e)). ttlCutoff cfg now \<le> ts)"
proof -
  let ?ss = "AList.update port (time_unix now) (e_sessions e)"
  have "set ?ss \<subseteq> insert (port, time_unix now) (set (e_sessions e))"
    by (rule set_alist_update)
  then have all: "\<forall>(port, ts) \<in> set ?ss. ttlCutoff cfg now \<le> ts" using assms(2,3) by fastforce
  then have "filter (\<lambda>(port, ts). \<not> ts < ttlCutoff cfg now) ?ss = ?ss" by (intro filter_True) auto
  moreover have "length (e_sessions e) \<le> length ?ss" by (rule length_alist_update)
  ultimately show ?thesis using all by (auto simp: recordSession_def sweepEntrySessionsLocked_def Let_def)
qed

text \<open>C38: lock-out.  A denied packet still records its port, so once an IP has shown more ports
  than allowed, every further packet of it is denied, those of its established sessions
  included, and the IP stays over the limit until recorded ports age out.\<close>

theorem Abuse_lockout:
  assumes "pr_wf p" and "0 < ab_MaxSessionsPerClient (pr_cfg p)" and "ab_lookup p (ap_addr ap) = Some e"
    and "ab_MaxSessionsPerClient (pr_cfg p) < int (length (e_sessions e))"
    and "\<forall>(port, ts) \<in> set (e_sessions e). ttlCutoff (pr_cfg p) now \<le> ts"
  shows "\<not> fst (Abuse_Allow p ap now) \<and>
    (\<exists>e'. ab_lookup (snd (Abuse_Allow p ap now)) (ap_addr ap) = Some e' \<and>
          ab_MaxSessionsPerClient (pr_cfg p) < int (length (e_sessions e')))"
proof -
  let ?cfg = "pr_cfg p" and ?ce = "client_entry p (ap_addr ap) now"
  let ?e1 = "if 0 < ab_MaxPacketsPerSecond ?cfg then countPacket (time_unix now) ?ce else ?ce"
  let ?e2 = "recordSession ?cfg (ap_port ap) now ?e1" and ?j = "judgeEntry ?cfg (ap_port ap) now ?ce"
  have ss: "e_sessions ?e1 = e_sessions e" using client_entry_sessions [OF assms(3)] by simp
  have ok: "abuse_entry_ok ?e1" using client_entry_ok [OF assms(1)] by (simp add: abuse_entry_ok_def)
  note over = recordSession_over [OF ok assms(5) [folded ss] ttlCutoff_le [OF assms(1)], of "ap_port ap"]
  have j: "\<not> fst ?j" "snd ?j = ?e1 \<or> snd ?j = ?e2"
    using assms(2,4) over ss by (auto simp: judgeEntry_def Let_def)
  have all: "ab_MaxSessionsPerClient ?cfg < int (length (e_sessions (snd ?j))) \<and>
      (\<forall>(port, ts) \<in> set (e_sessions (snd ?j)). ttlCutoff ?cfg now \<le> ts)"
    using j(2) over assms(4,5) ss by auto
  then have "filter (\<lambda>(port, ts). \<not> ts < ttlCutoff ?cfg now) (e_sessions (snd ?j)) = e_sessions (snd ?j)"
    by (intro filter_True) auto
  then have "e_sessions (sweepEntrySessionsLocked ?cfg now (snd ?j)) = e_sessions (snd ?j)"
    by (simp add: sweepEntrySessionsLocked_def)
  then show ?thesis
    using j(1) all Abuse_Allow_effect(1,4) [OF assms(1) prod.collapse [symmetric], of ap now] by auto
qed

definition test_crowded :: protector where
  "test_crowded = test_protector\<lparr>pr_shards := (pr_shards test_protector)[8 := \<lparr>as_entries =
     [(Addr4 0xC000020A, \<lparr>e_windowSecond = 100, e_packets = 2, e_lastSeen = 100, e_lastSweep = 100,
        e_sessions = [(7, 100), (8, 100)]\<rparr>)], as_lastSweep = 100\<rparr>]\<rparr>"

lemma test_crowded:
  "pr_wf test_crowded" "abuseShardOf (Addr4 0xC000020A) = 8"
  by (auto simp: test_crowded_def test_protector_def test_abuse_cfg_def pr_wf_def abuse_entry_ok_def distinct_keys_def
      dest!: set_update_subset_insert [THEN subsetD]) (code_simp)

theorem Abuse_lockout_witness:
  "\<not> fst (Abuse_Allow test_crowded \<lparr>ap_addr = Addr4 0xC000020A, ap_port = 7\<rparr> \<lparr>t_wall = 101 * Second, t_mono = 0\<rparr>)"
  using Abuse_lockout [OF test_crowded(1), of "\<lparr>ap_addr = Addr4 0xC000020A, ap_port = 7\<rparr>"] 
  by (simp add: striped_lookup_def test_crowded test_crowded_def test_protector_def test_abuse_cfg_def
      ttlCutoff_def time_unix_def)

end
