(* ===== verification/Qos.thy ===== *)
theory Qos
  imports GoStrings
begin

text \<open>
  \<^verbatim>\<open>src/internal/qos/priority.go\<close>: frontend priorities.  \<^verbatim>\<open>Priority\<close> is a \<^verbatim>\<open>uint8\<close>, so the
  methods are total on all 256 values and fall to their \<^verbatim>\<open>default\<close> case outside the five
  constants.
\<close>

type_synonym priority = "8 word"

definition PriorityBulk :: priority where "PriorityBulk = 0"

definition PriorityLow :: priority where "PriorityLow = 1"

definition PriorityNormal :: priority where "PriorityNormal = 2"

definition PriorityHigh :: priority where "PriorityHigh = 3"

definition PriorityCritical :: priority where "PriorityCritical = 4"

lemmas priority_defs =
  PriorityBulk_def PriorityLow_def PriorityNormal_def PriorityHigh_def PriorityCritical_def

text \<open>The error carries the text the caller passed.\<close>

definition ParsePriority :: "string \<Rightarrow> string + priority" where
  "ParsePriority v =
     (let s = ToLower (TrimSpace v) in
      if s = ''critical'' then Inr PriorityCritical
      else if s = ''high'' then Inr PriorityHigh
      else if s = ''normal'' \<or> s = '''' then Inr PriorityNormal
      else if s = ''low'' then Inr PriorityLow
      else if s = ''bulk'' then Inr PriorityBulk
      else Inl v)"

definition Priority_String :: "priority \<Rightarrow> string" where
  "Priority_String p =
     (if p = PriorityCritical then ''critical''
      else if p = PriorityHigh then ''high''
      else if p = PriorityLow then ''low''
      else if p = PriorityBulk then ''bulk''
      else ''normal'')"

definition WorkerMultiplier :: "priority \<Rightarrow> int" where
  "WorkerMultiplier p =
     (if p = PriorityCritical then 5
      else if p = PriorityHigh then 4
      else if p = PriorityLow then 2
      else if p = PriorityBulk then 1
      else 3)"

definition valid_priority :: "priority \<Rightarrow> bool" where
  "valid_priority p \<longleftrightarrow> p \<le> PriorityCritical"

lemma valid_priority_cases:
  "valid_priority p \<longleftrightarrow> p \<in> {PriorityBulk, PriorityLow, PriorityNormal, PriorityHigh, PriorityCritical}"
proof
  assume "valid_priority p"
  then have "unat p \<le> 4" by (simp add: valid_priority_def PriorityCritical_def word_le_nat_alt)
  then have "unat p \<in> {0, 1, 2, 3, 4}" by auto
  moreover have "p = of_nat (unat p)" by simp
  ultimately have "p \<in> {of_nat 0, of_nat 1, of_nat 2, of_nat 3, of_nat 4}" by fastforce
  then have "p \<in> {0, 1, 2, 3, 4}" by simp
  then show "p \<in> {PriorityBulk, PriorityLow, PriorityNormal, PriorityHigh, PriorityCritical}"
    by (simp add: priority_defs)
qed (auto simp: valid_priority_def priority_defs)

lemma TrimSpace_word:
  "s \<noteq> [] \<Longrightarrow> list_all graphic s \<Longrightarrow> TrimSpace s = s"
  by (rule TrimSpace_graphic) (auto simp: list_all_iff)

lemma Parse_String: "valid_priority p \<Longrightarrow> ParsePriority (Priority_String p) = Inr p"
  by (auto simp: valid_priority_cases ParsePriority_def Priority_String_def priority_defs
      TrimSpace_word graphic_def lower_char_def)

lemma WorkerMultiplier_bounds: "1 \<le> WorkerMultiplier p" "WorkerMultiplier p \<le> 5"
  by (auto simp: WorkerMultiplier_def)

text \<open>A higher priority never scales to fewer workers.\<close>

lemma WorkerMultiplier_mono:
  "valid_priority p \<Longrightarrow> valid_priority q \<Longrightarrow> p \<le> q \<Longrightarrow> WorkerMultiplier p \<le> WorkerMultiplier q"
  by (auto simp: valid_priority_cases WorkerMultiplier_def priority_defs word_le_nat_alt)

end
