(* ===== verification/Config.thy ===== *)
theory Config
  imports Qos
begin

text \<open>
  \<^verbatim>\<open>src/internal/config/config.go\<close>: the configuration structures, \<^verbatim>\<open>ByteSize\<close> values,
  \<^verbatim>\<open>defaults\<close>, \<^verbatim>\<open>validate\<close> and \<^verbatim>\<open>Parse\<close>.  Decoding YAML into the structures is
  \<^verbatim>\<open>gopkg.in/yaml.v3\<close>, which is not part of the repository: \<open>Parse\<close> takes it as a parameter.
\<close>

section \<open>Structures\<close>

type_synonym byteSize = int

record socketConfig =
  so_RcvBuf :: int
  so_SndBuf :: int
  so_ReusePort :: bool

record trafficShapingConfig =
  ts_Enabled :: bool
  ts_PacketsPerSecond :: int
  ts_BytesPerSecond :: byteSize
  ts_BurstPackets :: int
  ts_BurstBytes :: byteSize

record clientLimitsConfig =
  cc_PacketsPerSecond :: int
  cc_BurstPackets :: int

record abuseProtectionConfig =
  ac_Enabled :: bool
  ac_MaxPacketsPerSecondPerIP :: int
  ac_MaxSessionsPerIP :: int

record fragmentationConfig =
  fr_DropFragments :: bool

record healthCheckConfig =
  hc_Enabled :: bool
  hc_Interval :: duration
  hc_Timeout :: duration

record serverConfig =
  sc_Address :: string
  sc_Weight :: int

record frontendConfig =
  fc_Name :: string
  fc_Listen :: string
  fc_Backend :: string
  fc_SessionAffinity :: bool
  fc_MaxSessions :: int
  fc_MaxPacketSize :: int
  fc_Priority :: string
  fc_TrafficShaping :: trafficShapingConfig

record backendConfig =
  bc_Name :: string
  bc_LoadBalance :: string
  bc_HealthCheck :: healthCheckConfig
  bc_Servers :: "serverConfig list"
  bc_TrafficShaping :: trafficShapingConfig

record globalConfig =
  g_MaxPacketSize :: int
  g_WorkerThreads :: int
  g_SessionTimeout :: duration
  g_SessionCleanupInterval :: duration
  g_LogLevel :: string
  g_MetricsAddr :: string
  g_Socket :: socketConfig
  g_TrafficShaping :: trafficShapingConfig
  g_ClientLimits :: clientLimitsConfig
  g_AbuseProtection :: abuseProtectionConfig
  g_Fragmentation :: fragmentationConfig

record config =
  c_Global :: globalConfig
  c_Frontends :: "frontendConfig list"
  c_Backends :: "backendConfig list"

section \<open>Byte sizes\<close>

datatype byteSizeError =
    InvalidByteSize string numError
  | UnsupportedUnit string
  | InvalidByteSizeValue string

definition is_letter :: "char \<Rightarrow> bool" where
  "is_letter c = (let n = of_char c :: nat in (65 \<le> n \<and> n \<le> 90) \<or> (97 \<le> n \<and> n \<le> 122))"

definition mul64 :: "int \<Rightarrow> int \<Rightarrow> int" where
  "mul64 a b = wrap64 (a * b)"

text \<open>The switch on the upper-cased unit.\<close>

definition scaleUnit :: "string \<Rightarrow> int \<Rightarrow> byteSizeError + int" where
  "scaleUnit unitPart n =
     (if unitPart = '''' \<or> unitPart = ''B'' then Inr n
      else if unitPart = ''KB'' then Inr (mul64 n 1000)
      else if unitPart = ''MB'' then Inr (mul64 (mul64 n 1000) 1000)
      else if unitPart = ''GB'' then Inr (mul64 (mul64 (mul64 n 1000) 1000) 1000)
      else if unitPart = ''TB'' then Inr (mul64 (mul64 (mul64 (mul64 n 1000) 1000) 1000) 1000)
      else if unitPart = ''KIB'' then Inr (mul64 n 1024)
      else if unitPart = ''MIB'' then Inr (mul64 (mul64 n 1024) 1024)
      else if unitPart = ''GIB'' then Inr (mul64 (mul64 (mul64 n 1024) 1024) 1024)
      else if unitPart = ''TIB'' then Inr (mul64 (mul64 (mul64 (mul64 n 1024) 1024) 1024) 1024)
      else Inl (UnsupportedUnit unitPart))"

definition parseByteSize :: "string \<Rightarrow> byteSizeError + int" where
  "parseByteSize value =
     (let s = TrimSpace value in
      if s = '''' then Inr 0
      else let end = length s - length (takeWhile is_letter (rev s));
               numPart = TrimSpace (take end s);
               unitPart = ToUpper (TrimSpace (drop end s))
           in case ParseInt numPart of
                Inl err \<Rightarrow> Inl (InvalidByteSize value err)
              | Inr n \<Rightarrow> scaleUnit unitPart n)"

text \<open>The YAML node \<^verbatim>\<open>UnmarshalYAML\<close> is given: whether it is a scalar, its tag and its text.\<close>

record yamlNode =
  yn_scalar :: bool
  yn_Tag :: string
  yn_Value :: string

definition UnmarshalYAML :: "yamlNode \<Rightarrow> byteSizeError + byteSize" where
  "UnmarshalYAML node =
     (if yn_scalar node
      then if yn_Tag node = ''!!int''
           then (case ParseInt (yn_Value node) of
                   Inl err \<Rightarrow> Inl (InvalidByteSize (yn_Value node) err)
                 | Inr n \<Rightarrow> Inr n)
           else parseByteSize (yn_Value node)
      else Inl (InvalidByteSizeValue (yn_Value node)))"

section \<open>Defaults\<close>

definition defaults_global :: "globalConfig \<Rightarrow> globalConfig" where
  "defaults_global g = g\<lparr>
     g_MaxPacketSize := (if g_MaxPacketSize g \<le> 0 then 65535 else g_MaxPacketSize g),
     g_WorkerThreads := (if g_WorkerThreads g \<le> 0 then 4 else g_WorkerThreads g),
     g_SessionTimeout := (if g_SessionTimeout g \<le> 0 then 60 * Second else g_SessionTimeout g),
     g_SessionCleanupInterval :=
       (if g_SessionCleanupInterval g \<le> 0 then 10 * Second else g_SessionCleanupInterval g),
     g_LogLevel := (if g_LogLevel g = '''' then ''info'' else g_LogLevel g),
     g_MetricsAddr := (if g_MetricsAddr g = '''' then ''0.0.0.0:9090'' else g_MetricsAddr g)\<rparr>"

definition defaults_frontend :: "frontendConfig \<Rightarrow> frontendConfig" where
  "defaults_frontend f =
     (if fc_Priority f = '''' then f\<lparr>fc_Priority := Priority_String PriorityNormal\<rparr> else f)"

definition defaults_server :: "serverConfig \<Rightarrow> serverConfig" where
  "defaults_server s = (if sc_Weight s \<le> 0 then s\<lparr>sc_Weight := 1\<rparr> else s)"

definition defaults_healthCheck :: "healthCheckConfig \<Rightarrow> healthCheckConfig" where
  "defaults_healthCheck h = h\<lparr>
     hc_Interval := (if hc_Interval h \<le> 0 then 10 * Second else hc_Interval h),
     hc_Timeout := (if hc_Timeout h \<le> 0 then 2 * Second else hc_Timeout h)\<rparr>"

definition defaults_backend :: "backendConfig \<Rightarrow> backendConfig" where
  "defaults_backend b = b\<lparr>
     bc_LoadBalance := (if bc_LoadBalance b = '''' then ''round_robin'' else bc_LoadBalance b),
     bc_HealthCheck := defaults_healthCheck (bc_HealthCheck b),
     bc_Servers := map defaults_server (bc_Servers b)\<rparr>"

definition defaults :: "config \<Rightarrow> config" where
  "defaults c = c\<lparr>c_Global := defaults_global (c_Global c),
     c_Frontends := map defaults_frontend (c_Frontends c),
     c_Backends := map defaults_backend (c_Backends c)\<rparr>"

section \<open>Validation\<close>

datatype configError =
    NoFrontends
  | NoBackends
  | BackendNameEmpty
  | BackendNoServers string
  | UnknownLoadBalance string string
  | ServerAddressEmpty string
  | DuplicateBackend string
  | FrontendNameEmpty
  | ListenEmpty string
  | FrontendBackendEmpty string
  | UnknownBackend string string
  | BadPriority string string
  | DuplicateFrontend string

definition known_algorithm :: "string \<Rightarrow> bool" where
  "known_algorithm a \<longleftrightarrow> a \<in> {''round_robin'', ''least_conn'', ''random'', ''hash''}"

fun validate_backends :: "backendConfig list \<Rightarrow> string set \<Rightarrow> configError + string set" where
  "validate_backends [] names = Inr names"
| "validate_backends (b # bs) names =
     (if bc_Name b = '''' then Inl BackendNameEmpty
      else if bc_Servers b = [] then Inl (BackendNoServers (bc_Name b))
      else if \<not> known_algorithm (bc_LoadBalance b)
        then Inl (UnknownLoadBalance (bc_Name b) (bc_LoadBalance b))
      else if list_ex (\<lambda>s. sc_Address s = '''') (bc_Servers b)
        then Inl (ServerAddressEmpty (bc_Name b))
      else if bc_Name b \<in> names then Inl (DuplicateBackend (bc_Name b))
      else validate_backends bs (insert (bc_Name b) names))"

fun validate_frontends ::
  "string set \<Rightarrow> frontendConfig list \<Rightarrow> string set \<Rightarrow> configError + unit" where
  "validate_frontends backendNames [] names = Inr ()"
| "validate_frontends backendNames (f # fs) names =
     (if fc_Name f = '''' then Inl FrontendNameEmpty
      else if fc_Listen f = '''' then Inl (ListenEmpty (fc_Name f))
      else if fc_Backend f = '''' then Inl (FrontendBackendEmpty (fc_Name f))
      else if fc_Backend f \<notin> backendNames
        then Inl (UnknownBackend (fc_Name f) (fc_Backend f))
      else case ParsePriority (fc_Priority f) of
        Inl e \<Rightarrow> Inl (BadPriority (fc_Name f) e)
      | Inr _ \<Rightarrow>
          if fc_Name f \<in> names then Inl (DuplicateFrontend (fc_Name f))
          else validate_frontends backendNames fs (insert (fc_Name f) names))"

definition validate :: "config \<Rightarrow> configError + unit" where
  "validate c =
     (if c_Frontends c = [] then Inl NoFrontends
      else if c_Backends c = [] then Inl NoBackends
      else case validate_backends (c_Backends c) {} of
        Inl e \<Rightarrow> Inl e
      | Inr backendNames \<Rightarrow> validate_frontends backendNames (c_Frontends c) {})"

section \<open>Parse and Load\<close>

datatype loadError = ReadError string | YamlError string | InvalidConfig configError

text \<open>\<open>unmarshal\<close> is \<^verbatim>\<open>yaml.Unmarshal\<close>, \<open>read_file\<close> is \<^verbatim>\<open>os.ReadFile\<close>.\<close>

definition Parse :: "('data \<Rightarrow> string + config) \<Rightarrow> 'data \<Rightarrow> loadError + config" where
  "Parse unmarshal data =
     (case unmarshal data of
        Inl e \<Rightarrow> Inl (YamlError e)
      | Inr cfg0 \<Rightarrow>
          (let cfg = defaults cfg0 in
           case validate cfg of Inl e \<Rightarrow> Inl (InvalidConfig e) | Inr _ \<Rightarrow> Inr cfg))"

definition Load ::
  "(string \<Rightarrow> string + 'data) \<Rightarrow> ('data \<Rightarrow> string + config) \<Rightarrow> string \<Rightarrow> loadError + config" where
  "Load read_file unmarshal path =
     (case read_file path of Inl e \<Rightarrow> Inl (ReadError e) | Inr data \<Rightarrow> Parse unmarshal data)"

section \<open>What validation accepts\<close>

definition backend_valid :: "backendConfig \<Rightarrow> bool" where
  "backend_valid b \<longleftrightarrow> bc_Name b \<noteq> '''' \<and> bc_Servers b \<noteq> [] \<and> known_algorithm (bc_LoadBalance b) \<and>
     (\<forall>s \<in> set (bc_Servers b). sc_Address s \<noteq> '''')"

definition frontend_valid :: "string set \<Rightarrow> frontendConfig \<Rightarrow> bool" where
  "frontend_valid backendNames f \<longleftrightarrow> fc_Name f \<noteq> '''' \<and> fc_Listen f \<noteq> '''' \<and> fc_Backend f \<noteq> '''' \<and>
     fc_Backend f \<in> backendNames \<and> (\<exists>p. ParsePriority (fc_Priority f) = Inr p)"

definition valid_config :: "config \<Rightarrow> bool" where
  "valid_config c \<longleftrightarrow> c_Frontends c \<noteq> [] \<and> c_Backends c \<noteq> [] \<and>
     (\<forall>b \<in> set (c_Backends c). backend_valid b) \<and> distinct (map bc_Name (c_Backends c)) \<and>
     (\<forall>f \<in> set (c_Frontends c). frontend_valid (bc_Name ` set (c_Backends c)) f) \<and>
     distinct (map fc_Name (c_Frontends c))"

lemma validate_backends_iff:
  "validate_backends bs names = Inr r \<longleftrightarrow>
     (\<forall>b \<in> set bs. backend_valid b) \<and> distinct (map bc_Name bs) \<and>
     bc_Name ` set bs \<inter> names = {} \<and> r = names \<union> bc_Name ` set bs"
proof (induction bs arbitrary: names)
  case Nil
  then show ?case by auto
next
  case (Cons b bs)
  show ?case
    by (auto simp: Cons.IH backend_valid_def list_ex_iff)
qed

lemma validate_frontends_iff:
  "validate_frontends bn fs names = Inr () \<longleftrightarrow>
     (\<forall>f \<in> set fs. frontend_valid bn f) \<and> distinct (map fc_Name fs) \<and> fc_Name ` set fs \<inter> names = {}"
proof (induction fs arbitrary: names)
  case Nil
  then show ?case by simp
next
  case (Cons f fs)
  show ?case
    by (cases "ParsePriority (fc_Priority f)") (auto simp: Cons.IH frontend_valid_def)
qed

lemma validate_iff: "validate c = Inr () \<longleftrightarrow> valid_config c"
proof -
  have "validate c = Inr () \<longleftrightarrow> c_Frontends c \<noteq> [] \<and> c_Backends c \<noteq> [] \<and>
      (\<exists>r. validate_backends (c_Backends c) {} = Inr r \<and> validate_frontends r (c_Frontends c) {} = Inr ())"
    by (auto simp: validate_def split: sum.splits)
  then show ?thesis by (auto simp: validate_backends_iff validate_frontends_iff valid_config_def)
qed

text \<open>C24: validation is exact.  \<^verbatim>\<open>validate\<close> accepts a configuration if and only if there are
  frontends and backends, all required fields are present, every algorithm and priority is
  known, the names are unique, and every frontend names an existing backend.\<close>

theorem validate_exact: "validate c = Inr () \<longleftrightarrow> valid_config c"
  by (rule validate_iff)

section \<open>What a loaded configuration guarantees\<close>

text \<open>The fields that \<^verbatim>\<open>defaults\<close> fills in.\<close>

definition defaulted_backend :: "backendConfig \<Rightarrow> bool" where
  "defaulted_backend b \<longleftrightarrow> bc_LoadBalance b \<noteq> '''' \<and> 0 < hc_Interval (bc_HealthCheck b) \<and>
     0 < hc_Timeout (bc_HealthCheck b) \<and> (\<forall>s \<in> set (bc_Servers b). 0 < sc_Weight s)"

definition defaulted :: "config \<Rightarrow> bool" where
  "defaulted c \<longleftrightarrow> (let g = c_Global c in
     0 < g_MaxPacketSize g \<and> 0 < g_WorkerThreads g \<and> 0 < g_SessionTimeout g \<and>
     0 < g_SessionCleanupInterval g \<and> g_LogLevel g \<noteq> '''' \<and> g_MetricsAddr g \<noteq> '''') \<and>
     (\<forall>f \<in> set (c_Frontends c). fc_Priority f \<noteq> '''') \<and> (\<forall>b \<in> set (c_Backends c). defaulted_backend b)"

lemma defaulted_defaults_backend: "bc_LoadBalance (defaults_backend b) \<noteq> [] \<and> defaulted_backend (defaults_backend b)"
  by (simp add: defaulted_backend_def defaults_backend_def defaults_healthCheck_def)
    (auto simp: defaults_server_def)

lemma defaulted_defaults: "defaulted (defaults c)"
  by (simp add: defaulted_def defaults_def defaulted_defaults_backend)
    (simp add: defaults_global_def defaults_frontend_def Priority_String_def Let_def)

lemma defaults_server_fixed: "0 < sc_Weight s \<Longrightarrow> defaults_server s = s"
  by (simp add: defaults_server_def)

lemma defaults_backend_fixed: "defaulted_backend b \<Longrightarrow> defaults_backend b = b"
  by (simp add: defaulted_backend_def defaults_backend_def defaults_healthCheck_def map_idI defaults_server_fixed)

lemma defaults_fixed: "defaulted c \<Longrightarrow> defaults c = c"
proof -
  assume d: "defaulted c"
  have "defaults_global (c_Global c) = c_Global c"
    using d by (simp add: defaulted_def defaults_global_def Let_def)
  moreover have "map defaults_frontend (c_Frontends c) = c_Frontends c"
    using d by (intro map_idI) (auto simp: defaulted_def defaults_frontend_def)
  moreover have "map defaults_backend (c_Backends c) = c_Backends c"
    using d by (intro map_idI defaults_backend_fixed) (auto simp: defaulted_def)
  ultimately show ?thesis by (simp add: defaults_def)
qed

text \<open>C25: a loaded configuration is valid and has its defaults.  Whatever YAML decodes to, a configuration that
  \<^verbatim>\<open>Parse\<close> returns passes validation and is a fixed point of \<^verbatim>\<open>defaults\<close>: the global maximum packet
  size, the worker threads, the session timeout and its cleanup interval, the interval and
  timeout of every health check and every server's weight are positive, and the log level, the
  metrics address, every frontend's priority and every backend's algorithm are not empty.  The
  other numbers (a frontend's own packet size and session cap, socket buffers, rates and bursts)
  have no default and may be zero.\<close>

theorem Parse_complete:
  assumes "Parse unmarshal data = Inr cfg"
  shows "valid_config cfg \<and> defaulted cfg \<and> defaults cfg = cfg"
proof -
  from assms obtain c where "unmarshal data = Inr c" "cfg = defaults c" "validate (defaults c) = Inr ()"
    by (auto simp: Parse_def Let_def split: sum.splits)
  then show ?thesis using defaulted_defaults defaults_fixed by (simp add: validate_iff)
qed

definition test_shaping :: trafficShapingConfig where
  "test_shaping = \<lparr>ts_Enabled = False, ts_PacketsPerSecond = 0, ts_BytesPerSecond = 0,
     ts_BurstPackets = 0, ts_BurstBytes = 0\<rparr>"

text \<open>The smallest configuration file: one frontend, one backend with two servers.\<close>

definition test_config :: config where
  "test_config = \<lparr>
     c_Global = \<lparr>g_MaxPacketSize = 0, g_WorkerThreads = 0, g_SessionTimeout = 0,
       g_SessionCleanupInterval = 0, g_LogLevel = '''', g_MetricsAddr = '''',
       g_Socket = \<lparr>so_RcvBuf = 0, so_SndBuf = 0, so_ReusePort = False\<rparr>,
       g_TrafficShaping = test_shaping,
       g_ClientLimits = \<lparr>cc_PacketsPerSecond = 0, cc_BurstPackets = 0\<rparr>,
       g_AbuseProtection = \<lparr>ac_Enabled = False, ac_MaxPacketsPerSecondPerIP = 0, ac_MaxSessionsPerIP = 0\<rparr>,
       g_Fragmentation = \<lparr>fr_DropFragments = False\<rparr>\<rparr>,
     c_Frontends = [\<lparr>fc_Name = ''game'', fc_Listen = ''0.0.0.0:27015'', fc_Backend = ''pool'',
       fc_SessionAffinity = True, fc_MaxSessions = 0, fc_MaxPacketSize = 0, fc_Priority = '''',
       fc_TrafficShaping = test_shaping\<rparr>],
     c_Backends = [\<lparr>bc_Name = ''pool'', bc_LoadBalance = '''',
       bc_HealthCheck = \<lparr>hc_Enabled = False, hc_Interval = 0, hc_Timeout = 0\<rparr>,
       bc_Servers = [\<lparr>sc_Address = ''10.0.0.10:27015'', sc_Weight = 0\<rparr>,
                     \<lparr>sc_Address = ''10.0.0.11:27015'', sc_Weight = 3\<rparr>],
       bc_TrafficShaping = test_shaping\<rparr>]\<rparr>"

lemma test_config_Parse: "Parse Inr test_config = Inr (defaults test_config)"
proof -
  have "ParsePriority ''normal'' = Inr PriorityNormal"
    using Parse_String [of PriorityNormal] by (simp add: valid_priority_cases Priority_String_def priority_defs)
  then have "valid_config (defaults test_config)"
    by (auto simp: test_config_def defaults_def defaults_frontend_def defaults_backend_def valid_config_def
        backend_valid_def frontend_valid_def known_algorithm_def defaults_server_def Priority_String_def priority_defs)
  then have "validate (defaults test_config) = Inr ()" by (simp add: validate_iff)
  then show ?thesis by (simp add: Parse_def)
qed

theorem Parse_complete_witness:
  "valid_config (defaults test_config) \<and> defaulted (defaults test_config) \<and>
   defaults (defaults test_config) = defaults test_config"
  using Parse_complete [OF test_config_Parse] .

section \<open>Byte sizes, printed and parsed\<close>

text \<open>The units the documentation names, with their factors.\<close>

definition size_units :: "(string \<times> int) list" where
  "size_units = [('''', 1), (''B'', 1), (''KB'', 10 ^ 3), (''MB'', 10 ^ 6), (''GB'', 10 ^ 9), (''TB'', 10 ^ 12),
     (''KiB'', 2 ^ 10), (''MiB'', 2 ^ 20), (''GiB'', 2 ^ 30), (''TiB'', 2 ^ 40)]"

lemma wrap64_mult_left: "wrap64 (wrap64 a * b) = wrap64 (a * b)"
proof -
  have "wrap64 a mod 2 ^ 64 = a mod 2 ^ 64" unfolding wrap64_def by (simp add: mod_diff_left_eq)
  then have "(wrap64 a * b) mod 2 ^ 64 = (a * b) mod 2 ^ 64" by (metis mod_mult_left_eq)
  then have "(wrap64 a * b + 2 ^ 63) mod 2 ^ 64 = (a * b + 2 ^ 63) mod 2 ^ 64" by (metis mod_add_left_eq)
  then show ?thesis by (simp add: wrap64_def)
qed

lemma mul64_mul64: "mul64 (mul64 n a) b = mul64 n (a * b)"
  by (simp add: mul64_def wrap64_mult_left mult.assoc)

lemma digit_graphic: "digit_val c \<noteq> None \<Longrightarrow> graphic c \<and> \<not> is_letter c"
  by (auto simp: digit_val_def graphic_def is_letter_def Let_def split: if_splits)

lemma letter_graphic: "is_letter c \<Longrightarrow> graphic c"
  by (auto simp: graphic_def is_letter_def Let_def)

lemma show_int_not_Nil [simp]: "show_int n \<noteq> []"
  by (simp add: show_int_def)

lemma show_int_last: "graphic (last (show_int n))" "\<not> is_letter (last (show_int n))"
  using digit_graphic [OF show_nat_digits [OF last_in_set]] by (simp_all add: show_int_def)

lemma show_int_hd: "graphic (hd (show_int n))"
proof (cases "n < 0")
  case True
  then show ?thesis by (simp add: show_int_def graphic_def)
next
  case False
  then show ?thesis using digit_graphic [OF show_nat_digits [OF hd_in_set, of "nat n"]]
    by (simp add: show_int_def)
qed

lemma takeWhile_letters:
  assumes "list_all is_letter u"
  shows "takeWhile is_letter (rev (show_int n @ u)) = rev u"
proof -
  have "takeWhile is_letter (rev (show_int n)) = []"
    using show_int_last(2) [of n] by (cases "show_int n" rule: rev_cases) auto
  moreover have "takeWhile is_letter (rev u @ rev (show_int n)) = rev u @ takeWhile is_letter (rev (show_int n))"
    using assms by (intro takeWhile_append2) (auto simp: list_all_iff)
  ultimately show ?thesis by simp
qed

lemma size_units_letters: "(u, f) \<in> set size_units \<Longrightarrow> list_all is_letter u"
  by (auto simp: size_units_def is_letter_def)

lemma TrimSpace_show_int: "list_all is_letter u \<Longrightarrow> TrimSpace (show_int n @ u) = show_int n @ u"
  using show_int_hd [of n] show_int_last(1) [of n]
  by (intro TrimSpace_graphic) (auto simp: last_append list_all_iff intro!: letter_graphic)

lemma TrimSpace_letters: "list_all is_letter u \<Longrightarrow> TrimSpace u = u"
  by (intro TrimSpace_graphic) (auto simp: list_all_iff neq_Nil_conv intro!: letter_graphic)

lemma ToUpper_units:
  "ToUpper ''B'' = ''B''" "ToUpper ''KB'' = ''KB''" "ToUpper ''MB'' = ''MB''" "ToUpper ''GB'' = ''GB''"
  "ToUpper ''TB'' = ''TB''" "ToUpper ''KiB'' = ''KIB''" "ToUpper ''MiB'' = ''MIB''"
  "ToUpper ''GiB'' = ''GIB''" "ToUpper ''TiB'' = ''TIB''"
  by code_simp+

lemma scaleUnit_units: "(u, f) \<in> set size_units \<Longrightarrow> in_int64 n \<Longrightarrow> scaleUnit (ToUpper u) n = Inr (wrap64 (n * f))"
  unfolding size_units_def
  by (auto simp: ToUpper_units, simp_all add: ToUpper_def scaleUnit_def mul64_mul64, simp_all add: mul64_def)

lemma parseByteSize_split:
  assumes "list_all is_letter u" "in_int64 n"
  shows "parseByteSize (show_int n @ u) = scaleUnit (ToUpper u) n"
  using assms(2) TrimSpace_show_int [of "[]" n]
  by (simp add: parseByteSize_def TrimSpace_show_int [OF assms(1)] takeWhile_letters [OF assms(1)]
      TrimSpace_letters [OF assms(1)] ParseInt_show_int del: rev_append)

text \<open>C26: byte sizes.  A decimal \<^verbatim>\<open>int64\<close> followed by one of the documented units is parsed
  to the number times the unit's factor, in the 64-bit arithmetic of the code: exactly that
  product when it fits an \<^verbatim>\<open>int64\<close>.\<close>

theorem parseByteSize_units:
  assumes "in_int64 n" and "(u, f) \<in> set size_units"
  shows "parseByteSize (show_int n @ u) = Inr (wrap64 (n * f)) \<and>
         (in_int64 (n * f) \<longrightarrow> parseByteSize (show_int n @ u) = Inr (n * f))"
  using parseByteSize_split [OF size_units_letters [OF assms(2)] assms(1)] scaleUnit_units [OF assms(2,1)]
  by simp

theorem parseByteSize_units_witness: "parseByteSize ''200MB'' = Inr 200000000"
proof -
  have "show_int 200 = ''200''" by code_simp
  then show ?thesis using parseByteSize_units [of 200 "''MB''" "10 ^ 6"]
    by (simp add: in_int64_def size_units_def)
qed

end
