(* ===== verification/Backend.thy ===== *)
theory Backend
  imports Config Netip
begin

text \<open>
  \<^verbatim>\<open>src/internal/backend/backend.go\<close>: server pools and load balancing.  \<^verbatim>\<open>*Server\<close> pointers
  are indices into the pool's \<^verbatim>\<open>servers\<close> slice, which never changes after \<^verbatim>\<open>NewPool\<close>;
  \<^verbatim>\<open>serverMap\<close> maps an address to such an index.  The logger is left out.  \<open>intn\<close> is
  \<^verbatim>\<open>rand.Intn\<close>; the address parser and the resolver are parameters of \<^verbatim>\<open>NewPool\<close>.
\<close>

section \<open>Servers and pools\<close>

record server =
  srv_Address :: string
  srv_Weight :: int
  srv_Healthy :: bool
  srv_connCount :: "64 word"
  srv_addrPort :: addrport

record pool =
  p_servers :: "server list"
  p_serverMap :: "string \<rightharpoonup> nat"
  p_name :: string
  p_algorithm :: string
  p_rrIndex :: "64 word"

definition update_server :: "nat \<Rightarrow> (server \<Rightarrow> server) \<Rightarrow> pool \<Rightarrow> pool" where
  "update_server i f p = p\<lparr>p_servers := (p_servers p)[i := f (p_servers p ! i)]\<rparr>"

definition IncrConns :: "nat \<Rightarrow> pool \<Rightarrow> pool" where
  "IncrConns i = update_server i (\<lambda>s. s\<lparr>srv_connCount := srv_connCount s + 1\<rparr>)"

definition DecrConns :: "nat \<Rightarrow> pool \<Rightarrow> pool" where
  "DecrConns i = update_server i (\<lambda>s. s\<lparr>srv_connCount := srv_connCount s - 1\<rparr>)"

definition ConnCount :: "server \<Rightarrow> int" where
  "ConnCount s = sint (srv_connCount s)"

section \<open>Construction\<close>

datatype poolError = ResolveError string string | InvalidIP string string

text \<open>
  The outside world of \<^verbatim>\<open>resolveAddrPort\<close>: \<^verbatim>\<open>netip.ParseAddrPort\<close>
  and \<^verbatim>\<open>net.ResolveUDPAddr\<close> (the IP bytes it finds and a port).
\<close>

record resolver =
  parseAddrPort :: "string \<Rightarrow> addrport option"
  resolveUDPAddr :: "string \<Rightarrow> (byte list \<times> int) option"

definition resolveAddrPort :: "resolver \<Rightarrow> string \<Rightarrow> string \<Rightarrow> poolError + addrport" where
  "resolveAddrPort R name a =
     (case parseAddrPort R a of
        Some ap \<Rightarrow> Inr ap
      | None \<Rightarrow>
          (case resolveUDPAddr R a of
             None \<Rightarrow> Inl (ResolveError name a)
           | Some (ip, port) \<Rightarrow>
               (case AddrFromSlice ip of
                  None \<Rightarrow> Inl (InvalidIP name a)
                | Some x \<Rightarrow> Inr \<lparr>ap_addr = Unmap x, ap_port = word_of_int port\<rparr>)))"

definition NewServer :: "serverConfig \<Rightarrow> addrport \<Rightarrow> server" where
  "NewServer sc ap = \<lparr>srv_Address = sc_Address sc, srv_Weight = sc_Weight sc, srv_Healthy = True,
     srv_connCount = 0, srv_addrPort = ap\<rparr>"

definition add_server :: "pool \<Rightarrow> server \<Rightarrow> pool" where
  "add_server p s = p\<lparr>p_servers := p_servers p @ [s],
     p_serverMap := (p_serverMap p)(srv_Address s \<mapsto> length (p_servers p))\<rparr>"

fun add_servers :: "resolver \<Rightarrow> serverConfig list \<Rightarrow> pool \<Rightarrow> poolError + pool" where
  "add_servers R [] p = Inr p"
| "add_servers R (sc # scs) p =
     (case resolveAddrPort R (p_name p) (sc_Address sc) of
        Inl e \<Rightarrow> Inl e
      | Inr ap \<Rightarrow> add_servers R scs (add_server p (NewServer sc ap)))"

definition NewPool :: "resolver \<Rightarrow> backendConfig \<Rightarrow> poolError + pool" where
  "NewPool R cfg = add_servers R (bc_Servers cfg)
     \<lparr>p_servers = [], p_serverMap = Map.empty, p_name = bc_Name cfg,
      p_algorithm = bc_LoadBalance cfg, p_rrIndex = 0\<rparr>"

section \<open>Lookups\<close>

definition ServerByAddr :: "pool \<Rightarrow> string \<Rightarrow> nat option" where
  "ServerByAddr p a = p_serverMap p a"

fun find_index :: "('a \<Rightarrow> bool) \<Rightarrow> 'a list \<Rightarrow> nat option" where
  "find_index P [] = None"
| "find_index P (x # xs) = (if P x then Some 0 else map_option Suc (find_index P xs))"

definition ServerByAddrPort :: "pool \<Rightarrow> addrport \<Rightarrow> nat option" where
  "ServerByAddrPort p ap = find_index (\<lambda>s. srv_addrPort s = addrport_unmap ap) (p_servers p)"

section \<open>Load balancing\<close>

definition eligible :: "server \<Rightarrow> bool" where
  "eligible s \<longleftrightarrow> srv_Healthy s \<and> srv_Weight s > 0"

definition totalWeight :: "server list \<Rightarrow> int" where
  "totalWeight ss = foldl (\<lambda>t s. if eligible s then wrap64 (t + srv_Weight s) else t) 0 ss"

fun weightedIndex :: "server list \<Rightarrow> int \<Rightarrow> nat option" where
  "weightedIndex [] idx = None"
| "weightedIndex (s # ss) idx =
     (if \<not> eligible s then map_option Suc (weightedIndex ss idx)
      else if idx < srv_Weight s then Some 0
      else map_option Suc (weightedIndex ss (idx - srv_Weight s)))"

definition pickHealthyByWeightedIndex :: "server list \<Rightarrow> int \<Rightarrow> nat option" where
  "pickHealthyByWeightedIndex ss idx =
     (case weightedIndex ss idx of Some i \<Rightarrow> Some i | None \<Rightarrow> find_index srv_Healthy ss)"

definition leastConn :: "server list \<Rightarrow> nat option" where
  "leastConn ss = foldl (\<lambda>best i.
       if \<not> srv_Healthy (ss ! i) then best
       else (case best of None \<Rightarrow> Some i
             | Some j \<Rightarrow> if ConnCount (ss ! i) < ConnCount (ss ! j) then Some i else best))
     None [0..<length ss]"

definition fnv1aString :: "string \<Rightarrow> 32 word" where
  "fnv1aString s = foldl (\<lambda>h c. fnv_step h (of_char c)) fnv_offset s"

text \<open>
  \<^verbatim>\<open>Pick\<close> returns an error, or a pointer that may be \<^verbatim>\<open>nil\<close>; \<^verbatim>\<open>rand.Intn\<close> panics on a
  non-positive argument.
\<close>

datatype pickResult = PickErr | PickPanic | Picked "nat option"

definition pick_round_robin :: "pool \<Rightarrow> int \<Rightarrow> pickResult \<times> pool" where
  "pick_round_robin p tw =
     (let p' = p\<lparr>p_rrIndex := p_rrIndex p + 1\<rparr>;
          idx = sint (p_rrIndex p' - 1) smod tw
      in (Picked (pickHealthyByWeightedIndex (p_servers p) idx), p'))"

definition Pick_select :: "(int \<Rightarrow> int) \<Rightarrow> pool \<Rightarrow> int \<Rightarrow> string \<Rightarrow> pickResult \<times> pool" where
  "Pick_select intn p tw clientIP =
     (if p_algorithm p = ''round_robin'' then pick_round_robin p tw
      else if p_algorithm p = ''least_conn'' then (Picked (leastConn (p_servers p)), p)
      else if p_algorithm p = ''random''
        then (if tw \<le> 0 then (PickPanic, p)
              else (Picked (pickHealthyByWeightedIndex (p_servers p) (intn tw)), p))
      else if p_algorithm p = ''hash''
        then (Picked (pickHealthyByWeightedIndex (p_servers p) (uint (fnv1aString clientIP) smod tw)), p)
      else pick_round_robin p tw)"

definition Pick :: "(int \<Rightarrow> int) \<Rightarrow> pool \<Rightarrow> string \<Rightarrow> pickResult \<times> pool" where
  "Pick intn p clientIP =
     (let tw = totalWeight (p_servers p) in
      if tw = 0 then (PickErr, p) else Pick_select intn p tw clientIP)"

section \<open>Health\<close>

definition SetHealthy :: "string \<Rightarrow> bool \<Rightarrow> pool \<Rightarrow> pool" where
  "SetHealthy a healthy p =
     (case p_serverMap p a of
        None \<Rightarrow> p
      | Some i \<Rightarrow> update_server i (\<lambda>s. s\<lparr>srv_Healthy := healthy\<rparr>) p)"

section \<open>The weight-expanded list\<close>

text \<open>The list the comment on \<^verbatim>\<open>pickHealthyByWeightedIndex\<close> speaks of: each eligible server's
  index, as often as its weight says.\<close>

fun expand :: "server list \<Rightarrow> nat list" where
  "expand [] = []"
| "expand (s # ss) =
     (if eligible s then replicate (nat (srv_Weight s)) 0 else []) @ map Suc (expand ss)"

definition weights_fit :: "server list \<Rightarrow> bool" where
  "weights_fit ss \<longleftrightarrow> int (length (expand ss)) < 2 ^ 63"

lemma weightedIndex_expand:
  "0 \<le> idx \<Longrightarrow> idx < int (length (expand ss)) \<Longrightarrow> weightedIndex ss idx = Some (expand ss ! nat idx)"
proof (induction ss arbitrary: idx)
  case Nil
  then show ?case by simp
next
  case (Cons s ss)
  show ?case
  proof (cases "eligible s \<and> idx < srv_Weight s")
    case True
    with Cons.prems show ?thesis by (simp add: nth_append)
  next
    case False
    let ?w = "if eligible s then srv_Weight s else 0"
    have "0 \<le> ?w" by (auto simp: eligible_def)
    moreover have "0 \<le> idx - ?w" "idx - ?w < int (length (expand ss))"
      using False Cons.prems by (auto simp: eligible_def split: if_splits)
    ultimately show ?thesis using Cons.IH [of "idx - ?w"] False
      by (auto simp: nth_append nat_diff_distrib eligible_def split: if_splits)
  qed
qed

lemma weightedIndex_eligible:
  "weightedIndex ss idx = Some i \<Longrightarrow> i < length ss \<and> eligible (ss ! i)"
  by (induction ss arbitrary: idx i) (auto split: if_splits)

lemma set_expand: "set (expand ss) = {i. i < length ss \<and> eligible (ss ! i)}"
proof (induction ss)
  case Nil
  then show ?case by simp
next
  case (Cons s ss)
  have "{i. i < length (s # ss) \<and> eligible ((s # ss) ! i)} =
      (if eligible s then {0} else {}) \<union> Suc ` {i. i < length ss \<and> eligible (ss ! i)}"
    by (auto simp: nth_Cons' image_iff) (metis Suc_pred not_less_eq gr0I)+
  then show ?case by (simp add: Cons.IH) (auto simp: eligible_def)
qed

lemma count_list_map_Suc: "count_list (map Suc xs) i = (case i of 0 \<Rightarrow> 0 | Suc j \<Rightarrow> count_list xs j)"
  by (induction xs) (auto split: nat.splits)

lemma count_list_replicate: "count_list (replicate n x) y = (if x = y then n else 0)"
  by (induction n) auto

lemma count_expand:
  "i < length ss \<Longrightarrow>
     count_list (expand ss) i = (if eligible (ss ! i) then nat (srv_Weight (ss ! i)) else 0)"
  by (induction ss arbitrary: i) (auto simp: count_list_map_Suc count_list_replicate nth_Cons' split: nat.splits)

lemma totalWeight_acc:
  "0 \<le> t \<Longrightarrow> t + int (length (expand ss)) < 2 ^ 63 \<Longrightarrow>
     foldl (\<lambda>t s. if eligible s then wrap64 (t + srv_Weight s) else t) t ss = t + int (length (expand ss))"
proof (induction ss arbitrary: t)
  case Nil
  then show ?case by simp
next
  case (Cons s ss)
  show ?case
  proof (cases "eligible s")
    case True
    then have "in_int64 (t + srv_Weight s)" using Cons.prems by (auto simp: in_int64_def eligible_def)
    with True show ?thesis using Cons.IH [of "t + srv_Weight s"] Cons.prems by (simp add: eligible_def)
  next
    case False
    with Cons show ?thesis by simp
  qed
qed

lemma totalWeight_expand: "weights_fit ss \<Longrightarrow> totalWeight ss = int (length (expand ss))"
  by (simp add: totalWeight_def weights_fit_def totalWeight_acc)

lemma totalWeight_none: "\<forall>s \<in> set ss. \<not> eligible s \<Longrightarrow> totalWeight ss = 0"
proof -
  have "\<forall>s \<in> set ss. \<not> eligible s \<Longrightarrow>
      foldl (\<lambda>t s. if eligible s then wrap64 (t + srv_Weight s) else t) t ss = t" for t
    by (induction ss) auto
  then show "\<forall>s \<in> set ss. \<not> eligible s \<Longrightarrow> totalWeight ss = 0" by (simp add: totalWeight_def)
qed

section \<open>Search loops\<close>

lemma find_index_Some:
  "find_index P xs = Some i \<longleftrightarrow> i < length xs \<and> P (xs ! i) \<and> (\<forall>j < i. \<not> P (xs ! j))"
proof (induction xs arbitrary: i)
  case Nil
  then show ?case by simp
next
  case (Cons x xs)
  then show ?case by (cases i) (auto simp: nth_Cons' less_Suc_eq_0_disj)
qed

lemma find_index_None: "find_index P xs = None \<longleftrightarrow> (\<forall>x \<in> set xs. \<not> P x)"
  by (induction xs) auto

text \<open>The running best of \<^verbatim>\<open>leastConn\<close> over the first servers.\<close>

definition least_of :: "server list \<Rightarrow> nat \<Rightarrow> nat option \<Rightarrow> bool" where
  "least_of ss n best \<longleftrightarrow>
     (case best of
        None \<Rightarrow> \<forall>j < n. \<not> srv_Healthy (ss ! j)
      | Some i \<Rightarrow> i < n \<and> srv_Healthy (ss ! i) \<and>
          (\<forall>j < n. srv_Healthy (ss ! j) \<longrightarrow> ConnCount (ss ! i) \<le> ConnCount (ss ! j)) \<and>
          (\<forall>j < i. srv_Healthy (ss ! j) \<longrightarrow> ConnCount (ss ! i) < ConnCount (ss ! j)))"

lemma leastConn_prefix:
  "least_of ss n (foldl (\<lambda>best i.
       if \<not> srv_Healthy (ss ! i) then best
       else (case best of None \<Rightarrow> Some i
             | Some j \<Rightarrow> if ConnCount (ss ! i) < ConnCount (ss ! j) then Some i else best))
     None [0..<n])"
proof (induction n)
  case 0
  then show ?case by (simp add: least_of_def)
next
  case (Suc n)
  then show ?case
    by (auto simp: least_of_def less_Suc_eq split: option.splits if_splits)
qed

lemma leastConn_least: "least_of ss (length ss) (leastConn ss)"
  unfolding leastConn_def by (rule leastConn_prefix)

section \<open>Pick\<close>

lemma pickHealthy_some:
  assumes "s \<in> set ss" "eligible s"
  shows "\<exists>i < length ss. pickHealthyByWeightedIndex ss idx = Some i \<and> srv_Healthy (ss ! i)"
proof (cases "weightedIndex ss idx")
  case None
  have "find_index srv_Healthy ss \<noteq> None" using assms by (auto simp: find_index_None eligible_def)
  then show ?thesis using None by (auto simp: pickHealthyByWeightedIndex_def find_index_Some)
next
  case (Some i)
  then show ?thesis using weightedIndex_eligible [OF Some]
    by (auto simp: pickHealthyByWeightedIndex_def eligible_def)
qed

lemma leastConn_some:
  assumes "s \<in> set ss" "eligible s"
  shows "\<exists>i < length ss. leastConn ss = Some i \<and> srv_Healthy (ss ! i)"
  using leastConn_least [of ss] assms
  by (auto simp: least_of_def eligible_def in_set_conv_nth split: option.splits)

lemma totalWeight_nonzero: "totalWeight ss \<noteq> 0 \<Longrightarrow> \<exists>s \<in> set ss. eligible s"
  using totalWeight_none by blast

lemma snd_Pick: "snd (Pick intn p ip) = p \<or> snd (Pick intn p ip) = p\<lparr>p_rrIndex := p_rrIndex p + 1\<rparr>"
  by (simp add: Pick_def Pick_select_def pick_round_robin_def Let_def)

lemma Pick_frame [simp]:
  "p_servers (snd (Pick intn p ip)) = p_servers p"
  "p_serverMap (snd (Pick intn p ip)) = p_serverMap p"
  "p_name (snd (Pick intn p ip)) = p_name p"
  "p_algorithm (snd (Pick intn p ip)) = p_algorithm p"
  using snd_Pick [of intn p ip] by auto

lemma Pick_index:
  assumes "fst (Pick intn p ip) = Picked r"
  shows "\<exists>i < length (p_servers p). r = Some i \<and> srv_Healthy (p_servers p ! i)"
proof -
  from assms have "totalWeight (p_servers p) \<noteq> 0" by (auto simp: Pick_def Pick_select_def)
  then obtain s where s: "s \<in> set (p_servers p)" "eligible s" using totalWeight_nonzero by blast
  from assms show ?thesis
    using pickHealthy_some [OF s] leastConn_some [OF s]
    by (auto simp: Pick_def Pick_select_def pick_round_robin_def Let_def split: if_splits)
qed

text \<open>
  What the frontend relies on in a load balancer: it never changes the servers, and what it
  picks is a healthy server of the pool.
\<close>

fun pick_run :: "('p \<Rightarrow> 'c \<Rightarrow> pickResult \<times> 'p) \<Rightarrow> 'p \<Rightarrow> 'c list \<Rightarrow> pickResult list \<times> 'p" where
  "pick_run pick p [] = ([], p)"
| "pick_run pick p (c # cs) = (let (r, p') = pick p c; (rs, q) = pick_run pick p' cs in (r # rs, q))"

locale balancer =
  fixes pick :: "'p \<Rightarrow> 'c \<Rightarrow> pickResult \<times> 'p" and servers :: "'p \<Rightarrow> server list"
  assumes pick_servers: "servers (snd (pick p c)) = servers p"
    and pick_healthy: "fst (pick p c) = Picked r \<Longrightarrow>
      \<exists>i < length (servers p). r = Some i \<and> srv_Healthy (servers p ! i)"
begin

lemma run_servers: "servers (snd (pick_run pick p cs)) = servers p"
  by (induction cs arbitrary: p) (auto simp: split_beta pick_servers)

lemma run_healthy:
  "Picked r \<in> set (fst (pick_run pick p cs)) \<Longrightarrow>
     \<exists>i < length (servers p). r = Some i \<and> srv_Healthy (servers p ! i)"
proof (induction cs arbitrary: p)
  case Nil
  then show ?case by simp
next
  case (Cons c cs)
  then show ?case
    using pick_healthy [of p c r] Cons.IH [of "snd (pick p c)"] by (auto simp: split_beta pick_servers)
qed

end

interpretation lb: balancer "Pick intn" p_servers for intn
  by unfold_locales (auto intro: Pick_index)

text \<open>Only healthy servers are picked.  Over any run of \<^verbatim>\<open>Pick\<close> calls on a pool, with any
  algorithm, weights, clients and random source, every pick that is not an error is a
  non-\<^verbatim>\<open>nil\<close> server of the pool that is healthy, and the servers themselves are not changed.\<close>

theorem Pick_run_healthy:
  assumes "pick_run (Pick intn) p ips = (rs, q)" and "Picked r \<in> set rs"
  shows "(\<exists>i < length (p_servers p). r = Some i \<and> srv_Healthy (p_servers p ! i)) \<and>
         p_servers q = p_servers p"
  using lb.run_healthy [of r intn p ips] lb.run_servers [of intn p ips] assms by simp

text \<open>A pool of two servers of weights 1 and 3, as in the repository's test.\<close>

definition test_addrport :: "16 word \<Rightarrow> addrport" where
  "test_addrport port = \<lparr>ap_addr = Addr4 0x7F000001, ap_port = port\<rparr>"

definition test_server :: "string \<Rightarrow> int \<Rightarrow> 16 word \<Rightarrow> server" where
  "test_server a w port = \<lparr>srv_Address = a, srv_Weight = w, srv_Healthy = True, srv_connCount = 0,
     srv_addrPort = test_addrport port\<rparr>"

definition test_pool :: "string \<Rightarrow> pool" where
  "test_pool algo = \<lparr>p_servers = [test_server ''127.0.0.1:5001'' 1 5001, test_server ''127.0.0.1:5002'' 3 5002],
     p_serverMap = [''127.0.0.1:5001'' \<mapsto> 0, ''127.0.0.1:5002'' \<mapsto> 1], p_name = ''weighted'',
     p_algorithm = algo, p_rrIndex = 0\<rparr>"

lemmas test_pool_defs = test_pool_def test_server_def test_addrport_def

lemma Pick_PickErr: "weights_fit (p_servers p) \<Longrightarrow>
    fst (Pick intn p ip) = PickErr \<longleftrightarrow> (\<forall>s \<in> set (p_servers p). \<not> eligible s)"
proof -
  assume fit: "weights_fit (p_servers p)"
  have "fst (Pick intn p ip) = PickErr \<longleftrightarrow> totalWeight (p_servers p) = 0"
    by (simp add: Pick_def Pick_select_def pick_round_robin_def Let_def)
  also have "\<dots> \<longleftrightarrow> expand (p_servers p) = []" by (simp add: totalWeight_expand [OF fit])
  also have "\<dots> \<longleftrightarrow> set (expand (p_servers p)) = {}" by simp
  also have "\<dots> \<longleftrightarrow> (\<forall>s \<in> set (p_servers p). \<not> eligible s)"
    unfolding set_expand by (auto simp: all_set_conv_all_nth)
  finally show ?thesis .
qed

text \<open>C29: availability.  As long as the weights of the eligible servers add up to less than
  \<open>2^63\<close>, \<^verbatim>\<open>Pick\<close> never panics, and it fails exactly when no server is both healthy and of
  positive weight.\<close>

theorem Pick_available:
  assumes "weights_fit (p_servers p)"
  shows "fst (Pick intn p ip) \<noteq> PickPanic \<and>
    (fst (Pick intn p ip) = PickErr \<longleftrightarrow> (\<forall>s \<in> set (p_servers p). \<not> eligible s))"
  using Pick_PickErr [OF assms] totalWeight_expand [OF assms]
  by (auto simp: Pick_def Pick_select_def pick_round_robin_def Let_def)

theorem Pick_available_witness:
  "fst (Pick (\<lambda>_. 0) (test_pool ''random'') ''1.2.3.4'') \<noteq> PickPanic \<and>
   fst (Pick (\<lambda>_. 0) (test_pool ''random'') ''1.2.3.4'') \<noteq> PickErr"
  using Pick_available [of "test_pool ''random''" "\<lambda>_. 0" "''1.2.3.4''"]
  by (simp add: test_pool_defs weights_fit_def eligible_def)

section \<open>Weighted round robin is fair\<close>

lemma sint_small: "unat (r :: 64 word) < 2 ^ 63 \<Longrightarrow> sint r = int (unat r)"
proof -
  assume "unat r < 2 ^ 63"
  then have "nat (uint r) < nat (2 ^ 63)" by simp
  then have "uint r < 2 ^ 63" by (subst (asm) nat_less_eq_zless) simp_all
  moreover have "0 \<le> uint r" by simp
  ultimately have "signed_take_bit 63 (uint r) = uint r"
    by (intro signed_take_bit_int_eq_self) (auto intro: order_trans [of _ 0])
  then show "sint r = int (unat r)" by (simp add: sint_uint)
qed

definition round_robin :: "pool \<Rightarrow> bool" where
  "round_robin p \<longleftrightarrow> p_algorithm p \<notin> {''least_conn'', ''random'', ''hash''}"

lemma Pick_round_robin:
  assumes "round_robin p" "weights_fit (p_servers p)" "expand (p_servers p) \<noteq> []"
    "unat (p_rrIndex p) < 2 ^ 63"
  shows "Pick intn p ip =
    (Picked (Some (expand (p_servers p) ! (unat (p_rrIndex p) mod length (expand (p_servers p))))),
     p\<lparr>p_rrIndex := p_rrIndex p + 1\<rparr>)"
proof -
  let ?xs = "expand (p_servers p)" and ?r = "unat (p_rrIndex p)"
  have r: "sint (p_rrIndex p) = int ?r"
    using assms(4) by (rule sint_small)
  have idx: "sint (p_rrIndex p) smod int (length ?xs) = int (?r mod length ?xs)"
    using assms(3) by (simp add: r smod_nonneg_eq zmod_int)
  have "weightedIndex (p_servers p) (int (?r mod length ?xs)) = Some (?xs ! (?r mod length ?xs))"
    using assms(3) by (subst weightedIndex_expand) auto
  then have "pickHealthyByWeightedIndex (p_servers p) (int (?r mod length ?xs)) = Some (?xs ! (?r mod length ?xs))"
    by (simp add: pickHealthyByWeightedIndex_def)
  with assms(1,3) idx show ?thesis
    by (auto simp: Pick_def Pick_select_def pick_round_robin_def round_robin_def totalWeight_expand [OF assms(2)] Let_def)
qed

lemma unat_word64_plus1: "unat (r :: 64 word) < 2 ^ 63 \<Longrightarrow> unat (r + 1) = Suc (unat r)"
  by (subst unat_add_lem [THEN iffD1]) auto

lemma pick_run_round_robin:
  assumes "round_robin p" "weights_fit (p_servers p)" "expand (p_servers p) \<noteq> []"
    "unat (p_rrIndex p) + length ips \<le> 2 ^ 63"
  shows "fst (pick_run (Pick intn) p ips) =
    map (\<lambda>k. Picked (Some (expand (p_servers p) ! ((unat (p_rrIndex p) + k) mod length (expand (p_servers p))))))
      [0..<length ips]"
  using assms
proof (induction ips arbitrary: p)
  case Nil
  then show ?case by simp
next
  case (Cons ip ips)
  let ?p' = "p\<lparr>p_rrIndex := p_rrIndex p + 1\<rparr>"
  have r: "unat (p_rrIndex p) < 2 ^ 63" using Cons.prems(4) by simp
  note pick = Pick_round_robin [OF Cons.prems(1-3) r]
  have "fst (pick_run (Pick intn) ?p' ips) =
      map (\<lambda>k. Picked (Some (expand (p_servers p) ! ((Suc (unat (p_rrIndex p)) + k) mod length (expand (p_servers p))))))
        [0..<length ips]"
    using Cons.IH [of ?p'] Cons.prems unat_word64_plus1 [OF r] by (simp add: round_robin_def)
  then show ?case
    by (simp add: pick split_beta upt_conv_Cons flip: map_Suc_upt del: upt_Suc)
qed

lemma map_nth_mod_rotate:
  "xs \<noteq> [] \<Longrightarrow> map (\<lambda>k. xs ! ((r + k) mod length xs)) [0..<length xs] = rotate r xs"
  by (rule nth_equalityI) (simp_all add: nth_rotate)

lemma count_list_rotate: "count_list (rotate r xs) x = count_list xs x"
proof -
  have "count_list (rotate1 ys) x = count_list ys x" for ys by (cases ys) auto
  then show ?thesis by (induction r) auto
qed

lemma count_list_map_inj: "inj f \<Longrightarrow> count_list (map f xs) (f x) = count_list xs x"
  by (induction xs) (auto dest: injD)

text \<open>C27: weighted fairness.  Over any full cycle of round robin (as many picks as the weights
  of the eligible servers add up to, while the 64-bit counter stays below \<open>2^63\<close>), every
  server is picked exactly as often as its weight says if it is eligible, and never otherwise.\<close>

theorem round_robin_fair:
  assumes "round_robin p" and "weights_fit (p_servers p)" and "length ips = length (expand (p_servers p))"
    and "unat (p_rrIndex p) + length ips \<le> 2 ^ 63" and "i < length (p_servers p)"
  shows "count_list (fst (pick_run (Pick intn) p ips)) (Picked (Some i)) =
    (if eligible (p_servers p ! i) then nat (srv_Weight (p_servers p ! i)) else 0)"
proof (cases "expand (p_servers p) = []")
  case True
  then show ?thesis using assms count_expand [OF assms(5)] by simp
next
  case False
  let ?xs = "expand (p_servers p)"
  have "fst (pick_run (Pick intn) p ips) =
      map (\<lambda>j. Picked (Some j)) (map (\<lambda>k. ?xs ! ((unat (p_rrIndex p) + k) mod length ?xs)) [0..<length ?xs])"
    using pick_run_round_robin [OF assms(1,2) False assms(4)] assms(3) by simp
  also have "\<dots> = map (\<lambda>j. Picked (Some j)) (rotate (unat (p_rrIndex p)) ?xs)"
    using map_nth_mod_rotate [OF False] by simp
  finally show ?thesis
    using count_list_map_inj [of "\<lambda>j. Picked (Some j)" "rotate (unat (p_rrIndex p)) ?xs" i]
      count_expand [OF assms(5)] by (simp add: count_list_rotate inj_def)
qed

theorem round_robin_fair_witness:
  "count_list (fst (pick_run (Pick (\<lambda>_. 0)) (test_pool ''round_robin'') (replicate 4 ''1.2.3.4''))) (Picked (Some 1)) = 3"
  using round_robin_fair [of "test_pool ''round_robin''" "replicate 4 ''1.2.3.4''" 1 "\<lambda>_. 0"]
  by (simp add: test_pool_defs round_robin_def weights_fit_def eligible_def)

section \<open>Least connections and hashing\<close>

text \<open>C28: least connections.  With \<^verbatim>\<open>least_conn\<close>, the server picked is healthy and has the
  fewest connections of all healthy servers; of several such servers it is the first.\<close>

theorem least_conn_minimal:
  assumes "p_algorithm p = ''least_conn''" and "fst (Pick intn p ip) = Picked (Some i)"
  shows "i < length (p_servers p) \<and> srv_Healthy (p_servers p ! i) \<and>
    (\<forall>j < length (p_servers p). srv_Healthy (p_servers p ! j) \<longrightarrow>
       ConnCount (p_servers p ! i) \<le> ConnCount (p_servers p ! j) \<and>
       (j < i \<longrightarrow> ConnCount (p_servers p ! i) < ConnCount (p_servers p ! j)))"
proof -
  have "leastConn (p_servers p) = Some i" using assms by (simp add: Pick_def Pick_select_def Let_def split: if_splits)
  then show ?thesis using leastConn_least [of "p_servers p"] by (auto simp: least_of_def)
qed

definition test_busy_pool :: pool where
  "test_busy_pool = IncrConns 0 (test_pool ''least_conn'')"

lemma test_busy_pool:
  "p_algorithm test_busy_pool = ''least_conn''" "length (p_servers test_busy_pool) = 2"
  "srv_Healthy (p_servers test_busy_pool ! 0)"
  "fst (Pick (\<lambda>_. 0) test_busy_pool ''1.2.3.4'') = Picked (Some 1)"
  by (simp_all add: test_busy_pool_def test_pool_defs IncrConns_def update_server_def Pick_def Pick_select_def totalWeight_def
      eligible_def wrap64_def leastConn_def ConnCount_def)

theorem least_conn_minimal_witness:
  "ConnCount (p_servers test_busy_pool ! 1) < ConnCount (p_servers test_busy_pool ! 0)"
  using least_conn_minimal [OF test_busy_pool(1,4)] test_busy_pool(2,3) by force

definition same_view :: "pool \<Rightarrow> pool \<Rightarrow> bool" where
  "same_view p q \<longleftrightarrow> map (\<lambda>s. (srv_Healthy s, srv_Weight s)) (p_servers p) =
     map (\<lambda>s. (srv_Healthy s, srv_Weight s)) (p_servers q)"

lemma same_view_totalWeight:
  "map (\<lambda>s. (srv_Healthy s, srv_Weight s)) ss = map (\<lambda>s. (srv_Healthy s, srv_Weight s)) ts \<Longrightarrow>
   foldl (\<lambda>t s. if eligible s then wrap64 (t + srv_Weight s) else t) acc ss =
   foldl (\<lambda>t s. if eligible s then wrap64 (t + srv_Weight s) else t) acc ts"
proof (induction ss arbitrary: ts acc)
  case Nil
  then show ?case by simp
next
  case (Cons s ss)
  then obtain t ts' where t: "ts = t # ts'" "srv_Healthy t = srv_Healthy s" "srv_Weight t = srv_Weight s"
    "map (\<lambda>s. (srv_Healthy s, srv_Weight s)) ss = map (\<lambda>s. (srv_Healthy s, srv_Weight s)) ts'"
    by (cases ts) auto
  then show ?case using Cons.IH [OF t(4)] by (simp add: eligible_def)
qed

lemma same_view_search:
  "map (\<lambda>s. (srv_Healthy s, srv_Weight s)) ss = map (\<lambda>s. (srv_Healthy s, srv_Weight s)) ts \<Longrightarrow>
   weightedIndex ss idx = weightedIndex ts idx \<and> find_index srv_Healthy ss = find_index srv_Healthy ts"
proof (induction ss arbitrary: ts idx)
  case Nil
  then show ?case by simp
next
  case (Cons s ss)
  then obtain t ts' where t: "ts = t # ts'" "srv_Healthy t = srv_Healthy s" "srv_Weight t = srv_Weight s"
    "map (\<lambda>s. (srv_Healthy s, srv_Weight s)) ss = map (\<lambda>s. (srv_Healthy s, srv_Weight s)) ts'"
    by (cases ts) auto
  then show ?case using Cons.IH [OF t(4)] by (simp add: eligible_def)
qed

lemma same_view_eqs:
  assumes "same_view p q"
  shows "totalWeight (p_servers p) = totalWeight (p_servers q)"
    "pickHealthyByWeightedIndex (p_servers p) = pickHealthyByWeightedIndex (p_servers q)"
proof -
  have v: "map (\<lambda>s. (srv_Healthy s, srv_Weight s)) (p_servers p) = map (\<lambda>s. (srv_Healthy s, srv_Weight s)) (p_servers q)"
    using assms by (simp add: same_view_def)
  show "totalWeight (p_servers p) = totalWeight (p_servers q)"
    using same_view_totalWeight [OF v] by (simp add: totalWeight_def)
  show "pickHealthyByWeightedIndex (p_servers p) = pickHealthyByWeightedIndex (p_servers q)"
    using conjunct1 [OF same_view_search [OF v]] conjunct2 [OF same_view_search [OF v]]
    by (simp add: fun_eq_iff pickHealthyByWeightedIndex_def split: option.splits)
qed

text \<open>Hash stickiness.  With \<^verbatim>\<open>hash\<close>, the server a client address gets depends only on
  the health and weights of the servers: not on earlier picks, connection counts, the
  round-robin counter or the random source.\<close>

theorem hash_sticky:
  assumes "p_algorithm p = ''hash''" and "p_algorithm q = ''hash''" and "same_view p q"
  shows "fst (Pick intn p ip) = fst (Pick intn' q ip) \<and> snd (Pick intn p ip) = p"
  using assms(1,2) same_view_eqs [OF assms(3)] by (simp add: Pick_def Pick_select_def Let_def)

section \<open>Picking while health changes\<close>

text \<open>
  \<^verbatim>\<open>Pick\<close> first adds up the weights and only then selects, without a lock: health checkers may
  write in between.  \<open>Pick_select\<close> is that second half, run on the state of a later moment.
\<close>

lemma leastConn_None: "leastConn ss = None \<longleftrightarrow> (\<forall>s \<in> set ss. \<not> srv_Healthy s)"
  using leastConn_least [of ss]
  by (cases "leastConn ss") (auto simp: least_of_def all_set_conv_all_nth)

lemma pickHealthy_None:
  "pickHealthyByWeightedIndex ss idx = None \<longleftrightarrow> (\<forall>s \<in> set ss. \<not> srv_Healthy s)"
  using weightedIndex_eligible [of ss idx]
  by (auto simp: pickHealthyByWeightedIndex_def find_index_None eligible_def split: option.splits)

text \<open>C32: a \<^verbatim>\<open>nil\<close> server with a \<^verbatim>\<open>nil\<close> error.  Once the weights were found positive, the
  selection returns \<^verbatim>\<open>nil\<close> and no error exactly when by then no server is healthy any more,
  whatever the algorithm: the case the caller does not test for.  Otherwise it returns a server
  that is healthy at the moment of selection.\<close>

theorem Pick_select_nil:
  assumes "0 < tw"
  shows "(fst (Pick_select intn q tw ip) = Picked None \<longleftrightarrow> (\<forall>s \<in> set (p_servers q). \<not> srv_Healthy s)) \<and>
    (\<forall>i. fst (Pick_select intn q tw ip) = Picked (Some i) \<longrightarrow>
       i < length (p_servers q) \<and> srv_Healthy (p_servers q ! i))"
proof -
  have sel: "i < length ss \<and> srv_Healthy (ss ! i)"
    if "pickHealthyByWeightedIndex ss idx = Some i" for ss idx i
    using that weightedIndex_eligible [of ss idx]
    by (auto simp: pickHealthyByWeightedIndex_def find_index_Some eligible_def split: option.splits)
  have least: "i < length ss \<and> srv_Healthy (ss ! i)" if "leastConn ss = Some i" for ss i
    using leastConn_least [of ss] that by (simp add: least_of_def)
  show ?thesis using assms
    by (auto simp: Pick_select_def pick_round_robin_def Let_def leastConn_None pickHealthy_None
        dest: sel least)
qed

theorem Pick_select_nil_witness:
  "totalWeight (p_servers (test_pool ''hash'')) = 4 \<and>
   fst (Pick_select (\<lambda>_. 0) (SetHealthy ''127.0.0.1:5001'' False (SetHealthy ''127.0.0.1:5002'' False
     (test_pool ''hash''))) 4 ''1.2.3.4'') = Picked None"
  using Pick_select_nil [of 4 "\<lambda>_. 0" "SetHealthy ''127.0.0.1:5001'' False
      (SetHealthy ''127.0.0.1:5002'' False (test_pool ''hash''))" "''1.2.3.4''"]
  by (simp add: test_pool_defs totalWeight_def eligible_def wrap64_def SetHealthy_def update_server_def)

section \<open>Construction and lookups\<close>

definition pool_wf :: "pool \<Rightarrow> bool" where
  "pool_wf p \<longleftrightarrow>
     (\<forall>a i. p_serverMap p a = Some i \<longrightarrow> i < length (p_servers p) \<and> srv_Address (p_servers p ! i) = a) \<and>
     (\<forall>i < length (p_servers p). p_serverMap p (srv_Address (p_servers p ! i)) \<noteq> None)"

abbreviation addresses :: "pool \<Rightarrow> string list" where
  "addresses p \<equiv> map srv_Address (p_servers p)"

lemma pool_wf_add_server [inv_intros]: "pool_wf p \<Longrightarrow> pool_wf (add_server p s)"
  unfolding pool_wf_def add_server_def by (auto simp: nth_append less_Suc_eq)

lemma pool_wf_lookup:
  "pool_wf p \<Longrightarrow> distinct (addresses p) \<Longrightarrow> i < length (p_servers p) \<Longrightarrow>
     p_serverMap p (srv_Address (p_servers p ! i)) = Some i"
proof -
  assume a: "pool_wf p" "distinct (addresses p)" "i < length (p_servers p)"
  from a(1,3) obtain j where "p_serverMap p (srv_Address (p_servers p ! i)) = Some j"
    by (auto simp: pool_wf_def)
  with a show ?thesis by (auto simp: pool_wf_def distinct_conv_nth)
qed

definition fresh_server :: "resolver \<Rightarrow> string \<Rightarrow> serverConfig \<Rightarrow> server \<Rightarrow> bool" where
  "fresh_server R name sc s \<longleftrightarrow>
     (\<exists>ap. resolveAddrPort R name (sc_Address sc) = Inr ap \<and> s = NewServer sc ap)"

lemma add_servers_spec:
  "add_servers R scs p =
     (case filter (\<lambda>sc. \<exists>e. resolveAddrPort R (p_name p) (sc_Address sc) = Inl e) scs of
        sc # _ \<Rightarrow> Inl (projl (resolveAddrPort R (p_name p) (sc_Address sc)))
      | [] \<Rightarrow> Inr (foldl add_server p
                 (map (\<lambda>sc. NewServer sc (projr (resolveAddrPort R (p_name p) (sc_Address sc)))) scs)))"
proof (induction scs arbitrary: p)
  case Nil
  then show ?case by simp
next
  case (Cons sc scs)
  have "p_name (add_server p s) = p_name p" for s by (simp add: add_server_def)
  then show ?case
    by (cases "resolveAddrPort R (p_name p) (sc_Address sc)") (simp_all add: Cons.IH cong: list.case_cong)
qed

lemma foldl_add_server:
  "p_servers (foldl add_server p ss) = p_servers p @ ss"
  "p_name (foldl add_server p ss) = p_name p"
  "p_algorithm (foldl add_server p ss) = p_algorithm p"
  "p_rrIndex (foldl add_server p ss) = p_rrIndex p"
  by (induction ss arbitrary: p) (simp_all add: add_server_def)

lemma foldl_add_server_wf: "pool_wf p \<Longrightarrow> pool_wf (foldl add_server p ss)"
  by (induction ss arbitrary: p) (auto intro: inv_intros)

lemma NewPool_Inr:
  assumes "NewPool R cfg = Inr p"
  shows "pool_wf p" "p_name p = bc_Name cfg" "p_algorithm p = bc_LoadBalance cfg" "p_rrIndex p = 0"
    "list_all2 (fresh_server R (bc_Name cfg)) (bc_Servers cfg) (p_servers p)"
proof -
  let ?p0 = "\<lparr>p_servers = [], p_serverMap = Map.empty, p_name = bc_Name cfg,
      p_algorithm = bc_LoadBalance cfg, p_rrIndex = 0\<rparr>"
  let ?r = "\<lambda>sc. resolveAddrPort R (bc_Name cfg) (sc_Address sc)"
  let ?new = "\<lambda>sc. NewServer sc (projr (?r sc))"
  from assms have ok: "filter (\<lambda>sc. \<exists>e. ?r sc = Inl e) (bc_Servers cfg) = []"
    and p: "p = foldl add_server ?p0 (map ?new (bc_Servers cfg))"
    by (auto simp: NewPool_def add_servers_spec split: list.splits)
  have "pool_wf ?p0" by (simp add: pool_wf_def)
  then show "pool_wf p" unfolding p by (rule foldl_add_server_wf)
  show "p_name p = bc_Name cfg" "p_algorithm p = bc_LoadBalance cfg" "p_rrIndex p = 0"
    by (simp_all add: p foldl_add_server)
  have "fresh_server R (bc_Name cfg) sc (?new sc)" if "sc \<in> set (bc_Servers cfg)" for sc
    using ok that by (cases "?r sc") (auto simp: fresh_server_def filter_empty_conv)
  then show "list_all2 (fresh_server R (bc_Name cfg)) (bc_Servers cfg) (p_servers p)"
    by (simp add: p foldl_add_server list_all2_map2 list.rel_refl_strong)
qed

lemma NewPool_Inl:
  "(\<exists>e. NewPool R cfg = Inl e) \<longleftrightarrow>
     (\<exists>sc \<in> set (bc_Servers cfg). \<exists>e. resolveAddrPort R (bc_Name cfg) (sc_Address sc) = Inl e)"
  (is "_ \<longleftrightarrow> (\<exists>sc \<in> _. ?bad sc)")
proof -
  have "(\<exists>e. NewPool R cfg = Inl e) \<longleftrightarrow> filter ?bad (bc_Servers cfg) \<noteq> []"
    by (cases "filter ?bad (bc_Servers cfg)") (simp_all add: NewPool_def add_servers_spec)
  then show ?thesis by (auto simp: filter_empty_conv)
qed

text \<open>C31: pool construction.  \<^verbatim>\<open>NewPool\<close> fails exactly when some server address does not
  resolve; otherwise the pool has one server per configured server, in order, with the
  configured address and weight and the resolved endpoint, healthy and without connections,
  and its address map is sound and complete.\<close>

theorem NewPool_exact:
  "case NewPool R cfg of
     Inl e \<Rightarrow> \<exists>sc \<in> set (bc_Servers cfg). resolveAddrPort R (bc_Name cfg) (sc_Address sc) \<in> range Inl
   | Inr p \<Rightarrow> pool_wf p \<and> p_name p = bc_Name cfg \<and> p_algorithm p = bc_LoadBalance cfg \<and>
       list_all2 (\<lambda>sc s. srv_Address s = sc_Address sc \<and> srv_Weight s = sc_Weight sc \<and> srv_Healthy s \<and>
           srv_connCount s = 0 \<and> resolveAddrPort R (bc_Name cfg) (sc_Address sc) = Inr (srv_addrPort s))
         (bc_Servers cfg) (p_servers p)"
proof (cases "NewPool R cfg")
  case (Inl e)
  then show ?thesis using NewPool_Inl [of R cfg] by auto
next
  case (Inr p)
  have "list_all2 (\<lambda>sc s. srv_Address s = sc_Address sc \<and> srv_Weight s = sc_Weight sc \<and> srv_Healthy s \<and>
      srv_connCount s = 0 \<and> resolveAddrPort R (bc_Name cfg) (sc_Address sc) = Inr (srv_addrPort s))
    (bc_Servers cfg) (p_servers p)"
    by (rule list_all2_mono [OF NewPool_Inr(5) [OF Inr]]) (auto simp: fresh_server_def NewServer_def)
  with Inr NewPool_Inr(1-3) [OF Inr] show ?thesis by simp
qed

section \<open>Health updates\<close>

lemma SetHealthy_servers:
  assumes "pool_wf p" "distinct (addresses p)"
  shows "p_servers (SetHealthy a h p) =
    map (\<lambda>s. if srv_Address s = a then s\<lparr>srv_Healthy := h\<rparr> else s) (p_servers p)"
proof (cases "p_serverMap p a")
  case None
  then have "\<forall>s \<in> set (p_servers p). srv_Address s \<noteq> a"
    using assms(1) by (force simp: pool_wf_def in_set_conv_nth)
  then show ?thesis using None by (simp add: SetHealthy_def map_idI)
next
  case (Some i)
  then have i: "i < length (p_servers p)" "srv_Address (p_servers p ! i) = a"
    using assms(1) by (auto simp: pool_wf_def)
  have "srv_Address (p_servers p ! j) = a \<longleftrightarrow> j = i" if "j < length (p_servers p)" for j
    using assms(2) i that nth_eq_iff_index_eq [of "addresses p" j i] by auto
  then show ?thesis
    by (intro nth_equalityI) (auto simp: SetHealthy_def Some update_server_def nth_list_update)
qed

lemma SetHealthy_frame [simp]:
  "p_serverMap (SetHealthy a h p) = p_serverMap p" "p_algorithm (SetHealthy a h p) = p_algorithm p"
  "p_name (SetHealthy a h p) = p_name p" "p_rrIndex (SetHealthy a h p) = p_rrIndex p"
  by (simp_all add: SetHealthy_def update_server_def split: option.splits)

lemma update_server_addresses:
  "(\<And>s. srv_Address (f s) = srv_Address s) \<Longrightarrow> addresses (update_server i f p) = addresses p"
  by (cases "i < length (p_servers p)")
    (auto intro!: nth_equalityI simp: update_server_def nth_list_update list_update_beyond not_less)

lemma pool_wf_same:
  "pool_wf p \<Longrightarrow> addresses q = addresses p \<Longrightarrow> p_serverMap q = p_serverMap p \<Longrightarrow> pool_wf q"
proof -
  assume a: "pool_wf p" "addresses q = addresses p" "p_serverMap q = p_serverMap p"
  have len: "length (p_servers q) = length (p_servers p)" using map_eq_imp_length_eq [OF a(2)] .
  have "srv_Address (p_servers q ! i) = srv_Address (p_servers p ! i)" if "i < length (p_servers p)" for i
    using that len arg_cong [OF a(2), of "\<lambda>xs. xs ! i"] by simp
  with a(1,3) len show ?thesis by (simp add: pool_wf_def)
qed

lemma SetHealthy_addresses [simp]: "addresses (SetHealthy a h p) = addresses p"
  by (simp add: SetHealthy_def update_server_addresses split: option.splits)

lemma pool_wf_SetHealthy [inv_intros]: "pool_wf p \<Longrightarrow> pool_wf (SetHealthy a h p)"
  by (rule pool_wf_same) simp_all

text \<open>C30: an unhealthy server gets no traffic.  In a pool whose server addresses differ,
  marking an address unhealthy or healthy changes that server's flag and nothing else; while
  it is unhealthy no algorithm picks it.\<close>

theorem SetHealthy_excludes:
  assumes "pool_wf p" and "distinct (addresses p)"
  shows "p_servers (SetHealthy a h p) =
      map (\<lambda>s. if srv_Address s = a then s\<lparr>srv_Healthy := h\<rparr> else s) (p_servers p) \<and>
    (\<forall>i. fst (Pick intn (SetHealthy a False p) ip) = Picked (Some i) \<longrightarrow>
       i < length (p_servers p) \<and> srv_Address (p_servers p ! i) \<noteq> a)"
proof -
  have "i < length (p_servers p) \<and> srv_Address (p_servers p ! i) \<noteq> a"
    if "fst (Pick intn (SetHealthy a False p) ip) = Picked (Some i)" for i
    using Pick_index [OF that] by (auto simp: SetHealthy_servers [OF assms])
  then show ?thesis using SetHealthy_servers [OF assms] by blast
qed

lemma test_pool_wf: "pool_wf (test_pool algo)" "distinct (addresses (test_pool algo))"
  by (auto simp: test_pool_defs pool_wf_def less_Suc_eq_0_disj split: if_splits)

theorem SetHealthy_excludes_witness:
  "fst (Pick (\<lambda>_. 0) (SetHealthy ''127.0.0.1:5001'' False (test_pool ''hash'')) ''1.2.3.4'') \<noteq> Picked (Some 0)"
  using SetHealthy_excludes [OF test_pool_wf, of "''127.0.0.1:5001''" False "''hash''" "\<lambda>_. 0" "''1.2.3.4''"]
  by (auto simp: test_pool_defs)

definition weights_total :: "server list \<Rightarrow> int" where
  "weights_total ss = (\<Sum>s \<leftarrow> ss. max 0 (srv_Weight s))"

lemma expand_le_weights: "int (length (expand ss)) \<le> weights_total ss"
  by (induction ss) (auto simp: weights_total_def)

lemma weights_total_cong:
  "map srv_Weight (p_servers q) = map srv_Weight (p_servers p) \<Longrightarrow> weights_total (p_servers q) = weights_total (p_servers p)"
  unfolding weights_total_def by (metis (mono_tags, lifting) list.map_comp comp_def map_eq_conv)

section \<open>Duplicate addresses\<close>

text \<open>The address map of a new pool knows the last server with an address.\<close>

definition maps_last :: "pool \<Rightarrow> bool" where
  "maps_last p \<longleftrightarrow> (\<forall>a i j. p_serverMap p a = Some i \<longrightarrow> i < j \<longrightarrow> j < length (p_servers p) \<longrightarrow> srv_Address (p_servers p ! j) \<noteq> a)"

lemma maps_last_add_server [inv_intros]: "pool_wf p \<Longrightarrow> maps_last p \<Longrightarrow> maps_last (add_server p s)"
  by (auto simp: maps_last_def add_server_def nth_append less_Suc_eq pool_wf_def)

lemma maps_last_NewPool: "NewPool R cfg = Inr p \<Longrightarrow> maps_last p"
proof -
  have fold: "maps_last (foldl add_server q ss)" if "pool_wf q" "maps_last q" for q ss
    using that by (induction ss arbitrary: q) (auto intro: inv_intros)
  let ?p0 = "\<lparr>p_servers = [], p_serverMap = Map.empty, p_name = bc_Name cfg,
      p_algorithm = bc_LoadBalance cfg, p_rrIndex = 0\<rparr>"
  have "pool_wf ?p0" "maps_last ?p0" by (simp_all add: pool_wf_def maps_last_def)
  moreover assume "NewPool R cfg = Inr p"
  then obtain ss where "p = foldl add_server ?p0 ss" by (auto simp: NewPool_def add_servers_spec split: list.splits)
  ultimately show ?thesis using fold by simp
qed

text \<open>The health checker's verdicts on a pool, one after the other.\<close>

definition reports :: "(string \<times> bool) list \<Rightarrow> pool \<Rightarrow> pool" where
  "reports vs p = foldl (\<lambda>p (a, h). SetHealthy a h p) p vs"

lemma SetHealthy_nth:
  assumes "pool_wf p" "k < length (p_servers p)"
  shows "p_servers (SetHealthy a h p) ! k = (if p_serverMap p a = Some k then (p_servers p ! k)\<lparr>srv_Healthy := h\<rparr> else p_servers p ! k)"
  using assms by (auto simp: SetHealthy_def update_server_def nth_list_update split: option.splits)

lemma reports_frame:
  "p_serverMap (reports vs p) = p_serverMap p" "addresses (reports vs p) = addresses p"
  "map srv_Weight (p_servers (reports vs p)) = map srv_Weight (p_servers p)"
  "length (p_servers (reports vs p)) = length (p_servers p)"
  "pool_wf p \<Longrightarrow> pool_wf (reports vs p)"
proof -
  have one: "map srv_Weight (p_servers (SetHealthy a h q)) = map srv_Weight (p_servers q)" for a h q
    by (auto simp: SetHealthy_def update_server_def map_update split: option.splits) (metis list_update_id map_update)
  show "p_serverMap (reports vs p) = p_serverMap p" "addresses (reports vs p) = addresses p"
    "map srv_Weight (p_servers (reports vs p)) = map srv_Weight (p_servers p)"
    by (induction vs arbitrary: p) (auto simp: reports_def one)
  then show "length (p_servers (reports vs p)) = length (p_servers p)" by (metis length_map)
  show "pool_wf p \<Longrightarrow> pool_wf (reports vs p)" by (induction vs arbitrary: p) (auto simp: reports_def intro: inv_intros)
qed

lemma reports_healthy:
  assumes "pool_wf p" "k < length (p_servers p)"
  shows "srv_Healthy (p_servers (reports vs p) ! k) =
    (case map_of (rev vs) (srv_Address (p_servers p ! k)) of
       Some h \<Rightarrow> if p_serverMap p (srv_Address (p_servers p ! k)) = Some k then h else srv_Healthy (p_servers p ! k)
     | None \<Rightarrow> srv_Healthy (p_servers p ! k))"
proof (induction vs rule: rev_induct)
  case Nil
  then show ?case by (simp add: reports_def)
next
  case (snoc v vs)
  let ?q = "reports vs p"
  have "reports (vs @ [v]) p = SetHealthy (fst v) (snd v) ?q" by (simp add: reports_def split_beta)
  moreover note SetHealthy_nth [OF reports_frame(5) [OF assms(1), of vs], of k "fst v" "snd v"]
  moreover have "p_serverMap p a = Some k \<Longrightarrow> srv_Address (p_servers p ! k) = a" for a using assms(1) by (simp add: pool_wf_def)
  ultimately show ?case using snoc assms(2) by (auto simp: reports_frame split: option.splits if_splits)
qed

text \<open>C33: duplicate addresses.  When a backend lists an address more than once, with positive weights that add
  up to less than \<open>2^63\<close>, every copy but the last stays healthy whatever the health checker
  reports, so \<^verbatim>\<open>Pick\<close> never refuses; and once the checker has reported every address of the
  backend as failed, \<^verbatim>\<open>Pick\<close> still returns one of those earlier copies, whatever the algorithm.\<close>

theorem duplicate_address_still_picked:
  assumes "NewPool R cfg = Inr p" and "i < j" and "j < length (p_servers p)"
    and "srv_Address (p_servers p ! i) = srv_Address (p_servers p ! j)" and "0 < srv_Weight (p_servers p ! i)"
    and "weights_total (p_servers p) < 2 ^ 63"
  shows "srv_Healthy (p_servers (reports vs p) ! i) \<and> fst (Pick intn (reports vs p) ip) \<noteq> PickErr \<and>
    ((\<forall>a \<in> set (addresses p). map_of (rev vs) a = Some False) \<longrightarrow>
      (\<exists>k l. fst (Pick intn (reports vs p) ip) = Picked (Some k) \<and> k < l \<and> l < length (p_servers p) \<and>
         srv_Address (p_servers p ! k) = srv_Address (p_servers p ! l)))"
proof -
  let ?q = "reports vs p"
  note wf = NewPool_Inr(1) [OF assms(1)] and last = maps_last_NewPool [OF assms(1)]
  have new: "srv_Healthy (p_servers p ! k)" if "k < length (p_servers p)" for k
    using list_all2_nthD2 [OF NewPool_Inr(5) [OF assms(1)] that] by (auto simp: fresh_server_def NewServer_def)
  have i: "i < length (p_servers p)" using assms(2,3) by simp
  have "p_serverMap p (srv_Address (p_servers p ! i)) \<noteq> Some i" using last assms(2-4) by (auto simp: maps_last_def)
  then have healthy: "srv_Healthy (p_servers ?q ! i)" using reports_healthy [OF wf i] new [OF i] by (simp split: option.splits)
  have "srv_Weight (p_servers ?q ! i) = srv_Weight (p_servers p ! i)" using i reports_frame(3,4) [of vs p] by (metis nth_map)
  then have "eligible (p_servers ?q ! i)" using healthy assms(5) by (simp add: eligible_def)
  moreover have fit: "weights_fit (p_servers ?q)"
    using expand_le_weights [of "p_servers ?q"] weights_total_cong [OF reports_frame(3) [of vs p]] assms(6)
    by (simp add: weights_fit_def)
  moreover have "p_servers ?q ! i \<in> set (p_servers ?q)" using i by (simp add: reports_frame)
  ultimately have no_err: "fst (Pick intn ?q ip) \<noteq> PickErr" using Pick_PickErr by blast
  have "\<exists>k l. fst (Pick intn ?q ip) = Picked (Some k) \<and> k < l \<and> l < length (p_servers p) \<and>
      srv_Address (p_servers p ! k) = srv_Address (p_servers p ! l)"
    if down: "\<forall>a \<in> set (addresses p). map_of (rev vs) a = Some False"
  proof -
    have "fst (Pick intn ?q ip) \<noteq> PickPanic"
      using fit totalWeight_expand [of "p_servers ?q"] by (auto simp: Pick_def Pick_select_def pick_round_robin_def Let_def)
    then obtain k where k: "fst (Pick intn ?q ip) = Picked (Some k)" "k < length (p_servers p)" "srv_Healthy (p_servers ?q ! k)"
      using no_err Pick_index [of intn ?q ip] by (cases "fst (Pick intn ?q ip)") (auto simp: reports_frame)
    have "map_of (rev vs) (srv_Address (p_servers p ! k)) = Some False" using down k(2) by simp
    then have "p_serverMap p (srv_Address (p_servers p ! k)) \<noteq> Some k" using k(3) reports_healthy [OF wf k(2)] by auto
    moreover have "p_serverMap p (srv_Address (p_servers p ! k)) \<noteq> None" using wf k(2) by (simp add: pool_wf_def)
    ultimately obtain l where l: "p_serverMap p (srv_Address (p_servers p ! k)) = Some l" "l \<noteq> k" by auto
    then have "l < length (p_servers p)" "srv_Address (p_servers p ! l) = srv_Address (p_servers p ! k)"
      using wf by (simp_all add: pool_wf_def)
    moreover have "k < l" using last l k(2) unfolding maps_last_def by (metis linorder_neqE_nat)
    ultimately show ?thesis using k(1) by auto
  qed
  then show ?thesis using healthy no_err by blast
qed

definition dup_backend :: backendConfig where
  "dup_backend = \<lparr>bc_Name = ''pool'', bc_LoadBalance = ''least_conn'',
     bc_HealthCheck = \<lparr>hc_Enabled = True, hc_Interval = 5 * Second, hc_Timeout = 2 * Second\<rparr>,
     bc_Servers = [\<lparr>sc_Address = ''10.0.0.10:27015'', sc_Weight = 1\<rparr>,
                   \<lparr>sc_Address = ''10.0.0.10:27015'', sc_Weight = 1\<rparr>],
     bc_TrafficShaping = test_shaping\<rparr>"

definition test_resolver :: resolver where
  "test_resolver = \<lparr>parseAddrPort = (\<lambda>a. if a = ''10.0.0.10:27015'' then Some \<lparr>ap_addr = Addr4 0x0A00000A, ap_port = 27015\<rparr>
       else if a = ''10.0.0.11:27015'' then Some \<lparr>ap_addr = Addr4 0x0A00000B, ap_port = 27015\<rparr> else None),
     resolveUDPAddr = (\<lambda>a. None)\<rparr>"

text \<open>Validation accepts such a backend, and a failed check of its only address does not take it out of service.\<close>

theorem duplicate_address_still_picked_witness:
  "backend_valid dup_backend \<and> (\<exists>p. NewPool test_resolver dup_backend = Inr p \<and>
     fst (Pick (\<lambda>_. 0) (reports [(''10.0.0.10:27015'', False)] p) ''1.2.3.4'') = Picked (Some 0))"
proof -
  let ?s = "NewServer \<lparr>sc_Address = ''10.0.0.10:27015'', sc_Weight = 1\<rparr> \<lparr>ap_addr = Addr4 0x0A00000A, ap_port = 27015\<rparr>"
  obtain p where p: "NewPool test_resolver dup_backend = Inr p" "p_servers p = [?s, ?s]"
    by (simp add: dup_backend_def NewPool_def resolveAddrPort_def test_resolver_def NewServer_def add_server_def)
  have "\<exists>k l. fst (Pick (\<lambda>_. 0) (reports [(''10.0.0.10:27015'', False)] p) ''1.2.3.4'') = Picked (Some k) \<and> k < l \<and>
      l < length (p_servers p)"
    using duplicate_address_still_picked [OF p(1), of 0 1 "[(''10.0.0.10:27015'', False)]" "\<lambda>_. 0" "''1.2.3.4''"]
    by (simp add: p(2) weights_total_def NewServer_def) blast
  then have "fst (Pick (\<lambda>_. 0) (reports [(''10.0.0.10:27015'', False)] p) ''1.2.3.4'') = Picked (Some 0)"
    by (auto simp: p(2) less_Suc_eq)
  moreover have "backend_valid dup_backend" by (simp add: backend_valid_def known_algorithm_def dup_backend_def)
  ultimately show ?thesis using p(1) by blast
qed

section \<open>Matching responses to servers\<close>

lemma ServerByAddrPort_first:
  "ServerByAddrPort p ap = Some i \<longleftrightarrow> i < length (p_servers p) \<and>
     srv_addrPort (p_servers p ! i) = addrport_unmap ap \<and>
     (\<forall>j < i. srv_addrPort (p_servers p ! j) \<noteq> addrport_unmap ap)"
  by (simp add: ServerByAddrPort_def find_index_Some)

text \<open>C34: who a response is from.  A response is attributed to the first server whose stored
  endpoint is the sender's, with an IPv4-mapped sender taken as IPv4.  A server stored with an
  IPv4-mapped endpoint, which the numeric path of \<^verbatim>\<open>resolveAddrPort\<close> allows and its DNS path
  does not, is never matched: none of its responses reach a client.\<close>

theorem ServerByAddrPort_exact:
  "(ServerByAddrPort p ap = Some i \<longleftrightarrow> i < length (p_servers p) \<and>
      srv_addrPort (p_servers p ! i) = \<lparr>ap_addr = Unmap (ap_addr ap), ap_port = ap_port ap\<rparr> \<and>
      (\<forall>j < i. srv_addrPort (p_servers p ! j) \<noteq> \<lparr>ap_addr = Unmap (ap_addr ap), ap_port = ap_port ap\<rparr>)) \<and>
   \<not> (Is4In6 (ap_addr (srv_addrPort (p_servers p ! i))) \<and> ServerByAddrPort p ap = Some i)"
  unfolding ServerByAddrPort_first addrport_unmap_def by auto

theorem ServerByAddrPort_exact_witness:
  "ServerByAddrPort (test_pool ''hash'') \<lparr>ap_addr = Addr6 (mapped4 0x7F000001) [], ap_port = 5002\<rparr> = Some 1"
proof -
  have u: "Unmap (Addr6 (mapped4 0x7F000001) []) = Addr4 0x7F000001"
    by (simp add: Unmap_def) code_simp
  show ?thesis
    using ServerByAddrPort_exact [of "test_pool ''hash''" "\<lparr>ap_addr = Addr6 (mapped4 0x7F000001) [], ap_port = 5002\<rparr>" 1]
    by (simp add: u test_pool_defs)
qed

end
