(* ===== verification/Session.thy ===== *)
theory Session
  imports Netip Prelude "HOL-Library.Multiset"
begin

text \<open>
  \<^verbatim>\<open>src/internal/session/session.go\<close>: the sharded session table.  A \<^verbatim>\<open>*Session\<close> is an index
  into the table's heap of session objects: the shards' maps hold such references, and a
  forwarding worker may still hold one after the session left the table.  An eviction callback
  is a value of a type parameter; operations that run callbacks return the ones they run.
  Operations that read the clock take the reading as an argument.
\<close>

section \<open>Keys and sessions\<close>

record key =
  k_Addr :: addrport
  k_FrontendName :: string

record 'cb serverBinding =
  sb_addr :: string
  sb_onEvict :: "'cb option"

record 'cb session =
  s_binding :: "'cb serverBinding option"
  s_LastSeen :: int
  s_PacketCount :: "64 word"
  s_ByteCount :: "64 word"
  s_ConnIndex :: "32 word"

definition connIndexUninitialized :: "32 word" where
  "connIndexUninitialized = - 1"

definition NewSession :: "string \<Rightarrow> time \<Rightarrow> 'cb session" where
  "NewSession backendAddr now =
     \<lparr>s_binding = Some \<lparr>sb_addr = backendAddr, sb_onEvict = None\<rparr>, s_LastSeen = t_wall now,
      s_PacketCount = 0, s_ByteCount = 0, s_ConnIndex = connIndexUninitialized\<rparr>"

definition BackendAddr :: "'cb session \<Rightarrow> string" where
  "BackendAddr s = (case s_binding s of Some b \<Rightarrow> sb_addr b | None \<Rightarrow> '''')"

definition UpdateServer :: "string \<Rightarrow> 'cb option \<Rightarrow> 'cb session \<Rightarrow> 'cb session" where
  "UpdateServer a onEvict s = s\<lparr>s_binding := Some \<lparr>sb_addr = a, sb_onEvict = onEvict\<rparr>\<rparr>"

definition Touch :: "int \<Rightarrow> time \<Rightarrow> 'cb session \<Rightarrow> 'cb session" where
  "Touch bytes now s = s\<lparr>s_LastSeen := t_wall now, s_PacketCount := s_PacketCount s + 1,
     s_ByteCount := s_ByteCount s + word_of_int bytes\<rparr>"

definition SetConnIndex :: "32 word \<Rightarrow> 'cb session \<Rightarrow> 'cb session" where
  "SetConnIndex idx s = s\<lparr>s_ConnIndex := idx\<rparr>"

text \<open>The callback \<^verbatim>\<open>callEvict\<close> runs, if any.\<close>

definition callEvict :: "'cb session \<Rightarrow> 'cb option" where
  "callEvict s = (case s_binding s of Some b \<Rightarrow> sb_onEvict b | None \<Rightarrow> None)"

section \<open>The table\<close>

record 'cb table =
  tb_shards :: "(key \<times> nat) list list"
  tb_heap :: "'cb session list"
  tb_timeout :: duration
  tb_cleanupInterval :: duration
  tb_count :: "64 word"
  tb_stopped :: bool

definition NewTable :: "duration \<Rightarrow> duration \<Rightarrow> 'cb table" where
  "NewTable timeout cleanupInterval =
     \<lparr>tb_shards = replicate 256 [], tb_heap = [], tb_timeout = timeout,
      tb_cleanupInterval = cleanupInterval, tb_count = 0, tb_stopped = False\<rparr>"

definition Stop :: "'cb table \<Rightarrow> 'cb table" where
  "Stop t = t\<lparr>tb_stopped := True\<rparr>"

definition shardFor :: "key \<Rightarrow> nat" where
  "shardFor k = unat (foldl (\<lambda>h c. fnv_step h (of_char c)) (fnv_addrport (k_Addr k)) (k_FrontendName k) mod 256)"

definition Get :: "'cb table \<Rightarrow> key \<Rightarrow> nat option" where
  "Get t k = map_of (tb_shards t ! shardFor k) k"

text \<open>The locked half of \<^verbatim>\<open>GetOrCreate\<close>: look again, insert if the key is still free.  \<^verbatim>\<open>newFn\<close> runs
  between the unlocked look and the locked half with no lock held, so the table may change in
  between: \<open>meanwhile\<close> is what the other goroutines do to it.  \<open>GetOrCreate\<close> is a call that no other
  goroutine overlaps.\<close>

definition insertSession :: "key \<Rightarrow> 'cb session \<Rightarrow> 'cb table \<Rightarrow> nat \<times> bool \<times> 'cb table" where
  "insertSession k s t =
     (case map_of (tb_shards t ! shardFor k) k of
        Some r \<Rightarrow> (r, False, t)
      | None \<Rightarrow>
          let r = length (tb_heap t) in
          (r, True, t\<lparr>tb_heap := tb_heap t @ [s],
             tb_shards := (tb_shards t)[shardFor k := AList.update k r (tb_shards t ! shardFor k)],
             tb_count := tb_count t + 1\<rparr>))"

definition GetOrCreate_during ::
  "('cb table \<Rightarrow> 'cb table) \<Rightarrow> ('w \<Rightarrow> 'cb session option \<times> 'w) \<Rightarrow> key \<Rightarrow> 'cb table \<Rightarrow> 'w \<Rightarrow>
     nat option \<times> bool \<times> 'cb table \<times> 'w" where
  "GetOrCreate_during meanwhile newFn k t w =
     (case Get t k of
        Some r \<Rightarrow> (Some r, False, t, w)
      | None \<Rightarrow>
          (case newFn w of
             (None, w') \<Rightarrow> (None, False, meanwhile t, w')
           | (Some s, w') \<Rightarrow> (let (r, created, t') = insertSession k s (meanwhile t) in (Some r, created, t', w'))))"

definition GetOrCreate ::
  "('w \<Rightarrow> 'cb session option \<times> 'w) \<Rightarrow> key \<Rightarrow> 'cb table \<Rightarrow> 'w \<Rightarrow> nat option \<times> bool \<times> 'cb table \<times> 'w" where
  "GetOrCreate = GetOrCreate_during (\<lambda>t. t)"

lemmas GetOrCreate_alone = GetOrCreate_def [unfolded fun_eq_iff GetOrCreate_during_def, rule_format]

definition Delete :: "key \<Rightarrow> 'cb table \<Rightarrow> 'cb table \<times> 'cb list" where
  "Delete k t =
     (case map_of (tb_shards t ! shardFor k) k of
        None \<Rightarrow> (t, [])
      | Some r \<Rightarrow>
          (t\<lparr>tb_shards := (tb_shards t)[shardFor k := AList.delete k (tb_shards t ! shardFor k)],
             tb_count := tb_count t - 1\<rparr>,
           case callEvict (tb_heap t ! r) of None \<Rightarrow> [] | Some cb \<Rightarrow> [cb]))"

definition Len :: "'cb table \<Rightarrow> int" where
  "Len t = sint (tb_count t)"

definition Table_Count :: "'cb table \<Rightarrow> int" where
  "Table_Count t = sint (tb_count t)"

definition updateSession :: "nat \<Rightarrow> ('cb session \<Rightarrow> 'cb session) \<Rightarrow> 'cb table \<Rightarrow> 'cb table" where
  "updateSession r f t = t\<lparr>tb_heap := (tb_heap t)[r := f (tb_heap t ! r)]\<rparr>"

section \<open>Search and eviction\<close>

definition betterClient ::
  "'cb session list \<Rightarrow> string \<Rightarrow> string \<Rightarrow> (key \<times> 32 word \<times> int) option \<Rightarrow> key \<times> nat
     \<Rightarrow> (key \<times> 32 word \<times> int) option" where
  "betterClient heap frontendName backendAddr best kr =
     (let s = heap ! snd kr in
      if k_FrontendName (fst kr) \<noteq> frontendName \<or> BackendAddr s \<noteq> backendAddr then best
      else if (case best of None \<Rightarrow> True | Some (_, _, bestSeen) \<Rightarrow> s_LastSeen s > bestSeen)
      then Some (fst kr, s_ConnIndex s, s_LastSeen s) else best)"

definition FindMostRecentClientByBackend :: "'cb table \<Rightarrow> string \<Rightarrow> string \<Rightarrow> (key \<times> int) option" where
  "FindMostRecentClientByBackend t frontendName backendAddr =
     map_option (\<lambda>(k, ci, _). (k, sint ci))
       (foldl (\<lambda>best sh. foldl (betterClient (tb_heap t) frontendName backendAddr) best sh) None (tb_shards t))"

definition expired :: "int \<Rightarrow> 'cb session \<Rightarrow> bool" where
  "expired cutoff s \<longleftrightarrow> s_LastSeen s < cutoff"

text \<open>One shard's sweep: the entries kept, the number removed, the callbacks in order.\<close>

fun evictShard :: "'cb session list \<Rightarrow> int \<Rightarrow> (key \<times> nat) list \<Rightarrow> (key \<times> nat) list \<times> nat \<times> 'cb list" where
  "evictShard heap cutoff [] = ([], 0, [])"
| "evictShard heap cutoff ((k, r) # es) =
     (let (kept, n, cbs) = evictShard heap cutoff es in
      if expired cutoff (heap ! r)
      then (kept, Suc n, (case callEvict (heap ! r) of None \<Rightarrow> cbs | Some cb \<Rightarrow> cb # cbs))
      else ((k, r) # kept, n, cbs))"

fun evictShards :: "'cb session list \<Rightarrow> int \<Rightarrow> (key \<times> nat) list list \<Rightarrow> (key \<times> nat) list list \<times> nat \<times> 'cb list" where
  "evictShards heap cutoff [] = ([], 0, [])"
| "evictShards heap cutoff (sh # shs) =
     (let (kept, n, cbs) = evictShard heap cutoff sh; (shs', m, cbs') = evictShards heap cutoff shs
      in (kept # shs', n + m, cbs @ cbs'))"

definition evictExpired :: "time \<Rightarrow> 'cb table \<Rightarrow> 'cb table \<times> 'cb list" where
  "evictExpired now t =
     (let cutoff = t_wall (time_add now (- tb_timeout t));
          (shs, n, cbs) = evictShards (tb_heap t) cutoff (tb_shards t)
      in (t\<lparr>tb_shards := shs, tb_count := tb_count t - of_nat n\<rparr>, cbs))"

text \<open>The reaper goroutine, as the sequence of channel events its \<^verbatim>\<open>select\<close> takes: it sweeps on
  every tick and returns when it sees the stop channel closed.\<close>

datatype reaperEvent = ReapTick time | ReapStop

fun reaper :: "reaperEvent list \<Rightarrow> 'cb table \<Rightarrow> 'cb table \<times> 'cb list" where
  "reaper [] t = (t, [])"
| "reaper (ReapStop # evs) t = (t, [])"
| "reaper (ReapTick now # evs) t =
     (let (t', cbs) = evictExpired now t; (t'', cbs') = reaper evs t' in (t'', cbs @ cbs'))"

section \<open>The table's invariant\<close>

definition tb_entries :: "'cb table \<Rightarrow> (key \<times> nat) list" where
  "tb_entries t = concat (tb_shards t)"

definition table_wf :: "'cb table \<Rightarrow> bool" where
  "table_wf t \<longleftrightarrow> length (tb_shards t) = 256 \<and> stripes_ok shardFor 0 (tb_shards t) \<and>
     (\<forall>r \<in> snd ` set (tb_entries t). r < length (tb_heap t)) \<and> distinct (map snd (tb_entries t)) \<and>
     tb_count t = of_nat (length (tb_entries t))"

text \<open>What the table stands for: a map from keys to sessions.\<close>

definition tb_abs :: "'cb table \<Rightarrow> key \<Rightarrow> 'cb session option" where
  "tb_abs t k = map_option (\<lambda>r. tb_heap t ! r) (Get t k)"

lemma shardFor_bound: "shardFor k < 256"
proof -
  have "unat (h mod 256 :: 32 word) < 256" for h
    using word_mod_less_divisor [of "256 :: 32 word" h] unat_mono [of "h mod 256" "256 :: 32 word"] by simp
  then show ?thesis by (simp add: shardFor_def)
qed

interpretation stripes: striped shardFor "\<lambda>sh. sh" 256
  by unfold_locales (rule shardFor_bound)

lemma Get_entries: "table_wf t \<Longrightarrow> Get t k = map_of (tb_entries t) k"
  using stripes_ok_lookup [of shardFor 0 "tb_shards t" k] shardFor_bound [of k]
  by (simp add: table_wf_def Get_def tb_entries_def)

lemma table_wf_distinct: "table_wf t \<Longrightarrow> distinct_keys (tb_entries t)"
  using stripes_ok_distinct by (auto simp: table_wf_def tb_entries_def)

lemma table_wf_ref: "table_wf t \<Longrightarrow> Get t k = Some r \<Longrightarrow> r < length (tb_heap t)"
  by (auto simp: Get_entries table_wf_def dest!: map_of_SomeD)

lemma Get_inj: "table_wf t \<Longrightarrow> Get t k = Some r \<Longrightarrow> Get t k' = Some r \<Longrightarrow> k = k'"
proof -
  assume wf: "table_wf t" "Get t k = Some r" "Get t k' = Some r"
  then have "(k, r) \<in> set (tb_entries t)" "(k', r) \<in> set (tb_entries t)"
    by (auto simp: Get_entries dest!: map_of_SomeD)
  moreover have "inj_on snd (set (tb_entries t))" using wf(1) by (simp add: table_wf_def distinct_map)
  ultimately show "k = k'" using inj_onD [of snd "set (tb_entries t)" "(k, r)" "(k', r)"] by simp
qed

lemma NewTable_wf: "table_wf (NewTable a b)"
proof -
  have "stripes_ok shardFor i (replicate n [])" for i n by (induction n arbitrary: i) auto
  moreover have "concat (replicate n []) = []" for n by (induction n) auto
  ultimately show ?thesis by (simp add: table_wf_def NewTable_def tb_entries_def)
qed

section \<open>Operations keep the invariant\<close>

lemma mset_concat_update:
  "j < length shs \<Longrightarrow> mset (concat (shs[j := ys])) + mset (shs ! j) = mset (concat shs) + mset ys"
  by (induction shs arbitrary: j) (auto split: nat.splits)

lemma distinct_map_mset: "mset xs = mset ys \<Longrightarrow> distinct (map f xs) = distinct (map f ys)"
  by (metis mset_eq_imp_distinct_iff mset_map)

lemma stripes_ok_write:
  assumes "length shs = 256" "stripes_ok shardFor 0 shs"
    "fst ` set sh \<subseteq> insert k (fst ` set (shs ! shardFor k))"
    "distinct_keys (shs ! shardFor k) \<Longrightarrow> distinct_keys sh"
  shows "stripes_ok shardFor 0 (shs[shardFor k := sh])"
proof -
  note sh = stripes_ok_nth [OF assms(2), of "shardFor k"]
  have b: "shardFor k < length shs" using assms(1) shardFor_bound by simp
  have "shardFor k' = 0 + shardFor k" if "k' \<in> fst ` set sh" for k'
  proof (cases "k' = k")
    case False
    then have "k' \<in> fst ` set (shs ! shardFor k)" using that assms(3) by blast
    then show ?thesis using sh [OF b] by blast
  qed simp
  then have "\<forall>k' \<in> fst ` set sh. shardFor k' = 0 + shardFor k" by blast
  with assms(4) sh [OF b] show ?thesis using stripes_ok_update [OF assms(2) b] by presburger
qed

lemma mset_delete:
  "distinct_keys xs \<Longrightarrow> map_of xs k = Some r \<Longrightarrow> mset xs = add_mset (k, r) (mset (AList.delete k xs))"
proof (induction xs)
  case Nil
  then show ?case by simp
next
  case (Cons x xs)
  show ?case
  proof (cases "fst x = k")
    case True
    then have "AList.delete k xs = xs" using Cons.prems(1) by (intro delete_id) (auto simp: distinct_keys_def)
    then show ?thesis using True Cons.prems(2) by (cases x) simp
  next
    case False
    then show ?thesis using Cons by (cases x) (simp add: distinct_keys_def)
  qed
qed

lemma table_wf_of_entries:
  assumes "length (tb_shards t) = 256" "stripes_ok shardFor 0 (tb_shards t)"
    "mset (tb_entries t) = mset xs" "distinct (map snd xs)" "\<forall>r \<in> snd ` set xs. r < length (tb_heap t)"
    "tb_count t = of_nat (length xs)"
  shows "table_wf t"
  using assms mset_eq_setD [OF assms(3)] mset_eq_length [OF assms(3)] distinct_map_mset [OF assms(3), of snd]
  by (simp add: table_wf_def)

lemma table_wf_shards: "table_wf t \<Longrightarrow> length (tb_shards t) = 256 \<and> stripes_ok shardFor 0 (tb_shards t)"
  by (simp add: table_wf_def)

lemma insertSession_fresh:
  assumes "table_wf t" "Get t k = None"
  defines "r \<equiv> length (tb_heap t)"
  obtains t' where "insertSession k s t = (r, True, t')" "table_wf t'" "Get t' = (Get t)(k \<mapsto> r)"
    "tb_heap t' = tb_heap t @ [s]" "mset (tb_entries t') = add_mset (k, r) (mset (tb_entries t))"
    "tb_count t' = tb_count t + 1" "tb_timeout t' = tb_timeout t" "tb_stopped t' = tb_stopped t"
proof -
  let ?sh = "tb_shards t ! shardFor k"
  define t' where "t' = t\<lparr>tb_heap := tb_heap t @ [s],
      tb_shards := (tb_shards t)[shardFor k := AList.update k r ?sh], tb_count := tb_count t + 1\<rparr>"
  have sel: "tb_heap t' = tb_heap t @ [s]" "tb_shards t' = (tb_shards t)[shardFor k := AList.update k r ?sh]"
    "tb_count t' = tb_count t + 1" "tb_timeout t' = tb_timeout t" "tb_stopped t' = tb_stopped t"
    by (simp_all add: t'_def)
  note len = conjunct1 [OF table_wf_shards [OF assms(1)]] conjunct2 [OF table_wf_shards [OF assms(1)]]
  have none: "map_of ?sh k = None" using assms(2) by (simp add: Get_def)
  have ent: "mset (tb_entries t') = mset ((k, r) # tb_entries t)"
    using mset_concat_update [of "shardFor k" "tb_shards t" "AList.update k r ?sh"] len(1) shardFor_bound [of k]
    by (simp add: tb_entries_def update_fresh [OF none] sel(2))
  have "table_wf t'"
  proof (rule table_wf_of_entries [OF _ _ ent])
    show "stripes_ok shardFor 0 (tb_shards t')" unfolding sel(2)
      using stripes_ok_write [OF len, of "AList.update k r ?sh" k] by (simp add: dom_update)
  qed (use assms(1) in \<open>auto simp: sel table_wf_def r_def\<close>)
  moreover have "Get t' = (Get t)(k \<mapsto> r)"
    using len(1) shardFor_bound by (auto simp: Get_def fun_eq_iff update_conv' nth_list_update sel(2))
  moreover have "insertSession k s t = (r, True, t')"
    using none by (simp add: insertSession_def r_def Let_def t'_def)
  ultimately show thesis using ent sel by (intro that [of t']) simp_all
qed

lemma Delete_present:
  assumes "table_wf t" "Get t k = Some r"
  obtains t' where "Delete k t = (t', case callEvict (tb_heap t ! r) of None \<Rightarrow> [] | Some cb \<Rightarrow> [cb])"
    "table_wf t'" "Get t' = (Get t)(k := None)" "tb_heap t' = tb_heap t"
    "mset (tb_entries t) = add_mset (k, r) (mset (tb_entries t'))"
proof -
  let ?sh = "tb_shards t ! shardFor k"
  define t' where "t' = t\<lparr>tb_shards := (tb_shards t)[shardFor k := AList.delete k ?sh], tb_count := tb_count t - 1\<rparr>"
  have sel: "tb_heap t' = tb_heap t" "tb_shards t' = (tb_shards t)[shardFor k := AList.delete k ?sh]"
    "tb_count t' = tb_count t - 1" by (simp_all add: t'_def)
  note len = conjunct1 [OF table_wf_shards [OF assms(1)]] conjunct2 [OF table_wf_shards [OF assms(1)]]
  have some: "map_of ?sh k = Some r" using assms(2) by (simp add: Get_def)
  have b: "shardFor k < length (tb_shards t)" using len(1) shardFor_bound by simp
  have msh: "mset ?sh = add_mset (k, r) (mset (AList.delete k ?sh))"
    using mset_delete [OF conjunct1 [OF stripes_ok_nth [OF len(2) b]] some] .
  have ent: "mset (tb_entries t) = mset ((k, r) # tb_entries t')"
    using mset_concat_update [OF b, of "AList.delete k ?sh"] msh by (simp add: tb_entries_def sel(2))
  have old: "distinct (map snd ((k, r) # tb_entries t'))"
    using distinct_map_mset [OF ent, of snd] assms(1) by (simp only: table_wf_def)
  have "table_wf t'"
  proof (rule table_wf_of_entries [OF _ _ refl])
    show "stripes_ok shardFor 0 (tb_shards t')" unfolding sel(2)
      using stripes_ok_write [OF len, of "AList.delete k ?sh" k] subset_insertI2 [OF dom_delete_subset [of k ?sh]]
      by simp
    show "tb_count t' = of_nat (length (tb_entries t'))"
      using assms(1) mset_eq_length [OF ent] by (simp add: table_wf_def sel)
    show "\<forall>r \<in> snd ` set (tb_entries t'). r < length (tb_heap t')"
      using assms(1) mset_eq_setD [OF ent] by (simp add: table_wf_def sel)
  qed (use old len in \<open>simp_all add: sel\<close>)
  moreover have "Get t' = (Get t)(k := None)"
    using len(1) shardFor_bound by (auto simp: Get_def fun_eq_iff delete_conv' nth_list_update sel(2))
  moreover have "Delete k t = (t', case callEvict (tb_heap t ! r) of None \<Rightarrow> [] | Some cb \<Rightarrow> [cb])"
    using some by (simp add: Delete_def t'_def)
  ultimately show thesis using ent sel by (intro that [of t']) simp_all
qed

section \<open>Eviction\<close>

definition the_callbacks :: "'cb session list \<Rightarrow> 'cb list" where
  "the_callbacks ss = List.map_filter callEvict ss"

lemma the_callbacks_simps [simp]:
  "the_callbacks [] = []"
  "the_callbacks (s # ss) = (case callEvict s of None \<Rightarrow> the_callbacks ss | Some cb \<Rightarrow> cb # the_callbacks ss)"
  "the_callbacks (ss @ ts) = the_callbacks ss @ the_callbacks ts"
  by (simp_all add: the_callbacks_def List.map_filter_simps split: option.splits) (simp add: List.map_filter_def)

lemma evictShard_spec:
  "evictShard heap c es =
     (filter (\<lambda>e. \<not> expired c (heap ! snd e)) es, length (filter (\<lambda>e. expired c (heap ! snd e)) es),
      the_callbacks (map (\<lambda>e. heap ! snd e) (filter (\<lambda>e. expired c (heap ! snd e)) es)))"
  by (induction es) (auto simp: Let_def split: option.splits)

lemma evictShards_spec:
  "evictShards heap c shs =
     (map (filter (\<lambda>e. \<not> expired c (heap ! snd e))) shs,
      length (filter (\<lambda>e. expired c (heap ! snd e)) (concat shs)),
      the_callbacks (map (\<lambda>e. heap ! snd e) (filter (\<lambda>e. expired c (heap ! snd e)) (concat shs))))"
  by (induction shs) (auto simp: evictShard_spec Let_def)

lemma concat_map_filter: "concat (map (filter P) xss) = filter P (concat xss)"
  by (induction xss) auto

definition evictCutoff :: "time \<Rightarrow> 'cb table \<Rightarrow> int" where
  "evictCutoff now t = t_wall now - tb_timeout t"

lemma evictExpired_effect:
  assumes "table_wf t" "evictExpired now t = (t', cbs)"
  defines "dead \<equiv> \<lambda>e. expired (evictCutoff now t) (tb_heap t ! snd e)"
  shows "table_wf t'" "tb_heap t' = tb_heap t" "tb_entries t' = filter (\<lambda>e. \<not> dead e) (tb_entries t)"
    "cbs = the_callbacks (map (\<lambda>e. tb_heap t ! snd e) (filter dead (tb_entries t)))"
    "Get t' k = (case Get t k of None \<Rightarrow> None
       | Some r \<Rightarrow> if expired (evictCutoff now t) (tb_heap t ! r) then None else Some r)"
proof -
  have t': "tb_shards t' = map (filter (\<lambda>e. \<not> dead e)) (tb_shards t)" "tb_heap t' = tb_heap t"
    "tb_count t' = tb_count t - of_nat (length (filter dead (tb_entries t)))"
    and cbs: "cbs = the_callbacks (map (\<lambda>e. tb_heap t ! snd e) (filter dead (tb_entries t)))"
    using assms(2) by (auto simp: evictExpired_def evictShards_spec Let_def dead_def evictCutoff_def tb_entries_def)
  show "tb_heap t' = tb_heap t" "cbs = the_callbacks (map (\<lambda>e. tb_heap t ! snd e) (filter dead (tb_entries t)))"
    using t' cbs by simp_all
  show ent: "tb_entries t' = filter (\<lambda>e. \<not> dead e) (tb_entries t)"
    by (simp add: tb_entries_def t' concat_map_filter)
  note len = conjunct1 [OF table_wf_shards [OF assms(1)]] conjunct2 [OF table_wf_shards [OF assms(1)]]
  have split: "length (tb_entries t) = length (filter dead (tb_entries t)) + length (tb_entries t')"
    unfolding ent by (rule sum_length_filter_compl [symmetric])
  show wf: "table_wf t'"
  proof (rule table_wf_of_entries [OF _ _ refl])
    show "tb_count t' = of_nat (length (tb_entries t'))"
      using assms(1) split by (simp add: table_wf_def t'(3))
  qed (use assms(1) len in \<open>auto simp: t' ent table_wf_def distinct_map_filter intro!: stripes_ok_filter\<close>)
  show "Get t' k = (case Get t k of None \<Rightarrow> None
       | Some r \<Rightarrow> if expired (evictCutoff now t) (tb_heap t ! r) then None else Some r)"
    unfolding Get_entries [OF wf] Get_entries [OF assms(1)] ent
    by (simp add: map_of_filter_distinct [OF table_wf_distinct [OF assms(1)]] dead_def split: option.splits)
qed

lemma length_entries_dom: "table_wf t \<Longrightarrow> length (tb_entries t) = card (dom (Get t))"
proof -
  assume wf: "table_wf t"
  have "dom (Get t) = fst ` set (tb_entries t)"
    using Get_entries [OF wf] by (auto simp: dom_map_of_conv_image_fst [symmetric])
  then show ?thesis using table_wf_distinct [OF wf] by (simp add: distinct_keys_def distinct_card flip: set_map)
qed

lemma updateSession_wf [inv_intros]: "table_wf t \<Longrightarrow> table_wf (updateSession r f t)"
  by (simp add: table_wf_def updateSession_def tb_entries_def)

lemma Get_updateSession [simp]: "Get (updateSession r f t) = Get t"
  by (simp add: Get_def updateSession_def fun_eq_iff)

lemma tb_abs_updateSession:
  assumes "table_wf t" "Get t k = Some r"
  shows "tb_abs (updateSession r f t) = (tb_abs t)(k \<mapsto> f (tb_heap t ! r))"
proof -
  have "tb_heap (updateSession r f t) ! r' = tb_heap t ! r'" if "Get t k' = Some r'" "k' \<noteq> k" for k' r'
    using Get_inj [OF assms(1), of k r' k'] assms(2) that by (cases "r = r'") (auto simp: updateSession_def)
  moreover have "tb_heap (updateSession r f t) ! r = f (tb_heap t ! r)"
    using table_wf_ref [OF assms] by (simp add: updateSession_def)
  ultimately have "tb_abs (updateSession r f t) k' = ((tb_abs t)(k \<mapsto> f (tb_heap t ! r))) k'" for k'
    using assms(2) by (cases "Get t k'") (auto simp: tb_abs_def)
  then show ?thesis by blast
qed

section \<open>The table as a map of sessions\<close>

text \<open>
  What the frontends rely on: a store of values under keys that creates only absent keys,
  removes, modifies in place, and sweeps out the values a deadline calls dead.
\<close>

datatype ('k, 'v, 'q) storeOp = Create 'k 'v | Remove 'k | Modify 'k "'v \<Rightarrow> 'v" | Sweep 'q

fun spec_op :: "('q \<Rightarrow> 'v \<Rightarrow> bool) \<Rightarrow> ('k, 'v, 'q) storeOp \<Rightarrow> ('k \<Rightarrow> 'v option) \<Rightarrow> 'k \<Rightarrow> 'v option" where
  "spec_op dead (Create k v) m = (if m k = None then m(k \<mapsto> v) else m)"
| "spec_op dead (Remove k) m = m(k := None)"
| "spec_op dead (Modify k f) m = m(k := map_option f (m k))"
| "spec_op dead (Sweep q) m = (\<lambda>k. case m k of None \<Rightarrow> None | Some v \<Rightarrow> if dead q v then None else Some v)"

fun store_op :: "('k \<Rightarrow> 'v \<Rightarrow> 't \<Rightarrow> 't) \<Rightarrow> ('k \<Rightarrow> 't \<Rightarrow> 't) \<Rightarrow> ('k \<Rightarrow> ('v \<Rightarrow> 'v) \<Rightarrow> 't \<Rightarrow> 't) \<Rightarrow> ('q \<Rightarrow> 't \<Rightarrow> 't)
    \<Rightarrow> ('k, 'v, 'q) storeOp \<Rightarrow> 't \<Rightarrow> 't" where
  "store_op create remove modify sweep (Create k v) = create k v"
| "store_op create remove modify sweep (Remove k) = remove k"
| "store_op create remove modify sweep (Modify k f) = modify k f"
| "store_op create remove modify sweep (Sweep q) = sweep q"

locale session_store =
  fixes inv :: "'t \<Rightarrow> bool" and abs :: "'t \<Rightarrow> 'k \<Rightarrow> 'v option"
    and create :: "'k \<Rightarrow> 'v \<Rightarrow> 't \<Rightarrow> 't" and remove :: "'k \<Rightarrow> 't \<Rightarrow> 't"
    and modify :: "'k \<Rightarrow> ('v \<Rightarrow> 'v) \<Rightarrow> 't \<Rightarrow> 't" and sweep :: "'q \<Rightarrow> 't \<Rightarrow> 't"
    and dead :: "'q \<Rightarrow> 'v \<Rightarrow> bool"
  assumes create_inv: "inv t \<Longrightarrow> inv (create k v t)"
    and create_abs: "inv t \<Longrightarrow> abs (create k v t) = spec_op dead (Create k v) (abs t)"
    and remove_inv: "inv t \<Longrightarrow> inv (remove k t)"
    and remove_abs: "inv t \<Longrightarrow> abs (remove k t) = spec_op dead (Remove k) (abs t)"
    and modify_inv: "inv t \<Longrightarrow> inv (modify k f t)"
    and modify_abs: "inv t \<Longrightarrow> abs (modify k f t) = spec_op dead (Modify k f) (abs t)"
    and sweep_inv: "inv t \<Longrightarrow> inv (sweep q t)"
    and sweep_abs: "inv t \<Longrightarrow> abs (sweep q t) = spec_op dead (Sweep q) (abs t)"
begin

lemma op_refines:
  "inv t \<Longrightarrow> inv (store_op create remove modify sweep x t) \<and>
     abs (store_op create remove modify sweep x t) = spec_op dead x (abs t)"
  by (cases x) (simp_all add: create_inv create_abs remove_inv remove_abs modify_inv modify_abs sweep_inv
      sweep_abs del: spec_op.simps)

lemma run_refines:
  "inv t \<Longrightarrow> inv (fold (store_op create remove modify sweep) xs t) \<and>
     abs (fold (store_op create remove modify sweep) xs t) = fold (spec_op dead) xs (abs t)"
  by (induction xs arbitrary: t) (simp_all add: op_refines)

end

definition tableCreate :: "key \<Rightarrow> 'cb session \<Rightarrow> 'cb table \<Rightarrow> 'cb table" where
  "tableCreate k s t = (case GetOrCreate (\<lambda>_. (Some s, ())) k t () of (_, _, t', _) \<Rightarrow> t')"

definition tableModify :: "key \<Rightarrow> ('cb session \<Rightarrow> 'cb session) \<Rightarrow> 'cb table \<Rightarrow> 'cb table" where
  "tableModify k f t = (case Get t k of None \<Rightarrow> t | Some r \<Rightarrow> updateSession r f t)"

abbreviation tableOp :: "(key, 'cb session, time) storeOp \<Rightarrow> 'cb table \<Rightarrow> 'cb table" where
  "tableOp \<equiv> store_op tableCreate (\<lambda>k t. fst (Delete k t)) tableModify (\<lambda>now t. fst (evictExpired now t))"

abbreviation timedOut :: "duration \<Rightarrow> time \<Rightarrow> 'cb session \<Rightarrow> bool" where
  "timedOut d now s \<equiv> expired (t_wall now - d) s"

lemma tableCreate_effect:
  assumes "table_wf t"
  shows "table_wf (tableCreate k s t)" "tb_timeout (tableCreate k s t) = tb_timeout t"
    "tb_abs (tableCreate k s t) = (if tb_abs t k = None then (tb_abs t)(k \<mapsto> s) else tb_abs t)"
proof -
  have "table_wf (tableCreate k s t) \<and> tb_timeout (tableCreate k s t) = tb_timeout t \<and>
    tb_abs (tableCreate k s t) = (if tb_abs t k = None then (tb_abs t)(k \<mapsto> s) else tb_abs t)"
  proof (cases "Get t k")
    case (Some r)
    then show ?thesis using assms by (simp add: tableCreate_def GetOrCreate_alone tb_abs_def)
  next
    case None
    obtain t' where t': "insertSession k s t = (length (tb_heap t), True, t')" "table_wf t'"
        "Get t' = (Get t)(k \<mapsto> length (tb_heap t))" "tb_heap t' = tb_heap t @ [s]" "tb_timeout t' = tb_timeout t"
      by (rule insertSession_fresh [OF assms None]) (rule that, assumption+)
    have "tableCreate k s t = t'" using None t'(1) by (simp add: tableCreate_def GetOrCreate_alone)
    moreover have "(tb_heap t @ [s]) ! r = tb_heap t ! r" if "Get t k' = Some r" for k' r
      using table_wf_ref [OF assms that] by (simp add: nth_append)
    ultimately have "tb_abs (tableCreate k s t) k' = ((tb_abs t)(k \<mapsto> s)) k'" for k'
      using None t' by (cases "Get t k'") (auto simp: tb_abs_def)
    then have "tb_abs (tableCreate k s t) = (tb_abs t)(k \<mapsto> s)" by blast
    then show ?thesis using None t' \<open>tableCreate k s t = t'\<close> by (simp add: tb_abs_def)
  qed
  then show "table_wf (tableCreate k s t)" "tb_timeout (tableCreate k s t) = tb_timeout t"
    "tb_abs (tableCreate k s t) = (if tb_abs t k = None then (tb_abs t)(k \<mapsto> s) else tb_abs t)" by blast+
qed

lemma Delete_effect:
  assumes "table_wf t"
  shows "table_wf (fst (Delete k t))" "tb_timeout (fst (Delete k t)) = tb_timeout t"
    "tb_abs (fst (Delete k t)) = (tb_abs t)(k := None)"
    "snd (Delete k t) = (case tb_abs t k of None \<Rightarrow> [] | Some s \<Rightarrow> the_callbacks [s])"
proof -
  show "tb_timeout (fst (Delete k t)) = tb_timeout t" by (simp add: Delete_def split: option.splits)
  have "table_wf (fst (Delete k t)) \<and> tb_abs (fst (Delete k t)) = (tb_abs t)(k := None) \<and>
    snd (Delete k t) = (case tb_abs t k of None \<Rightarrow> [] | Some s \<Rightarrow> the_callbacks [s])"
  proof (cases "Get t k")
    case None
    then show ?thesis using assms by (auto simp: Delete_def Get_def tb_abs_def fun_eq_iff)
  next
    case (Some r)
    obtain t' where "Delete k t = (t', case callEvict (tb_heap t ! r) of None \<Rightarrow> [] | Some cb \<Rightarrow> [cb])"
        "table_wf t'" "Get t' = (Get t)(k := None)" "tb_heap t' = tb_heap t"
      by (rule Delete_present [OF assms Some]) (rule that, assumption+)
    then show ?thesis using Some by (auto simp: tb_abs_def fun_eq_iff split: option.splits)
  qed
  then show "table_wf (fst (Delete k t))" "tb_abs (fst (Delete k t)) = (tb_abs t)(k := None)"
    "snd (Delete k t) = (case tb_abs t k of None \<Rightarrow> [] | Some s \<Rightarrow> the_callbacks [s])" by blast+
qed

lemma tableModify_effect:
  assumes "table_wf t"
  shows "table_wf (tableModify k f t)" "tb_timeout (tableModify k f t) = tb_timeout t"
    "tb_abs (tableModify k f t) = (tb_abs t)(k := map_option f (tb_abs t k))"
proof -
  show "table_wf (tableModify k f t)" "tb_timeout (tableModify k f t) = tb_timeout t"
    using assms updateSession_wf [OF assms] by (auto simp: tableModify_def updateSession_def split: option.splits)
  show "tb_abs (tableModify k f t) = (tb_abs t)(k := map_option f (tb_abs t k))"
    using tb_abs_updateSession [OF assms, of k _ f]
    by (cases "Get t k") (auto simp: tableModify_def tb_abs_def)
qed

lemma evict_abs:
  assumes "table_wf t"
  shows "table_wf (fst (evictExpired now t))" "tb_timeout (fst (evictExpired now t)) = tb_timeout t"
    "tb_abs (fst (evictExpired now t)) =
       (\<lambda>k. case tb_abs t k of None \<Rightarrow> None | Some s \<Rightarrow> if timedOut (tb_timeout t) now s then None else Some s)"
proof -
  note eff = evictExpired_effect [OF assms prod.collapse [symmetric], of now]
  show "table_wf (fst (evictExpired now t))" by (rule eff(1))
  show "tb_timeout (fst (evictExpired now t)) = tb_timeout t"
    by (simp add: evictExpired_def Let_def split: prod.splits)
  show "tb_abs (fst (evictExpired now t)) =
       (\<lambda>k. case tb_abs t k of None \<Rightarrow> None | Some s \<Rightarrow> if timedOut (tb_timeout t) now s then None else Some s)"
    using eff(2,5) by (auto simp: tb_abs_def fun_eq_iff evictCutoff_def split: option.splits)
qed

interpretation store: session_store "\<lambda>t. table_wf t \<and> tb_timeout t = d" tb_abs tableCreate
    "\<lambda>k t. fst (Delete k t)" tableModify "\<lambda>now t. fst (evictExpired now t)" "timedOut d" for d
  by unfold_locales
    (auto simp: tableCreate_effect Delete_effect tableModify_effect evict_abs fun_eq_iff)

lemma spec_op_dom:
  "finite (dom m) \<Longrightarrow> finite (dom (spec_op dead x m)) \<and> card (dom (spec_op dead x m)) \<le> Suc (card (dom m))"
proof (cases x)
  case (Create k v)
  then show "finite (dom m) \<Longrightarrow> ?thesis" by (simp add: card_insert_if)
next
  case (Remove k)
  then show "finite (dom m) \<Longrightarrow> ?thesis" by (simp add: card_Diff1_le le_SucI)
next
  case (Modify k f)
  then have "dom (spec_op dead x m) = dom m" by (auto simp: dom_def)
  then show "finite (dom m) \<Longrightarrow> ?thesis" by simp
next
  case (Sweep q)
  then have "dom (spec_op dead x m) \<subseteq> dom m" by (auto split: option.splits if_splits)
  then show "finite (dom m) \<Longrightarrow> ?thesis" by (simp add: card_mono finite_subset le_SucI)
qed

lemma spec_run_dom:
  "finite (dom m) \<Longrightarrow> finite (dom (fold (spec_op dead) xs m)) \<and>
     card (dom (fold (spec_op dead) xs m)) \<le> card (dom m) + length xs"
proof (induction xs arbitrary: m)
  case Nil
  then show ?case by simp
next
  case (Cons x xs)
  then show ?case using spec_op_dom [of m dead x] Cons.IH [of "spec_op dead x m"] by fastforce
qed

lemma sint_of_nat: "n < 2 ^ 63 \<Longrightarrow> sint (of_nat n :: 64 word) = int n"
proof -
  assume "n < 2 ^ 63"
  then have "signed_take_bit 63 (int n) = int n" by (intro signed_take_bit_int_eq_self) auto
  then show ?thesis by (simp add: signed_of_nat)
qed

lemma dom_tb_abs: "dom (tb_abs t) = dom (Get t)"
  by (auto simp: tb_abs_def)

lemma Len_dom: "table_wf t \<Longrightarrow> card (dom (Get t)) < 2 ^ 63 \<Longrightarrow> Len t = int (card (dom (Get t)))"
  using length_entries_dom [of t] by (simp add: Len_def table_wf_def sint_of_nat)

text \<open>C16: the table is a map.  Whatever sequence of creations, deletions, session updates and
  sweeps runs on a new table, the sharded table holds what the same operations make of an empty
  map from keys to sessions, and \<^verbatim>\<open>Len\<close> is the number of its keys (for fewer than \<open>2^63\<close>
  operations).\<close>

theorem Table_refines_map:
  assumes "length ops < 2 ^ 63"
  shows "tb_abs (fold tableOp ops (NewTable d i)) = fold (spec_op (timedOut d)) ops Map.empty \<and>
    Len (fold tableOp ops (NewTable d i)) = int (card (dom (fold (spec_op (timedOut d)) ops Map.empty)))"
proof -
  have new: "table_wf (NewTable d i) \<and> tb_timeout (NewTable d i) = d" "tb_abs (NewTable d i) = Map.empty"
    using NewTable_wf by (auto simp: NewTable_def tb_abs_def Get_def shardFor_bound fun_eq_iff)
  note ref = store.run_refines [OF new(1), of ops, unfolded new(2)]
  have "card (dom (fold (spec_op (timedOut d)) ops Map.empty)) < 2 ^ 63"
    using spec_run_dom [of Map.empty "timedOut d" ops] assms by simp
  then show ?thesis using ref Len_dom [of "fold tableOp ops (NewTable d i)"] by (simp flip: dom_tb_abs)
qed

definition test_key :: "16 word \<Rightarrow> key" where
  "test_key port = \<lparr>k_Addr = \<lparr>ap_addr = Addr4 0xC0A80164, ap_port = port\<rparr>, k_FrontendName = ''game''\<rparr>"

definition test_sess :: "nat session" where
  "test_sess = UpdateServer ''10.0.0.10:27015'' (Some 0) (NewSession ''10.0.0.10:27015'' \<lparr>t_wall = 0, t_mono = 0\<rparr>)"

theorem Table_refines_map_witness:
  "tb_abs (fold tableOp [Create (test_key 1) test_sess, Create (test_key 2) test_sess,
       Modify (test_key 2) (Touch 100 \<lparr>t_wall = 50, t_mono = 0\<rparr>), Sweep \<lparr>t_wall = 70, t_mono = 0\<rparr>] (NewTable 60 10)) (test_key 1) = None"
  using Table_refines_map [of "[Create (test_key 1) test_sess, Create (test_key 2) test_sess,
       Modify (test_key 2) (Touch 100 \<lparr>t_wall = 50, t_mono = 0\<rparr>), Sweep \<lparr>t_wall = 70, t_mono = 0\<rparr>]" 60 10]
  by (simp add: test_key_def test_sess_def expired_def NewSession_def UpdateServer_def)

text \<open>C18: \<^verbatim>\<open>GetOrCreate\<close>, whatever other goroutines do to the table while \<^verbatim>\<open>newFn\<close> runs without a lock.  A
  session found by the first look is returned untouched and \<^verbatim>\<open>newFn\<close> is not called.  Otherwise
  \<^verbatim>\<open>newFn\<close> is called once.  When it fails, the call changes nothing.  When it makes a session but
  another goroutine has put one under the key in the meantime, that one is returned, not reported
  as created, and the new one is thrown away.  Else the table gets exactly the new session under
  the key, reported as created, in a place of its own.\<close>

theorem GetOrCreate_exact:
  assumes "table_wf t" and "table_wf (meanwhile t)" and "GetOrCreate_during meanwhile newFn k t w = (res, created, t', w')"
  shows "table_wf t' \<and>
    (case tb_abs t k of
       Some s \<Rightarrow> \<not> created \<and> t' = t \<and> w' = w \<and> res = Get t k
     | None \<Rightarrow> w' = snd (newFn w) \<and>
         (case fst (newFn w) of
            None \<Rightarrow> res = None \<and> \<not> created \<and> t' = meanwhile t
          | Some s \<Rightarrow>
              (case tb_abs (meanwhile t) k of
                 Some s' \<Rightarrow> \<not> created \<and> t' = meanwhile t \<and> res = Get (meanwhile t) k
               | None \<Rightarrow> created \<and> res = Some (length (tb_heap (meanwhile t))) \<and>
                   Get t' = (Get (meanwhile t))(k \<mapsto> length (tb_heap (meanwhile t))) \<and>
                   tb_abs t' = (tb_abs (meanwhile t))(k \<mapsto> s) \<and> tb_count t' = tb_count (meanwhile t) + 1)))"
proof (cases "Get t k")
  case (Some r)
  then have "res = Some r" "\<not> created" "t' = t" "w' = w" using assms(3) by (auto simp: GetOrCreate_during_def)
  then show ?thesis using assms(1) Some by (simp add: tb_abs_def)
next
  case None
  let ?u = "meanwhile t"
  obtain x y where n: "newFn w = (x, y)" by fastforce
  have old: "tb_abs t k = None" using None by (simp add: tb_abs_def)
  show ?thesis
  proof (cases x)
    case None
    then show ?thesis using assms(2,3) \<open>Get t k = None\<close> by (simp add: GetOrCreate_during_def n old)
  next
    case (Some s)
    have run: "insertSession k s ?u = (the res, created, t')" "res \<noteq> None" "w' = y"
      using assms(3) None by (auto simp: GetOrCreate_during_def n Some split: prod.splits)
    show ?thesis
    proof (cases "Get ?u k")
      case (Some r)
      then have "the res = r" "\<not> created" "t' = ?u" using run(1) by (simp_all add: insertSession_def Get_def)
      moreover have "tb_abs ?u k = Some (tb_heap ?u ! r)" using Some by (simp add: tb_abs_def)
      moreover have "res = Some (the res)" using run(2) by simp
      ultimately show ?thesis using assms(2) run(3) Some \<open>x = Some s\<close> by (simp add: n old)
    next
      case None
      obtain v where v: "insertSession k s ?u = (length (tb_heap ?u), True, v)" "table_wf v"
          "Get v = (Get ?u)(k \<mapsto> length (tb_heap ?u))" "tb_count v = tb_count ?u + 1"
        by (rule insertSession_fresh [OF assms(2) None]) (rule that, assumption+)
      have "tableCreate k s ?u = v" using None v(1) by (simp add: tableCreate_def GetOrCreate_alone)
      then have "tb_abs v = (tb_abs ?u)(k \<mapsto> s)"
        using tableCreate_effect(3) [OF assms(2), of k s] None by (simp add: tb_abs_def)
      moreover have "tb_abs ?u k = None" using None by (simp add: tb_abs_def)
      moreover have "res = Some (length (tb_heap ?u))" "created" "t' = v" using run(1,2) v(1) by auto
      ultimately show ?thesis using v run(3) \<open>x = Some s\<close> by (simp add: n old)
    qed
  qed
qed

text \<open>Another goroutine creates the session first.\<close>

theorem GetOrCreate_exact_witness:
  "fst (snd (GetOrCreate_during (tableCreate (test_key 1) test_sess) (\<lambda>n. (Some test_sess, Suc n)) (test_key 1) (NewTable 60 10) 0)) = False"
proof -
  let ?g = "GetOrCreate_during (tableCreate (test_key 1) test_sess) (\<lambda>n. (Some test_sess, Suc n)) (test_key 1) (NewTable 60 10) 0"
  note cr = tableCreate_effect [OF NewTable_wf, of "test_key 1" test_sess 60 10]
  have none: "tb_abs (NewTable 60 10) (test_key 1) = None"
    by (simp add: NewTable_def tb_abs_def Get_def shardFor_bound)
  have "?g = (fst ?g, fst (snd ?g), fst (snd (snd ?g)), snd (snd (snd ?g)))" by simp
  from GetOrCreate_exact [OF NewTable_wf cr(1) this] show ?thesis by (simp add: none cr(3))
qed

section \<open>Eviction and search, exactly\<close>

lemma mset_the_callbacks: "mset (the_callbacks ss) = (\<Sum>s \<in># mset ss. mset (the_callbacks [s]))"
  by (induction ss) (auto split: option.splits)

lemma sum_list_distinct_map_of:
  assumes "distinct_keys xs"
  shows "(\<Sum>x \<in># mset xs. g (snd x)) = (\<Sum>k \<in> dom (map_of xs). g (the (map_of xs k)))"
proof -
  have "mset xs = mset_set (set xs)" using assms by (simp add: distinct_keys_def distinct_map mset_set_set)
  then have "(\<Sum>x \<in># mset xs. g (snd x)) = (\<Sum>x \<in> set xs. g (snd x))" by (simp add: sum_unfold_sum_mset)
  also have "\<dots> = (\<Sum>k \<in> fst ` set xs. g (the (map_of xs k)))"
    using assms by (subst sum.reindex) (auto simp: distinct_keys_def distinct_map intro!: sum.cong)
  finally show ?thesis by (simp add: dom_map_of_conv_image_fst)
qed

lemma evictExpired_abs:
  assumes "table_wf t" and "evictExpired now t = (t', cbs)"
  defines "dead \<equiv> {k. \<exists>s. tb_abs t k = Some s \<and> s_LastSeen s < t_wall now - tb_timeout t}"
  shows "table_wf t' \<and> tb_abs t' = (\<lambda>k. if k \<in> dead then None else tb_abs t k) \<and>
    mset cbs = (\<Sum>k \<in> dead. mset (the_callbacks [the (tb_abs t k)]))"
proof -
  let ?dead = "\<lambda>e. expired (evictCutoff now t) (tb_heap t ! snd e)"
  let ?xs = "filter ?dead (tb_entries t)"
  note eff = evictExpired_effect [OF assms(1,2)]
  have get: "map_of ?xs k = (case Get t k of None \<Rightarrow> None | Some r \<Rightarrow> if ?dead (k, r) then Some r else None)" for k
    unfolding Get_entries [OF assms(1)]
    by (simp add: map_of_filter_distinct [OF table_wf_distinct [OF assms(1)]])
  have dom: "dom (map_of ?xs) = dead"
  proof (rule set_eqI)
    fix k
    have "k \<in> dead \<longleftrightarrow> (\<exists>r. Get t k = Some r \<and> ?dead (k, r))"
      by (auto simp: dead_def tb_abs_def expired_def evictCutoff_def)
    then show "k \<in> dom (map_of ?xs) \<longleftrightarrow> k \<in> dead"
      using get [of k] by (cases "Get t k") (auto simp: domIff)
  qed
  have "mset cbs = (\<Sum>e \<in># mset ?xs. mset (the_callbacks [tb_heap t ! snd e]))"
    unfolding eff(4) by (subst mset_the_callbacks) (simp add: image_mset.compositionality comp_def)
  also have "\<dots> = (\<Sum>k \<in> dead. mset (the_callbacks [tb_heap t ! the (map_of ?xs k)]))"
    using sum_list_distinct_map_of [of ?xs "\<lambda>r. mset (the_callbacks [tb_heap t ! r])"]
      table_wf_distinct [OF assms(1)] by (simp only: dom distinct_keys_filter)
  also have "\<dots> = (\<Sum>k \<in> dead. mset (the_callbacks [the (tb_abs t k)]))"
  proof (rule sum.cong [OF refl])
    fix k
    assume "k \<in> dead"
    then obtain r where "Get t k = Some r" "?dead (k, r)"
      by (auto simp: dead_def tb_abs_def expired_def evictCutoff_def)
    then show "mset (the_callbacks [tb_heap t ! the (map_of ?xs k)]) = mset (the_callbacks [the (tb_abs t k)])"
      by (simp add: get tb_abs_def)
  qed
  finally have "mset cbs = (\<Sum>k \<in> dead. mset (the_callbacks [the (tb_abs t k)]))" .
  moreover have "tb_abs t' k = (if k \<in> dead then None else tb_abs t k)" for k
    using eff(2) eff(5) [of k]
    by (cases "Get t k") (auto simp: tb_abs_def dead_def expired_def evictCutoff_def)
  ultimately show ?thesis using eff(1) by blast
qed

text \<open>C17: eviction.  A sweep removes exactly the sessions last seen before the timeout, leaves every
  other session as it is, and runs the eviction callback of every removed session exactly once
  and no other callback.\<close>

theorem evictExpired_exact:
  assumes "table_wf t" and "evictExpired now t = (t', cbs)"
  defines "dead \<equiv> {k. \<exists>s. tb_abs t k = Some s \<and> s_LastSeen s < t_wall now - tb_timeout t}"
  shows "table_wf t' \<and> tb_abs t' = (\<lambda>k. if k \<in> dead then None else tb_abs t k) \<and>
    mset cbs = (\<Sum>k \<in> dead. mset (the_callbacks [the (tb_abs t k)]))"
  using evictExpired_abs [OF assms(1,2)] by (simp add: dead_def)

theorem evictExpired_exact_witness:
  "mset (snd (evictExpired \<lparr>t_wall = 61, t_mono = 0\<rparr> (tableCreate (test_key 1) test_sess (NewTable 60 10)))) = {#0#}"
proof -
  let ?t = "tableCreate (test_key 1) test_sess (NewTable 60 10)" and ?now = "\<lparr>t_wall = 61, t_mono = 0\<rparr>"
  have wf: "table_wf ?t" by (rule tableCreate_effect(1) [OF NewTable_wf])
  have abs: "tb_abs ?t = [test_key 1 \<mapsto> test_sess]" "tb_timeout ?t = 60"
    using tableCreate_effect [OF NewTable_wf, of "test_key 1" test_sess 60 10]
    by (auto simp: NewTable_def tb_abs_def Get_def shardFor_bound fun_eq_iff)
  have cb: "callEvict test_sess = Some 0" by (simp add: test_sess_def UpdateServer_def callEvict_def)
  have dead: "{k. \<exists>s. tb_abs ?t k = Some s \<and> s_LastSeen s < t_wall ?now - tb_timeout ?t} = {test_key 1}"
    unfolding abs by (auto simp: test_sess_def UpdateServer_def NewSession_def)
  show ?thesis
    using conjunct2 [OF conjunct2 [OF evictExpired_exact [OF wf prod.collapse [symmetric], of ?now]], unfolded dead]
    by (simp add: abs cb)
qed

text \<open>The sessions a search for a client looks at.\<close>

definition serves :: "string \<Rightarrow> string \<Rightarrow> 'cb table \<Rightarrow> key \<Rightarrow> 'cb session \<Rightarrow> bool" where
  "serves fname baddr t k s \<longleftrightarrow> tb_abs t k = Some s \<and> k_FrontendName k = fname \<and> BackendAddr s = baddr"

lemma foldl_betterClient:
  fixes heap :: "'cb session list" and fname baddr :: string
  defines "match \<equiv> \<lambda>e. k_FrontendName (fst e) = fname \<and> BackendAddr (heap ! snd e) = baddr"
  shows "case foldl (betterClient heap fname baddr) None es of
      None \<Rightarrow> \<forall>e \<in> set es. \<not> match e
    | Some (k, ci, seen) \<Rightarrow> \<exists>r. (k, r) \<in> set es \<and> match (k, r) \<and> ci = s_ConnIndex (heap ! r) \<and>
        seen = s_LastSeen (heap ! r) \<and> (\<forall>e \<in> set es. match e \<longrightarrow> s_LastSeen (heap ! snd e) \<le> seen)"
proof (induction es rule: rev_induct)
  case Nil
  then show ?case by simp
next
  case (snoc e es)
  let ?b = "foldl (betterClient heap fname baddr) None es"
  show ?case
  proof (cases "match e")
    case False
    then have "foldl (betterClient heap fname baddr) None (es @ [e]) = ?b"
      by (auto simp: betterClient_def match_def Let_def)
    then show ?thesis using snoc False by (auto split: option.splits prod.splits)
  next
    case True
    show ?thesis
    proof (cases ?b)
      case None
      then have "foldl (betterClient heap fname baddr) None (es @ [e]) =
          Some (fst e, s_ConnIndex (heap ! snd e), s_LastSeen (heap ! snd e))"
        using True by (simp add: betterClient_def match_def Let_def)
      then show ?thesis using snoc None True by (cases e) auto
    next
      case (Some b)
      obtain k ci seen where b: "b = (k, ci, seen)" by (cases b)
      have "foldl (betterClient heap fname baddr) None (es @ [e]) =
          (if seen < s_LastSeen (heap ! snd e)
           then Some (fst e, s_ConnIndex (heap ! snd e), s_LastSeen (heap ! snd e)) else Some (k, ci, seen))"
        using True Some by (simp add: betterClient_def match_def Let_def b)
      then show ?thesis using snoc Some True by (cases e) (fastforce simp: b)
    qed
  qed
qed

text \<open>Search.  \<^verbatim>\<open>FindMostRecentClientByBackend\<close> finds a client exactly when some session of the
  frontend is bound to the backend, and then one that was seen last among those, with its
  listener index, in whatever order the maps are walked.\<close>

theorem FindMostRecent_exact:
  assumes "table_wf t"
  shows "case FindMostRecentClientByBackend t fname baddr of
      None \<Rightarrow> \<forall>k s. \<not> serves fname baddr t k s
    | Some (k, ci) \<Rightarrow> \<exists>s. serves fname baddr t k s \<and> ci = sint (s_ConnIndex s) \<and>
        (\<forall>k' s'. serves fname baddr t k' s' \<longrightarrow> s_LastSeen s' \<le> s_LastSeen s)"
proof -
  have flat: "foldl (\<lambda>best sh. foldl g best sh) b shs = foldl g b (concat shs)"
    for g :: "'b \<Rightarrow> key \<times> nat \<Rightarrow> 'b" and b shs
    by (induction shs arbitrary: b) auto
  have entry: "(k, r) \<in> set (tb_entries t) \<longleftrightarrow> Get t k = Some r" for k r
    using table_wf_distinct [OF assms] by (simp add: Get_entries [OF assms] distinct_keys_def)
  have sv: "serves fname baddr t k s \<longleftrightarrow> (\<exists>r. (k, r) \<in> set (tb_entries t) \<and> tb_heap t ! r = s \<and>
      k_FrontendName k = fname \<and> BackendAddr s = baddr)" for k s
    by (auto simp: serves_def tb_abs_def entry)
  let ?b = "foldl (betterClient (tb_heap t) fname baddr) None (tb_entries t)"
  have find: "FindMostRecentClientByBackend t fname baddr = map_option (\<lambda>(k, ci, _). (k, sint ci)) ?b"
    by (simp add: FindMostRecentClientByBackend_def flat tb_entries_def)
  note spec = foldl_betterClient [where heap = "tb_heap t" and fname = fname and baddr = baddr and es = "tb_entries t"]
  show ?thesis
  proof (cases ?b)
    case None
    then show ?thesis using spec by (auto simp: find sv)
  next
    case (Some b)
    obtain k ci seen where b: "b = (k, ci, seen)" by (cases b)
    obtain r where r: "(k, r) \<in> set (tb_entries t)" "k_FrontendName k = fname" "BackendAddr (tb_heap t ! r) = baddr"
        "ci = s_ConnIndex (tb_heap t ! r)"
      and best: "\<And>e. e \<in> set (tb_entries t) \<Longrightarrow> k_FrontendName (fst e) = fname \<Longrightarrow>
        BackendAddr (tb_heap t ! snd e) = baddr \<Longrightarrow> s_LastSeen (tb_heap t ! snd e) \<le> s_LastSeen (tb_heap t ! r)"
      using spec by (auto simp: Some b)
    have "serves fname baddr t k (tb_heap t ! r)" using r unfolding sv by blast
    moreover have "s_LastSeen s' \<le> s_LastSeen (tb_heap t ! r)" if "serves fname baddr t k' s'" for k' s'
      using best [of "(k', _)"] that unfolding sv by auto
    ultimately show ?thesis using r(4) by (auto simp: find Some b)
  qed
qed

end
