(* ===== verification/Metrics.thy ===== *)
theory Metrics
  imports Backend
begin

text \<open>
  \<^verbatim>\<open>src/internal/metrics/metrics.go\<close>: the counters every packet handler adds to, and the
  \<^verbatim>\<open>/metrics\<close> handler that reads them.  The counters are \<^verbatim>\<open>atomic.Int64\<close> cells: words that wrap.
  The registered callbacks read the rest of the proxy, so they are functions of a state type
  parameter.  The HTTP server and the JSON encoding of the response are not modelled.
\<close>

section \<open>Counters\<close>

record counters =
  PacketsReceived :: "64 word"
  PacketsForwarded :: "64 word"
  PacketsDropped :: "64 word"
  PacketsShaped :: "64 word"
  PacketsDroppedRateLimit :: "64 word"
  PacketsDroppedFragment :: "64 word"
  PacketsDroppedAbuse :: "64 word"
  BytesIn :: "64 word"
  BytesOut :: "64 word"
  ActiveSessions :: "64 word"

definition zeroCounters :: counters where
  "zeroCounters = \<lparr>PacketsReceived = 0, PacketsForwarded = 0, PacketsDropped = 0, PacketsShaped = 0,
     PacketsDroppedRateLimit = 0, PacketsDroppedFragment = 0, PacketsDroppedAbuse = 0, BytesIn = 0,
     BytesOut = 0, ActiveSessions = 0\<rparr>"

text \<open>The groups of counter updates the packet handlers make.\<close>

definition countReceived :: "int \<Rightarrow> counters \<Rightarrow> counters" where
  "countReceived n c = c\<lparr>PacketsReceived := PacketsReceived c + 1, BytesIn := BytesIn c + word_of_int n\<rparr>"

definition countForwarded :: "int \<Rightarrow> counters \<Rightarrow> counters" where
  "countForwarded n c = c\<lparr>PacketsForwarded := PacketsForwarded c + 1, BytesOut := BytesOut c + word_of_int n\<rparr>"

definition countDropped :: "counters \<Rightarrow> counters" where
  "countDropped c = c\<lparr>PacketsDropped := PacketsDropped c + 1\<rparr>"

definition countShaped :: "counters \<Rightarrow> counters" where
  "countShaped c = c\<lparr>PacketsDropped := PacketsDropped c + 1, PacketsShaped := PacketsShaped c + 1,
     PacketsDroppedRateLimit := PacketsDroppedRateLimit c + 1\<rparr>"

definition countFragment :: "counters \<Rightarrow> counters" where
  "countFragment c = c\<lparr>PacketsDropped := PacketsDropped c + 1,
     PacketsDroppedFragment := PacketsDroppedFragment c + 1\<rparr>"

definition countAbuse :: "counters \<Rightarrow> counters" where
  "countAbuse c = c\<lparr>PacketsDropped := PacketsDropped c + 1, PacketsDroppedAbuse := PacketsDroppedAbuse c + 1\<rparr>"

lemmas count_defs = countReceived_def countForwarded_def countDropped_def countShaped_def countFragment_def
  countAbuse_def

section \<open>The metrics server\<close>

record backendStatus =
  bs_Address :: string
  bs_Healthy :: bool
  bs_Conns :: int

record 'w metricsServer =
  ms_addr :: string
  ms_statusFns :: "('w \<Rightarrow> backendStatus list) list"
  ms_sessionCountFn :: "('w \<Rightarrow> int) option"
  ms_serving :: bool

definition Metrics_New :: "string \<Rightarrow> 'w metricsServer" where
  "Metrics_New a = \<lparr>ms_addr = a, ms_statusFns = [], ms_sessionCountFn = None, ms_serving = False\<rparr>"

definition RegisterBackend :: "('w \<Rightarrow> backendStatus list) \<Rightarrow> 'w metricsServer \<Rightarrow> 'w metricsServer" where
  "RegisterBackend fn s = s\<lparr>ms_statusFns := ms_statusFns s @ [fn]\<rparr>"

definition RegisterSessionCount :: "('w \<Rightarrow> int) \<Rightarrow> 'w metricsServer \<Rightarrow> 'w metricsServer" where
  "RegisterSessionCount fn s = s\<lparr>ms_sessionCountFn := Some fn\<rparr>"

text \<open>\<open>listen\<close> says whether \<^verbatim>\<open>net.Listen\<close> can bind the address.\<close>

definition Metrics_Start :: "(string \<Rightarrow> bool) \<Rightarrow> 'w metricsServer \<Rightarrow> string + 'w metricsServer" where
  "Metrics_Start listen s = (if listen (ms_addr s) then Inr (s\<lparr>ms_serving := True\<rparr>) else Inl (ms_addr s))"

definition Metrics_Stop :: "'w metricsServer \<Rightarrow> 'w metricsServer" where
  "Metrics_Stop s = s\<lparr>ms_serving := False\<rparr>"

record metricsResponse =
  mr_PacketsReceived :: int
  mr_PacketsForwarded :: int
  mr_PacketsDropped :: int
  mr_PacketsShaped :: int
  mr_PacketsDroppedRateLimit :: int
  mr_PacketsDroppedFragment :: int
  mr_PacketsDroppedAbuse :: int
  mr_BytesIn :: int
  mr_BytesOut :: int
  mr_ActiveSessions :: int
  mr_Backends :: "backendStatus list"

definition handleMetrics :: "'w metricsServer \<Rightarrow> counters \<Rightarrow> 'w \<Rightarrow> metricsResponse" where
  "handleMetrics s c w =
     \<lparr>mr_PacketsReceived = sint (PacketsReceived c), mr_PacketsForwarded = sint (PacketsForwarded c),
      mr_PacketsDropped = sint (PacketsDropped c), mr_PacketsShaped = sint (PacketsShaped c),
      mr_PacketsDroppedRateLimit = sint (PacketsDroppedRateLimit c),
      mr_PacketsDroppedFragment = sint (PacketsDroppedFragment c),
      mr_PacketsDroppedAbuse = sint (PacketsDroppedAbuse c), mr_BytesIn = sint (BytesIn c),
      mr_BytesOut = sint (BytesOut c),
      mr_ActiveSessions = (case ms_sessionCountFn s of None \<Rightarrow> sint (ActiveSessions c) | Some fn \<Rightarrow> fn w),
      mr_Backends = concat (map (\<lambda>fn. fn w) (ms_statusFns s))\<rparr>"

text \<open>The callback \<^verbatim>\<open>proxy.go\<close> registers for a pool.\<close>

definition poolStatus :: "pool \<Rightarrow> backendStatus list" where
  "poolStatus p = map (\<lambda>s. \<lparr>bs_Address = srv_Address s, bs_Healthy = srv_Healthy s, bs_Conns = ConnCount s\<rparr>) (p_servers p)"

end
