(* ===== verification/Fragment.thy ===== *)
theory Fragment
  imports Netip
begin

text \<open>
  \<^verbatim>\<open>src/internal/fragment\<close>: detection of IP fragments in the ancillary data of a datagram.
  \<^verbatim>\<open>syscall.ParseSocketControlMessage\<close> is modelled for 64-bit little-endian Linux: a
  header is an 8-byte length, a 4-byte level and a 4-byte type, and messages start at multiples
  of 8 bytes.
\<close>

section \<open>Control messages\<close>

fun le_nat :: "byte list \<Rightarrow> nat" where
  "le_nat [] = 0"
| "le_nat (b # bs) = unat b + 256 * le_nat bs"

fun le_bytes :: "nat \<Rightarrow> nat \<Rightarrow> byte list" where
  "le_bytes 0 n = []"
| "le_bytes (Suc k) n = of_nat (n mod 256) # le_bytes k (n div 256)"

record cmsg =
  cm_Level :: "32 word"
  cm_Type :: "32 word"
  cm_Data :: "byte list"

definition SizeofCmsghdr :: nat where
  "SizeofCmsghdr = 16"

definition cmsgAlignOf :: "nat \<Rightarrow> nat" where
  "cmsgAlignOf n = (n + 7) div 8 * 8"

definition readCmsg :: "byte list \<Rightarrow> nat \<Rightarrow> cmsg" where
  "readCmsg b len = \<lparr>cm_Level = of_nat (le_nat (take 4 (drop 8 b))), cm_Type = of_nat (le_nat (take 4 (drop 12 b))),
     cm_Data = drop SizeofCmsghdr (take len b)\<rparr>"

text \<open>\<open>None\<close> is the error \<^verbatim>\<open>EINVAL\<close>.\<close>

function ParseSocketControlMessage :: "byte list \<Rightarrow> cmsg list option" where
  "ParseSocketControlMessage b =
     (if length b < SizeofCmsghdr then Some []
      else let len = le_nat (take 8 b) in
        if len < SizeofCmsghdr \<or> len > length b then None
        else map_option ((#) (readCmsg b len)) (ParseSocketControlMessage (drop (cmsgAlignOf len) b)))"
  by pat_completeness auto
termination
proof (relation "measure length")
  fix b :: "byte list" and len
  assume "\<not> length b < SizeofCmsghdr" "len = le_nat (take 8 b)" "\<not> (len < SizeofCmsghdr \<or> length b < len)"
  moreover from this have "0 < cmsgAlignOf len" unfolding cmsgAlignOf_def SizeofCmsghdr_def by linarith
  ultimately show "(drop (cmsgAlignOf len) b, b) \<in> measure length" by (auto simp: SizeofCmsghdr_def)
qed simp

declare ParseSocketControlMessage.simps [simp del]

section \<open>Detection\<close>

abbreviation IPPROTO_IP :: "32 word" where
  "IPPROTO_IP \<equiv> 0"

abbreviation IP_RECVFRAGSIZE :: "32 word" where
  "IP_RECVFRAGSIZE \<equiv> 25"

definition IsFragmentedOOB :: "byte list \<Rightarrow> bool" where
  "IsFragmentedOOB oob =
     (if length oob = 0 then False
      else case ParseSocketControlMessage oob of
        None \<Rightarrow> False
      | Some msgs \<Rightarrow> list_ex (\<lambda>m. cm_Level m = IPPROTO_IP \<and> cm_Type m = IP_RECVFRAGSIZE) msgs)"

text \<open>\<^verbatim>\<open>EnableDetection\<close>, as a function of what the three system interfaces answer.\<close>

definition EnableDetection :: "bool \<Rightarrow> bool \<Rightarrow> bool \<Rightarrow> bool" where
  "EnableDetection syscallConn control setsockopt =
     (if \<not> syscallConn then False else if \<not> control then False else setsockopt)"

text \<open>The platforms without detection.\<close>

definition IsFragmentedOOB_other :: "byte list \<Rightarrow> bool" where
  "IsFragmentedOOB_other oob = False"

section \<open>Messages as the kernel lays them out\<close>

definition encodeCmsg :: "cmsg \<Rightarrow> byte list" where
  "encodeCmsg m =
     (let len = SizeofCmsghdr + length (cm_Data m) in
      le_bytes 8 len @ le_bytes 4 (unat (cm_Level m)) @ le_bytes 4 (unat (cm_Type m)) @ cm_Data m @
      replicate (cmsgAlignOf len - len) 0)"

lemma length_le_bytes [simp]: "length (le_bytes k n) = k"
  by (induction k arbitrary: n) auto

lemma le_nat_le_bytes: "le_nat (le_bytes k n) = n mod 256 ^ k"
proof (induction k arbitrary: n)
  case 0
  then show ?case by simp
next
  case (Suc k)
  have "unat (of_nat (n mod 256) :: byte) = n mod 256"
    by (simp add: unsigned_of_nat take_bit_eq_mod)
  then show ?case using Suc by (simp add: mod_mult2_eq)
qed

lemma cmsgAlignOf_ge: "n \<le> cmsgAlignOf n"
  unfolding cmsgAlignOf_def by presburger

lemma length_encodeCmsg: "length (encodeCmsg m) = cmsgAlignOf (SizeofCmsghdr + length (cm_Data m))"
  using cmsgAlignOf_ge [of "SizeofCmsghdr + length (cm_Data m)"]
  by (simp add: encodeCmsg_def Let_def SizeofCmsghdr_def)

lemma encodeCmsg_parts:
  fixes m rest
  defines "b \<equiv> encodeCmsg m @ rest" and "len \<equiv> SizeofCmsghdr + length (cm_Data m)"
  assumes "len < 2 ^ 64"
  shows "le_nat (take 8 b) = len" "readCmsg b len = m" "drop (cmsgAlignOf len) b = rest" "len \<le> length b"
proof -
  show "drop (cmsgAlignOf len) b = rest" by (simp add: b_def len_def flip: length_encodeCmsg)
  show "len \<le> length b" using cmsgAlignOf_ge [of len] by (simp add: b_def length_encodeCmsg len_def)
  have b: "b = le_bytes 8 len @ le_bytes 4 (unat (cm_Level m)) @ le_bytes 4 (unat (cm_Type m)) @ cm_Data m @
      replicate (cmsgAlignOf len - len) 0 @ rest"
    by (simp add: b_def encodeCmsg_def Let_def len_def)
  show "le_nat (take 8 b) = len" using assms(3) by (simp add: b le_nat_le_bytes)
  have "le_nat (le_bytes 4 (unat w)) = unat w" for w :: "32 word"
    using unsigned_less [of w, where ?'a = nat] by (simp add: le_nat_le_bytes)
  then show "readCmsg b len = m"
    by (simp add: readCmsg_def b SizeofCmsghdr_def len_def)
qed

lemma Parse_encode:
  assumes "list_all (\<lambda>m. SizeofCmsghdr + length (cm_Data m) < 2 ^ 64) ms"
  shows "ParseSocketControlMessage (concat (map encodeCmsg ms)) = Some ms"
  using assms
proof (induction ms)
  case Nil
  then show ?case by (simp add: ParseSocketControlMessage.simps SizeofCmsghdr_def)
next
  case (Cons m ms)
  let ?len = "SizeofCmsghdr + length (cm_Data m)" and ?b = "encodeCmsg m @ concat (map encodeCmsg ms)"
  note parts = encodeCmsg_parts [of m "concat (map encodeCmsg ms)"]
  have "?len < 2 ^ 64" using Cons.prems by simp
  then have "ParseSocketControlMessage ?b = map_option ((#) m) (ParseSocketControlMessage (concat (map encodeCmsg ms)))"
    using parts by (subst ParseSocketControlMessage.simps) (simp add: Let_def)
  then show ?case using Cons by simp
qed

text \<open>C39: fragment detection.  For ancillary data laid out as any sequence of control messages, the
  parser recovers the messages and the datagram counts as fragmented exactly when one of them is
  the fragment-size message of the IP level.\<close>

theorem IsFragmentedOOB_exact:
  assumes "list_all (\<lambda>m. SizeofCmsghdr + length (cm_Data m) < 2 ^ 64) ms"
  shows "ParseSocketControlMessage (concat (map encodeCmsg ms)) = Some ms \<and>
    (IsFragmentedOOB (concat (map encodeCmsg ms)) \<longleftrightarrow> (\<exists>m \<in> set ms. cm_Level m = 0 \<and> cm_Type m = 25))"
proof -
  have "ms = []" if "concat (map encodeCmsg ms) = []"
  proof (rule ccontr)
    assume "ms \<noteq> []"
    then obtain m ms' where "ms = m # ms'" by (cases ms) auto
    with that have "length (encodeCmsg m) = 0" by simp
    then show False by (simp add: length_encodeCmsg cmsgAlignOf_def SizeofCmsghdr_def)
  qed
  then show ?thesis using Parse_encode [OF assms] by (auto simp: IsFragmentedOOB_def list_ex_iff)
qed

theorem IsFragmentedOOB_exact_witness:
  "IsFragmentedOOB (encodeCmsg \<lparr>cm_Level = 0, cm_Type = 25, cm_Data = [0, 5, 0, 0]\<rparr>)"
  using IsFragmentedOOB_exact [of "[\<lparr>cm_Level = 0, cm_Type = 25, cm_Data = [0, 5, 0, 0]\<rparr>]"]
  by (simp add: SizeofCmsghdr_def)

end
