(* ===== verification/Routes.thy ===== *)
theory Routes
  imports Netip Prelude "HOL-Library.Sublist"
begin

text \<open>
  The pending response routes of \<^verbatim>\<open>src/internal/frontend/frontend.go\<close>: per backend address a
  queue of the clients that wait for a response, bounded in length and age.  The map and the
  sequence number are only used under one mutex, so every operation is one state change.  Slices
  of the queues are never shared, so a queue is a list.
\<close>

section \<open>Operations\<close>

record pendingRoute =
  rt_id :: "64 word"
  rt_clientAddr :: addrport
  rt_connIndex :: int
  rt_queuedAt :: time

record routes =
  rq_queues :: "string \<rightharpoonup> pendingRoute list"
  rq_seq :: "64 word"

abbreviation pendingRouteTTL :: duration where
  "pendingRouteTTL \<equiv> 30 * Second"

abbreviation maxPendingRoutesPerBackend :: nat where
  "maxPendingRoutesPerBackend \<equiv> 1024"

definition noRoutes :: routes where
  "noRoutes = \<lparr>rq_queues = Map.empty, rq_seq = 0\<rparr>"

text \<open>Reading a Go map at an absent key gives the zero value, here the empty slice.\<close>

definition queueOf :: "routes \<Rightarrow> string \<Rightarrow> pendingRoute list" where
  "queueOf q b = (case rq_queues q b of None \<Rightarrow> [] | Some rs \<Rightarrow> rs)"

definition pruneExpiredRoutes :: "pendingRoute list \<Rightarrow> time \<Rightarrow> pendingRoute list" where
  "pruneExpiredRoutes queue now =
     (let cutoff = time_add now (- pendingRouteTTL)
      in dropWhile (\<lambda>r. time_before (rt_queuedAt r) cutoff) queue)"

definition enqueuePendingRoute ::
  "string \<Rightarrow> addrport \<Rightarrow> int \<Rightarrow> time \<Rightarrow> routes \<Rightarrow> (64 word \<times> bool) \<times> routes" where
  "enqueuePendingRoute b client conn now q =
     (let queue = pruneExpiredRoutes (queueOf q b) now in
      if length queue \<ge> maxPendingRoutesPerBackend
      then ((0, False), q\<lparr>rq_queues := (rq_queues q)(b \<mapsto> queue)\<rparr>)
      else let i = rq_seq q + 1;
               queue' = queue @ [\<lparr>rt_id = i, rt_clientAddr = client, rt_connIndex = conn, rt_queuedAt = now\<rparr>]
           in ((i, True), q\<lparr>rq_queues := (rq_queues q)(b \<mapsto> queue'), rq_seq := i\<rparr>))"

fun removeRoute :: "64 word \<Rightarrow> pendingRoute list \<Rightarrow> pendingRoute list" where
  "removeRoute i [] = []"
| "removeRoute i (r # rs) = (if rt_id r = i then rs else r # removeRoute i rs)"

definition storeQueue :: "string \<Rightarrow> pendingRoute list \<Rightarrow> routes \<Rightarrow> routes" where
  "storeQueue b queue q =
     q\<lparr>rq_queues := (if queue = [] then (rq_queues q)(b := None) else (rq_queues q)(b \<mapsto> queue))\<rparr>"

definition cancelPendingRoute :: "string \<Rightarrow> 64 word \<Rightarrow> time \<Rightarrow> routes \<Rightarrow> routes" where
  "cancelPendingRoute b i now q = storeQueue b (removeRoute i (pruneExpiredRoutes (queueOf q b) now)) q"

definition dequeuePendingRoute :: "string \<Rightarrow> time \<Rightarrow> routes \<Rightarrow> pendingRoute option \<times> routes" where
  "dequeuePendingRoute b now q =
     (case pruneExpiredRoutes (queueOf q b) now of
        [] \<Rightarrow> (None, q\<lparr>rq_queues := (rq_queues q)(b := None)\<rparr>)
      | r # queue \<Rightarrow> (Some r, storeQueue b queue q))"

section \<open>Effects on the queues\<close>

lemma queueOf_storeQueue [simp]: "queueOf (storeQueue b queue q) b' = (if b' = b then queue else queueOf q b')"
  by (simp add: storeQueue_def queueOf_def)

lemma rq_seq_storeQueue [simp]: "rq_seq (storeQueue b queue q) = rq_seq q"
  by (simp add: storeQueue_def)

lemma queueOf_cancel:
  "queueOf (cancelPendingRoute b i now q) b' =
     (if b' = b then removeRoute i (pruneExpiredRoutes (queueOf q b) now) else queueOf q b')"
  by (simp add: cancelPendingRoute_def)

lemma queueOf_dequeue:
  "queueOf (snd (dequeuePendingRoute b now q)) b' =
     (if b' = b then tl (pruneExpiredRoutes (queueOf q b) now) else queueOf q b')"
  "fst (dequeuePendingRoute b now q) =
     (case pruneExpiredRoutes (queueOf q b) now of [] \<Rightarrow> None | r # _ \<Rightarrow> Some r)"
  "rq_seq (snd (dequeuePendingRoute b now q)) = rq_seq q"
  by (simp_all add: dequeuePendingRoute_def split: list.splits) (simp add: queueOf_def)

lemma queueOf_enqueue:
  assumes "enqueuePendingRoute b client conn now q = ((i, ok), q')"
  defines "queue \<equiv> pruneExpiredRoutes (queueOf q b) now"
  shows "ok \<longleftrightarrow> length queue < maxPendingRoutesPerBackend"
    "queueOf q' b' = (if b' \<noteq> b then queueOf q b' else if ok
       then queue @ [\<lparr>rt_id = i, rt_clientAddr = client, rt_connIndex = conn, rt_queuedAt = now\<rparr>] else queue)"
    "rq_seq q' = (if ok then rq_seq q + 1 else rq_seq q)" "ok \<Longrightarrow> i = rq_seq q'"
  using assms by (auto simp: enqueuePendingRoute_def Let_def queueOf_def split: if_splits)

lemma subseq_prune: "subseq (pruneExpiredRoutes queue now) queue"
  unfolding pruneExpiredRoutes_def Let_def by (metis suffix_dropWhile suffix_imp_subseq)

lemma subseq_removeRoute: "subseq (removeRoute i queue) queue"
  by (induction queue) auto

section \<open>Runs of route operations\<close>

datatype routeEvent =
    Enqueue string addrport int time
  | Cancel string "64 word" time
  | Dequeue string time

fun routeStep :: "routes \<Rightarrow> routeEvent \<Rightarrow> routes" where
  "routeStep q (Enqueue b client conn now) = snd (enqueuePendingRoute b client conn now q)"
| "routeStep q (Cancel b i now) = cancelPendingRoute b i now q"
| "routeStep q (Dequeue b now) = snd (dequeuePendingRoute b now q)"

text \<open>What an event adds to the queue of a backend, and what it takes from it for a client.\<close>

fun accepted :: "string \<Rightarrow> routes \<Rightarrow> routeEvent \<Rightarrow> pendingRoute list" where
  "accepted b q (Enqueue b' client conn now) =
     (case enqueuePendingRoute b' client conn now q of
        ((i, ok), _) \<Rightarrow> if b' = b \<and> ok
          then [\<lparr>rt_id = i, rt_clientAddr = client, rt_connIndex = conn, rt_queuedAt = now\<rparr>] else [])"
| "accepted b q _ = []"

fun delivered :: "string \<Rightarrow> routes \<Rightarrow> routeEvent \<Rightarrow> pendingRoute list" where
  "delivered b q (Dequeue b' now) =
     (if b' = b then (case fst (dequeuePendingRoute b now q) of None \<Rightarrow> [] | Some r \<Rightarrow> [r]) else [])"
| "delivered b q _ = []"

fun trace :: "('s \<Rightarrow> 'e \<Rightarrow> 's) \<Rightarrow> ('s \<Rightarrow> 'e \<Rightarrow> 'r list) \<Rightarrow> 's \<Rightarrow> 'e list \<Rightarrow> 'r list" where
  "trace step f s [] = []"
| "trace step f s (e # es) = f s e @ trace step f (step s e) es"

text \<open>
  The contract of a channel that may lose but never reorders: what a step hands out, followed by
  what stays queued, is a subsequence of what was queued followed by what came in.
\<close>

locale ordered_channel =
  fixes step :: "'s \<Rightarrow> 'e \<Rightarrow> 's" and inp :: "'s \<Rightarrow> 'e \<Rightarrow> 'r list" and out :: "'s \<Rightarrow> 'e \<Rightarrow> 'r list"
    and queue :: "'s \<Rightarrow> 'r list"
  assumes step_order: "subseq (out s e @ queue (step s e)) (queue s @ inp s e)"
begin

lemma run_order:
  "subseq (trace step out s es @ queue (foldl step s es)) (queue s @ trace step inp s es)"
proof (induction es arbitrary: s)
  case Nil
  then show ?case by simp
next
  case (Cons e es)
  have a: "subseq (out s e @ (trace step out (step s e) es @ queue (foldl step (step s e) es)))
      (out s e @ (queue (step s e) @ trace step inp (step s e) es))"
    by (rule list_emb_append_mono [OF subseq_order.order_refl Cons.IH])
  have b: "subseq ((out s e @ queue (step s e)) @ trace step inp (step s e) es)
      ((queue s @ inp s e) @ trace step inp (step s e) es)"
    by (rule list_emb_append_mono [OF step_order subseq_order.order_refl])
  show ?case using subseq_order.order_trans [OF a b [unfolded append_assoc]] by simp
qed

end

lemma subseq_removeRoute_prune: "subseq (removeRoute i (pruneExpiredRoutes queue now)) queue"
  by (rule subseq_order.order_trans [OF subseq_removeRoute subseq_prune])

lemma routeStep_order:
  "subseq (delivered b q e @ queueOf (routeStep q e) b) (queueOf q b @ accepted b q e)"
proof (cases e)
  case (Enqueue b' client conn now)
  obtain i ok q' where eq: "enqueuePendingRoute b' client conn now q = ((i, ok), q')"
    by (metis prod.collapse)
  show ?thesis using queueOf_enqueue(2) [OF eq, of b] subseq_prune [of "queueOf q b'" now]
    by (auto simp: Enqueue eq list_emb_append_mono)
next
  case (Cancel b' i now)
  then show ?thesis using subseq_removeRoute_prune by (simp add: queueOf_cancel)
next
  case (Dequeue b' now)
  then show ?thesis using subseq_prune [of "queueOf q b" now]
    by (cases "pruneExpiredRoutes (queueOf q b) now") (auto simp: queueOf_dequeue)
qed

interpretation routes: ordered_channel routeStep "accepted b" "delivered b" "\<lambda>q. queueOf q b" for b
  by unfold_locales (rule routeStep_order)

text \<open>C19: responses go out in request order.  Over any run of enqueue, cancel and dequeue
  operations, the routes handed out for a backend, followed by those still queued, are a
  subsequence of the routes accepted for that backend in the order they were accepted: routes can
  be cancelled or expire, but they are never reordered, duplicated or taken from another
  backend's queue.\<close>

theorem Routes_fifo:
  "subseq (trace routeStep (delivered b) noRoutes es @ queueOf (foldl routeStep noRoutes es) b)
     (trace routeStep (accepted b) noRoutes es)"
  using routes.run_order [of b noRoutes es] by (simp add: noRoutes_def queueOf_def)

section \<open>Bounds and identities\<close>

definition routes_wf :: "nat \<Rightarrow> routes \<Rightarrow> bool" where
  "routes_wf n q \<longleftrightarrow> rq_seq q = of_nat n \<and>
     (\<forall>b. length (queueOf q b) \<le> maxPendingRoutesPerBackend \<and> distinct (map rt_id (queueOf q b)) \<and>
          (\<forall>r \<in> set (queueOf q b). \<exists>m \<le> n. rt_id r = of_nat m))"

lemma noRoutes_wf: "routes_wf 0 noRoutes"
  by (simp add: routes_wf_def noRoutes_def queueOf_def)

lemma subseq_parts:
  assumes "subseq xs ys"
  shows "length xs \<le> length ys" "set xs \<subseteq> set ys" "distinct (map f ys) \<longrightarrow> distinct (map f xs)"
proof -
  obtain N where "xs = nths ys N" using assms by (auto simp: subseq_conv_nths)
  then show "length xs \<le> length ys" "set xs \<subseteq> set ys" "distinct (map f ys) \<longrightarrow> distinct (map f xs)"
    using list_emb_length [OF assms] by (auto simp: nths_map [symmetric] dest: in_set_nthsD intro: distinct_nthsI)
qed

lemma routes_wf_shrink:
  assumes "routes_wf n q" "rq_seq q' = rq_seq q" "\<And>b. subseq (queueOf q' b) (queueOf q b)"
  shows "routes_wf n q'"
proof -
  have "length (queueOf q' b) \<le> length (queueOf q b)" "set (queueOf q' b) \<subseteq> set (queueOf q b)"
    "distinct (map rt_id (queueOf q b)) \<longrightarrow> distinct (map rt_id (queueOf q' b))" for b
    using subseq_parts [OF assms(3)] by blast+
  then show ?thesis using assms(1,2) unfolding routes_wf_def by (metis order_trans subsetD)
qed

lemma word64_of_nat_eq: "m < 2 ^ 64 \<Longrightarrow> n < 2 ^ 64 \<Longrightarrow> (of_nat m :: 64 word) = of_nat n \<longleftrightarrow> m = n"
  by (simp add: word_of_nat_eq_iff take_bit_nat_eq_self)

lemma routes_wf_step:
  assumes "routes_wf n q" "Suc n < 2 ^ 64"
  shows "\<exists>n' \<le> Suc n. routes_wf n' (routeStep q e)"
proof (cases e)
  case (Cancel b i now)
  have "routes_wf n (routeStep q e)"
    using subseq_removeRoute_prune
    by (intro routes_wf_shrink [OF assms(1)]) (auto simp: Cancel queueOf_cancel cancelPendingRoute_def)
  then show ?thesis by (auto intro: exI [of _ n])
next
  case (Dequeue b now)
  have "subseq (tl (pruneExpiredRoutes (queueOf q b) now)) (queueOf q b)"
    using subseq_prune [of "queueOf q b" now] by (cases "pruneExpiredRoutes (queueOf q b) now") (auto dest: subseq_Cons')
  then have "routes_wf n (routeStep q e)"
    by (intro routes_wf_shrink [OF assms(1)]) (auto simp: Dequeue queueOf_dequeue)
  then show ?thesis by (auto intro: exI [of _ n])
next
  case (Enqueue b client conn now)
  obtain i ok q' where eq: "enqueuePendingRoute b client conn now q = ((i, ok), q')"
    by (metis prod.collapse)
  note enq = queueOf_enqueue [OF eq]
  define old where "old = q\<lparr>rq_queues := (rq_queues q)(b \<mapsto> pruneExpiredRoutes (queueOf q b) now)\<rparr>"
  have q_old: "queueOf old b' = (if b' = b then pruneExpiredRoutes (queueOf q b) now else queueOf q b')" for b'
    by (simp add: old_def queueOf_def)
  have wf: "routes_wf n old"
    using subseq_prune by (intro routes_wf_shrink [OF assms(1)]) (auto simp: q_old, simp add: old_def)
  show ?thesis
  proof (cases ok)
    case False
    have "routes_wf n (routeStep q e)"
      by (rule routes_wf_shrink [OF wf]) (use enq(2,3) False in \<open>auto simp: Enqueue eq q_old, simp add: old_def\<close>)
    then show ?thesis by (auto intro: exI [of _ n])
  next
    case True
    have i: "i = of_nat (Suc n)" using enq(3,4) True assms(1) by (simp add: routes_wf_def)
    have fresh: "rt_id r \<noteq> i" if "r \<in> set (queueOf old b')" for r b'
    proof -
      obtain m where "m \<le> n" "rt_id r = of_nat m" using wf \<open>r \<in> set (queueOf old b')\<close> unfolding routes_wf_def by blast
      then show ?thesis using word64_of_nat_eq [of m "Suc n"] assms(2) i by simp
    qed
    have "routes_wf (Suc n) q'"
      unfolding routes_wf_def
    proof (intro conjI allI)
      show "rq_seq q' = of_nat (Suc n)" using enq(3) True assms(1) by (simp add: routes_wf_def)
      fix b'
      have w: "length (queueOf old b') \<le> maxPendingRoutesPerBackend \<and> distinct (map rt_id (queueOf old b')) \<and>
          (\<forall>r \<in> set (queueOf old b'). \<exists>m \<le> n. rt_id r = of_nat m)"
        using wf by (simp add: routes_wf_def)
      have nid: "i \<notin> rt_id ` set (queueOf old b')" using fresh [of _ b'] by blast
      have w2: "\<exists>m \<le> Suc n. rt_id r = of_nat m" if "r \<in> set (queueOf old b')" for r
        using w le_SucI that by blast
      have q': "queueOf q' b' = (if b' = b then queueOf old b' @ [\<lparr>rt_id = i, rt_clientAddr = client,
          rt_connIndex = conn, rt_queuedAt = now\<rparr>] else queueOf old b')"
        using enq(2) [of b'] True by (simp add: q_old)
      have room: "length (queueOf old b) < maxPendingRoutesPerBackend" using enq(1) True by (simp add: q_old)
      show "length (queueOf q' b') \<le> maxPendingRoutesPerBackend"
        using conjunct1 [OF w] room by (simp add: q')
      show "distinct (map rt_id (queueOf q' b'))"
        using conjunct1 [OF conjunct2 [OF w]] nid unfolding q' by (cases "b' = b") simp_all
      have "\<exists>m \<le> Suc n. i = of_nat m" using i by blast
      then show "\<forall>r \<in> set (queueOf q' b'). \<exists>m \<le> Suc n. rt_id r = of_nat m"
        using w2 by (auto simp: q' simp del: of_nat_Suc split: if_splits)
    qed
    then show ?thesis by (auto simp: Enqueue eq)
  qed
qed

lemma routes_wf_run:
  "routes_wf n q \<Longrightarrow> n + length es < 2 ^ 64 \<Longrightarrow> \<exists>n' \<le> n + length es. routes_wf n' (foldl routeStep q es)"
proof (induction es arbitrary: n q)
  case Nil
  then show ?case by auto
next
  case (Cons e es)
  from routes_wf_step [OF Cons.prems(1)] Cons.prems(2)
  obtain n' where "n' \<le> Suc n" "routes_wf n' (routeStep q e)" by auto
  moreover from this Cons.prems(2) have "n' + length es < 2 ^ 64" by simp
  ultimately obtain m where "m \<le> n' + length es" "routes_wf m (foldl routeStep (routeStep q e) es)"
    using Cons.IH by blast
  then show ?case using \<open>n' \<le> Suc n\<close> by (intro exI [of _ m]) simp
qed

text \<open>C20: bounded memory and unique routes.  After any run of fewer than \<open>2^64\<close> operations, no
  backend has more than 1024 pending routes and the routes of a backend have different numbers.\<close>

theorem Routes_bounded:
  assumes "length es < 2 ^ 64"
  shows "length (queueOf (foldl routeStep noRoutes es) b) \<le> 1024 \<and>
    distinct (map rt_id (queueOf (foldl routeStep noRoutes es) b))"
  using routes_wf_run [OF noRoutes_wf, of es] assms by (auto simp: routes_wf_def)

definition test_route_events :: "routeEvent list" where
  "test_route_events =
     [Enqueue ''10.0.0.10:27015'' \<lparr>ap_addr = Addr4 1, ap_port = 1\<rparr> 0 \<lparr>t_wall = 0, t_mono = 0\<rparr>,
      Enqueue ''10.0.0.10:27015'' \<lparr>ap_addr = Addr4 2, ap_port = 2\<rparr> 0 \<lparr>t_wall = 1, t_mono = 1\<rparr>,
      Dequeue ''10.0.0.10:27015'' \<lparr>t_wall = 2, t_mono = 2\<rparr>]"

theorem Routes_bounded_witness:
  "length (queueOf (foldl routeStep noRoutes test_route_events) ''10.0.0.10:27015'') \<le> 1024"
  using Routes_bounded [of test_route_events "''10.0.0.10:27015''"] by (simp add: test_route_events_def)

lemma removeRoute_filter: "distinct (map rt_id queue) \<Longrightarrow> removeRoute i queue = filter (\<lambda>r. rt_id r \<noteq> i) queue"
proof (induction queue)
  case Nil
  then show ?case by simp
next
  case (Cons r queue)
  have "rt_id x \<noteq> rt_id r" if "x \<in> set queue" for x
    using Cons.prems imageI [OF that, of rt_id] by auto
  then have "filter (\<lambda>r. rt_id r \<noteq> i) queue = queue" if "rt_id r = i" using that by (simp add: filter_id_conv)
  with Cons show ?case by simp
qed

definition clock_sorted :: "routes \<Rightarrow> time \<Rightarrow> bool" where
  "clock_sorted q now \<longleftrightarrow> (\<forall>b. sorted (map (\<lambda>r. t_mono (rt_queuedAt r)) (queueOf q b)) \<and>
     (\<forall>r \<in> set (queueOf q b). t_mono (rt_queuedAt r) \<le> t_mono now))"

text \<open>The routes of a backend that are not older than the time to live.\<close>

definition live_routes :: "routes \<Rightarrow> string \<Rightarrow> time \<Rightarrow> pendingRoute list" where
  "live_routes q b now = filter (\<lambda>r. t_mono now - t_mono (rt_queuedAt r) \<le> 30 * Second) (queueOf q b)"

lemma prune_live: "clock_sorted q now \<Longrightarrow> pruneExpiredRoutes (queueOf q b) now = live_routes q b now"
proof -
  assume "clock_sorted q now"
  then have "sorted (map (\<lambda>r. t_mono (rt_queuedAt r)) (queueOf q b))" by (simp add: clock_sorted_def)
  from dropWhile_eq_filter_sorted [OF this, of "t_mono now - 30 * Second"]
  show ?thesis by (simp add: pruneExpiredRoutes_def Let_def time_before_def live_routes_def not_less algebra_simps)
qed

text \<open>The operations in terms of live routes.  While queues are in the order of the monotonic
  clock, a response takes the oldest route not older than 30 seconds, if any; a request is
  refused exactly when 1024 such routes wait, and otherwise joins at the end; cancelling removes
  exactly the route with that number.\<close>

theorem Routes_live:
  assumes "clock_sorted q now" and "routes_wf n q" and "enqueuePendingRoute b client conn now q = ((i, ok), q')"
  shows "fst (dequeuePendingRoute b now q) = (case live_routes q b now of [] \<Rightarrow> None | r # _ \<Rightarrow> Some r) \<and>
    queueOf (snd (dequeuePendingRoute b now q)) b = tl (live_routes q b now) \<and>
    (ok \<longleftrightarrow> length (live_routes q b now) < 1024) \<and>
    (if ok then queueOf q' b = live_routes q b now @
         [\<lparr>rt_id = i, rt_clientAddr = client, rt_connIndex = conn, rt_queuedAt = now\<rparr>]
     else queueOf q' b = live_routes q b now) \<and>
    queueOf (cancelPendingRoute b j now q) b = filter (\<lambda>r. rt_id r \<noteq> j) (live_routes q b now)"
proof -
  have "distinct (map rt_id (live_routes q b now))"
    using assms(2) by (simp add: routes_wf_def live_routes_def distinct_map_filter)
  then show ?thesis
    using queueOf_enqueue(1,2) [OF assms(3)]
    by (simp add: queueOf_dequeue queueOf_cancel prune_live [OF assms(1)] removeRoute_filter)
qed

end
