(* ===== verification/Frontend.thy ===== *)
theory Frontend
  imports Shaping Abuse Backend Session Metrics Fragment Routes
begin

text \<open>
  \<^verbatim>\<open>src/internal/frontend/frontend.go\<close>: the packet path.  A frontend's own state is the
  record \<open>frontend\<close>; what it shares with other frontends (pools, session table, counters,
  shapers, abuse protector) is the record \<open>shared\<close>, with pools and backend shapers reached by
  the index of the backend.  An eviction callback \<^verbatim>\<open>func() { s.DecrConns() }\<close> is the pair of
  a pool index and a server index.  Each handler is one iteration of its goroutine's loop,
  from the moment its blocking read returns; clock readings, the random source and what the
  sockets answer are arguments.  Logging is left out.
\<close>

section \<open>State\<close>

type_synonym evictCb = "nat \<times> nat"

record pkt =
  pk_clientAddr :: addrport
  pk_buf :: nat
  pk_n :: int
  pk_connIndex :: nat

record frontend =
  fe_cfg :: frontendConfig
  fe_pool :: nat
  fe_listenConns :: nat
  fe_stopped :: bool
  fe_workCh :: "pkt list"
  fe_workCap :: nat
  fe_free :: "nat list"
  fe_mem :: "byte list list"
  fe_maxPacketSize :: int
  fe_frontendShaper :: "bucket option"
  fe_dropFragments :: bool
  fe_fragmentAware :: bool
  fe_routes :: routes

record shared =
  ss_pools :: "pool list"
  ss_sessions :: "evictCb table"
  ss_counters :: counters
  ss_globalShaper :: "bucket option"
  ss_backendShapers :: "bucket option list"
  ss_clientShaper :: "clientLimiter option"
  ss_abuse :: "protector option"

abbreviation poolOf :: "frontend \<Rightarrow> shared \<Rightarrow> pool" where
  "poolOf f s \<equiv> ss_pools s ! fe_pool f"

definition setPool :: "frontend \<Rightarrow> pool \<Rightarrow> shared \<Rightarrow> shared" where
  "setPool f p s = s\<lparr>ss_pools := (ss_pools s)[fe_pool f := p]\<rparr>"

definition count :: "(counters \<Rightarrow> counters) \<Rightarrow> shared \<Rightarrow> shared" where
  "count c s = s\<lparr>ss_counters := c (ss_counters s)\<rparr>"

text \<open>Running eviction callbacks.\<close>

definition runCallback :: "evictCb \<Rightarrow> shared \<Rightarrow> shared" where
  "runCallback cb s = s\<lparr>ss_pools := (ss_pools s)[fst cb := DecrConns (snd cb) (ss_pools s ! fst cb)]\<rparr>"

section \<open>Construction\<close>

definition Frontend_New :: "frontendConfig \<Rightarrow> nat \<Rightarrow> int \<Rightarrow> bucket option \<Rightarrow> bool \<Rightarrow> frontend" where
  "Frontend_New cfg pool maxPacketSize shaper dropFragments =
     \<lparr>fe_cfg = cfg, fe_pool = pool, fe_listenConns = 0, fe_stopped = False, fe_workCh = [], fe_workCap = 0,
      fe_free = [], fe_mem = [],
      fe_maxPacketSize = (if fc_MaxPacketSize cfg > 0 then fc_MaxPacketSize cfg else maxPacketSize),
      fe_frontendShaper = shaper, fe_dropFragments = dropFragments, fe_fragmentAware = False,
      fe_routes = noRoutes\<rparr>"

datatype startError = InvalidListen string | EphemeralPort string | ListenError string | SendSocketError string

text \<open>What the network answers to \<^verbatim>\<open>Start\<close>: the port of the listen address, which
  \<^verbatim>\<open>ListenPacket\<close> calls succeed, which sockets support fragment detection.\<close>

record startIO =
  st_resolve :: "int option"
  st_listen :: "nat \<Rightarrow> bool"
  st_enable :: "nat \<Rightarrow> bool"
  st_send :: bool

definition numListeners :: "int \<Rightarrow> socketConfig \<Rightarrow> nat" where
  "numListeners workerCount sc = (if so_ReusePort sc \<and> workerCount > 1 then nat workerCount else 1)"

definition fwdWorkers :: "int \<Rightarrow> int" where
  "fwdWorkers workerCount = (let w = wrap64 (workerCount * 4) in if w < 8 then 8 else w)"

text \<open>The reader goroutines get the listener indices \<^verbatim>\<open>i % len(f.listenConns)\<close>.\<close>

definition Start :: "startIO \<Rightarrow> int \<Rightarrow> socketConfig \<Rightarrow> frontend \<Rightarrow> startError + frontend \<times> nat list" where
  "Start io workerCount0 sc f =
     (let workerCount = (if workerCount0 < 1 then 1 else workerCount0);
          n = numListeners workerCount sc; name = fc_Name (fe_cfg f) in
      if n > 1 \<and> st_resolve io = None then Inl (InvalidListen name)
      else if n > 1 \<and> st_resolve io = Some 0 then Inl (EphemeralPort name)
      else if \<not> list_all (st_listen io) [0..<n] then Inl (ListenError name)
      else if \<not> st_send io then Inl (SendSocketError name)
      else Inr (f\<lparr>fe_listenConns := n,
                  fe_fragmentAware := (fe_dropFragments f \<and> list_all (st_enable io) [0..<n]),
                  fe_workCap := nat (fwdWorkers workerCount * 2)\<rparr>,
                map (\<lambda>i. i mod n) [0..<nat workerCount]))"

definition Frontend_Stop :: "frontend \<Rightarrow> frontend" where
  "Frontend_Stop f = f\<lparr>fe_stopped := True\<rparr>"

section \<open>Buffers\<close>

text \<open>\<^verbatim>\<open>bufPool.Get\<close> returns some pooled buffer, or a new one of \<^verbatim>\<open>maxPacketSize+1\<close> bytes (a
  \<^verbatim>\<open>sync.Pool\<close> may choose either); buffers are not cleared.\<close>

definition getBuf :: "nat option \<Rightarrow> frontend \<Rightarrow> nat \<times> frontend" where
  "getBuf choice f =
     (case choice of
        Some b \<Rightarrow>
          if b \<in> set (fe_free f) then (b, f\<lparr>fe_free := remove1 b (fe_free f)\<rparr>)
          else (length (fe_mem f), f\<lparr>fe_mem := fe_mem f @ [replicate (nat (fe_maxPacketSize f + 1)) 0]\<rparr>)
      | None \<Rightarrow> (length (fe_mem f), f\<lparr>fe_mem := fe_mem f @ [replicate (nat (fe_maxPacketSize f + 1)) 0]\<rparr>))"

definition putBuf :: "nat \<Rightarrow> frontend \<Rightarrow> frontend" where
  "putBuf b f = f\<lparr>fe_free := b # fe_free f\<rparr>"

text \<open>A socket read into a buffer: as much of the datagram as fits, the rest of the buffer stays.\<close>

definition fillBuf :: "nat \<Rightarrow> byte list \<Rightarrow> frontend \<Rightarrow> int \<times> frontend" where
  "fillBuf b payload f =
     (let buf = fe_mem f ! b; n = min (length payload) (length buf)
      in (int n, f\<lparr>fe_mem := (fe_mem f)[b := take n payload @ drop n buf]\<rparr>))"

section \<open>The reader\<close>

definition Allow_client :: "clientLimiter option \<Rightarrow> addr \<Rightarrow> int \<Rightarrow> time \<Rightarrow> time \<Rightarrow> bool \<times> clientLimiter option" where
  "Allow_client cl a n now tnow =
     (case cl of None \<Rightarrow> (True, None)
      | Some c \<Rightarrow> (let (ok, c') = ClientLimiter_Allow c a n now tnow in (ok, Some c')))"

definition allowShaped :: "addrport \<Rightarrow> int \<Rightarrow> time \<Rightarrow> time \<Rightarrow> frontend \<times> shared \<Rightarrow> bool \<times> frontend \<times> shared" where
  "allowShaped client n now tnow fs =
     (let (f, s) = fs; (ok1, g) = Allow_opt (ss_globalShaper s) n now; s1 = s\<lparr>ss_globalShaper := g\<rparr> in
      if \<not> ok1 then (False, f, s1)
      else let (ok2, fb) = Allow_opt (fe_frontendShaper f) n now; f1 = f\<lparr>fe_frontendShaper := fb\<rparr> in
      if \<not> ok2 then (False, f1, s1)
      else let (ok3, cl) = Allow_client (ss_clientShaper s1) (ap_addr client) n now tnow;
               s2 = s1\<lparr>ss_clientShaper := cl\<rparr>
      in (ok3, f1, s2))"

definition allowAbuse :: "addrport \<Rightarrow> time \<Rightarrow> shared \<Rightarrow> bool \<times> shared" where
  "allowAbuse client now s =
     (case ss_abuse s of None \<Rightarrow> (True, s)
      | Some p \<Rightarrow> (let (ok, p') = Abuse_Allow p client now in (ok, s\<lparr>ss_abuse := Some p'\<rparr>)))"

definition sessionKey :: "frontend \<Rightarrow> addrport \<Rightarrow> key" where
  "sessionKey f client = \<lparr>k_Addr = client, k_FrontendName = fc_Name (fe_cfg f)\<rparr>"

definition overSessionCap :: "frontend \<Rightarrow> addrport \<Rightarrow> shared \<Rightarrow> bool" where
  "overSessionCap f client s \<longleftrightarrow> fc_MaxSessions (fe_cfg f) > 0 \<and>
     Get (ss_sessions s) (sessionKey f client) = None \<and> Len (ss_sessions s) \<ge> fc_MaxSessions (fe_cfg f)"

datatype readResult = ReadFailed | Datagram addrport "byte list" "byte list"

text \<open>The rest of an iteration of \<^verbatim>\<open>readLoop\<close> once the read into buffer \<open>b\<close> returned: \<open>now\<close> is
  the reading of \<^verbatim>\<open>time.Now\<close>, \<open>tnow\<close> the one a new client's bucket takes.\<close>

definition admit :: "nat \<Rightarrow> nat \<Rightarrow> addrport \<Rightarrow> int \<Rightarrow> byte list \<Rightarrow> time \<Rightarrow> time \<Rightarrow> frontend \<times> shared \<Rightarrow> frontend \<times> shared" where
  "admit connIndex b client n oob now tnow fs =
     (let (f, s) = fs in
      if n > fe_maxPacketSize f then (putBuf b f, count countDropped s)
      else if fe_dropFragments f \<and> fe_fragmentAware f \<and> IsFragmentedOOB oob
      then (putBuf b f, count countFragment s)
      else let (shaped, f1, s1) = allowShaped client n now tnow (f, s) in
      if \<not> shaped then (putBuf b f1, count countShaped s1)
      else let (ok, s2) = allowAbuse client now s1 in
      if \<not> ok then (putBuf b f1, count countAbuse s2)
      else if overSessionCap f1 client s2 then (putBuf b f1, count countDropped s2)
      else if length (fe_workCh f1) < fe_workCap f1
      then (f1\<lparr>fe_workCh := fe_workCh f1 @
              [\<lparr>pk_clientAddr = client, pk_buf = b, pk_n = n, pk_connIndex = connIndex\<rparr>]\<rparr>, s2)
      else (putBuf b f1, count countDropped s2))"

definition readLoop :: "nat \<Rightarrow> nat \<Rightarrow> readResult \<Rightarrow> time \<Rightarrow> time \<Rightarrow> frontend \<times> shared \<Rightarrow> frontend \<times> shared" where
  "readLoop connIndex b res now tnow fs =
     (let (f, s) = fs in
      case res of
        ReadFailed \<Rightarrow> (putBuf b f, s)
      | Datagram client payload oob \<Rightarrow>
          (let (n, f1) = fillBuf b payload f in
           admit connIndex b client n (take 128 oob) now tnow (f1, count (countReceived n) s)))"

section \<open>The forwarding worker\<close>

text \<open>What one run of \<^verbatim>\<open>forward\<close> takes from outside: the random source of its (up to two) picks,
  its clock readings, and whether the socket accepts the send.\<close>

record fwdIO =
  fw_intn :: "int \<Rightarrow> int"
  fw_intn' :: "int \<Rightarrow> int"
  fw_tNew :: time
  fw_tTouch :: time
  fw_tEnqueue :: time
  fw_tShape :: time
  fw_tCancel :: time
  fw_send :: bool

text \<open>How \<^verbatim>\<open>forward\<close> ends.  \<open>Panicked\<close> stands for the panics of \<^verbatim>\<open>rand.Intn\<close> and of a
  \<^verbatim>\<open>nil\<close> server, which end the process; \<open>Sent\<close> has the configured address of the server, the
  endpoint the datagram went to and its payload.\<close>

datatype fwdResult = Panicked | Dropped | Sent string addrport "byte list"

text \<open>The closure both modes hand to \<^verbatim>\<open>GetOrCreate\<close> in the affinity case; the flag records a
  panic.\<close>

definition pickSession ::
  "(int \<Rightarrow> int) \<Rightarrow> string \<Rightarrow> time \<Rightarrow> pool \<times> bool \<Rightarrow> evictCb session option \<times> pool \<times> bool" where
  "pickSession intn ip now w =
     (case Pick intn (fst w) ip of
        (PickErr, p) \<Rightarrow> (None, p, snd w)
      | (Picked (Some i), p) \<Rightarrow> (Some (NewSession (srv_Address (p_servers p ! i)) now), p, snd w)
      | (_, p) \<Rightarrow> (None, p, True))"

definition setSession :: "nat \<Rightarrow> (evictCb session \<Rightarrow> evictCb session) \<Rightarrow> shared \<Rightarrow> shared" where
  "setSession r g s = s\<lparr>ss_sessions := updateSession r g (ss_sessions s)\<rparr>"

abbreviation sessionAt :: "shared \<Rightarrow> nat \<Rightarrow> evictCb session" where
  "sessionAt s r \<equiv> tb_heap (ss_sessions s) ! r"

text \<open>Binding a session to server \<open>i\<close> and counting it there, as after creation and after a
  re-pick.\<close>

definition bindServer :: "frontend \<Rightarrow> nat \<Rightarrow> nat \<Rightarrow> shared \<Rightarrow> shared" where
  "bindServer f r i s =
     (let s1 = setPool f (IncrConns i (poolOf f s)) s
      in setSession r (UpdateServer (srv_Address (p_servers (poolOf f s) ! i)) (Some (fe_pool f, i))) s1)"

text \<open>The server a routed packet goes to and the session it belongs to.\<close>

datatype routed = RoutePanic | NoRoute | RouteTo nat nat

definition repick :: "fwdIO \<Rightarrow> frontend \<Rightarrow> string \<Rightarrow> nat \<Rightarrow> nat option \<Rightarrow> shared \<Rightarrow> routed \<times> shared" where
  "repick io f ip r old s =
     (case Pick (fw_intn' io) (poolOf f s) ip of
        (PickErr, p) \<Rightarrow> (NoRoute, setPool f p s)
      | (Picked (Some i), p) \<Rightarrow>
          (let s1 = setPool f p s;
               s2 = (case old of None \<Rightarrow> s1 | Some j \<Rightarrow> setPool f (DecrConns j (poolOf f s1)) s1)
           in (RouteTo i r, bindServer f r i s2))
      | (_, p) \<Rightarrow> (RoutePanic, setPool f p s))"

definition routeAffinity :: "fwdIO \<Rightarrow> pkt \<Rightarrow> frontend \<Rightarrow> shared \<Rightarrow> routed \<times> shared" where
  "routeAffinity io p f s =
     (let ip = addr_string (ap_addr (pk_clientAddr p));
          (res, created, tbl, pool, panicked) =
            GetOrCreate (pickSession (fw_intn io) ip (fw_tNew io)) (sessionKey f (pk_clientAddr p))
              (ss_sessions s) (poolOf f s, False);
          s1 = (setPool f pool s)\<lparr>ss_sessions := tbl\<rparr> in
      if panicked then (RoutePanic, s1)
      else case res of
        None \<Rightarrow> (NoRoute, s1)
      | Some r \<Rightarrow>
          (let s2 = (if created
                     then (case ServerByAddr (poolOf f s1) (BackendAddr (sessionAt s1 r)) of
                             None \<Rightarrow> s1 | Some i \<Rightarrow> bindServer f r i s1)
                     else s1);
               s3 = setSession r (Touch (pk_n p) (fw_tTouch io)) s2;
               srv = ServerByAddr (poolOf f s3) (BackendAddr (sessionAt s3 r))
           in case srv of
                None \<Rightarrow> repick io f ip r None s3
              | Some i \<Rightarrow> if srv_Healthy (p_servers (poolOf f s3) ! i) then (RouteTo i r, s3)
                          else repick io f ip r (Some i) s3))"

definition routeSpread :: "fwdIO \<Rightarrow> pkt \<Rightarrow> frontend \<Rightarrow> shared \<Rightarrow> routed \<times> shared" where
  "routeSpread io p f s =
     (case Pick (fw_intn io) (poolOf f s) (addr_string (ap_addr (pk_clientAddr p))) of
        (PickErr, pool) \<Rightarrow> (NoRoute, setPool f pool s)
      | (Picked (Some i), pool) \<Rightarrow>
          (let s1 = setPool f pool s; a = srv_Address (p_servers pool ! i);
               (res, created, tbl, _) =
                 GetOrCreate (\<lambda>u. (Some (NewSession a (fw_tNew io)), u)) (sessionKey f (pk_clientAddr p))
                   (ss_sessions s1) ();
               s2 = s1\<lparr>ss_sessions := tbl\<rparr> in
           case res of
             None \<Rightarrow> (NoRoute, s2)
           | Some r \<Rightarrow>
               (let s3 = (if \<not> created \<and> BackendAddr (sessionAt s2 r) \<noteq> a
                          then setSession r (UpdateServer a None) s2 else s2)
                in (RouteTo i r, setSession r (Touch (pk_n p) (fw_tTouch io)) s3)))
      | (_, pool) \<Rightarrow> (RoutePanic, setPool f pool s))"

text \<open>The two halves of \<^verbatim>\<open>forward\<close> after the routing: queueing the response route, and shaping, sending and, on
  a failure, cancelling the route.  The lock of the routes is free between them.\<close>

definition dispatchEnqueue :: "fwdIO \<Rightarrow> pkt \<Rightarrow> nat \<Rightarrow> frontend \<times> shared \<Rightarrow> (64 word \<times> bool) \<times> frontend" where
  "dispatchEnqueue io p i fs =
     (let (f, s) = fs;
          (r, q) = enqueuePendingRoute (srv_Address (p_servers (poolOf f s) ! i)) (pk_clientAddr p) (int (pk_connIndex p))
                     (fw_tEnqueue io) (fe_routes f)
      in (r, f\<lparr>fe_routes := q\<rparr>))"

definition dispatchSend :: "fwdIO \<Rightarrow> pkt \<Rightarrow> nat \<Rightarrow> 64 word \<Rightarrow> frontend \<times> shared \<Rightarrow> fwdResult \<times> frontend \<times> shared" where
  "dispatchSend io p i rid fs =
     (let (f, s) = fs; srv = p_servers (poolOf f s) ! i;
          cancelled = f\<lparr>fe_routes := cancelPendingRoute (srv_Address srv) rid (fw_tCancel io) (fe_routes f)\<rparr>;
          (shaped, b) = Allow_opt (ss_backendShapers s ! fe_pool f) (pk_n p) (fw_tShape io);
          s1 = s\<lparr>ss_backendShapers := (ss_backendShapers s)[fe_pool f := b]\<rparr> in
      if \<not> shaped then (Dropped, cancelled, count countShaped s1)
      else if \<not> fw_send io then (Dropped, cancelled, count countDropped s1)
      else (Sent (srv_Address srv) (srv_addrPort srv) (take (nat (pk_n p)) (fe_mem f ! pk_buf p)), f, count (countForwarded (pk_n p)) s1))"

definition dispatch :: "fwdIO \<Rightarrow> pkt \<Rightarrow> nat \<Rightarrow> frontend \<times> shared \<Rightarrow> fwdResult \<times> frontend \<times> shared" where
  "dispatch io p i fs =
     (let ((rid, ok), f1) = dispatchEnqueue io p i fs in
      if \<not> ok then (Dropped, f1, count countDropped (snd fs)) else dispatchSend io p i rid (f1, snd fs))"

definition forward :: "fwdIO \<Rightarrow> pkt \<Rightarrow> frontend \<times> shared \<Rightarrow> fwdResult \<times> frontend \<times> shared" where
  "forward io p fs =
     (let (f, s) = fs in
      case (if fc_SessionAffinity (fe_cfg f) then routeAffinity io p f s else routeSpread io p f s) of
        (RoutePanic, s1) \<Rightarrow> (Panicked, f, s1)
      | (NoRoute, s1) \<Rightarrow> (Dropped, f, count countDropped s1)
      | (RouteTo i r, s1) \<Rightarrow> dispatch io p i (f, setSession r (SetConnIndex (word_of_int (int (pk_connIndex p)))) s1))"

text \<open>An iteration of \<^verbatim>\<open>forwardWorker\<close> that takes a packet from the channel, and its draining of
  the channel after the stop.\<close>

definition forwardWorker :: "fwdIO \<Rightarrow> frontend \<times> shared \<Rightarrow> fwdResult \<times> frontend \<times> shared" where
  "forwardWorker io fs =
     (case fe_workCh (fst fs) of
        [] \<Rightarrow> (Dropped, fs)
      | p # ps \<Rightarrow>
          (let (res, f, s) = forward io p ((fst fs)\<lparr>fe_workCh := ps\<rparr>, snd fs)
           in (res, putBuf (pk_buf p) f, s)))"

definition drainWorker :: "frontend \<Rightarrow> frontend" where
  "drainWorker f = f\<lparr>fe_free := rev (map pk_buf (fe_workCh f)) @ fe_free f, fe_workCh := []\<rparr>"

section \<open>The response path\<close>

definition listenerForIndex :: "frontend \<Rightarrow> int \<Rightarrow> nat option" where
  "listenerForIndex f i = (if i < 0 \<or> i \<ge> int (fe_listenConns f) then None else Some (nat i))"

definition listenerForClient :: "frontend \<Rightarrow> addrport \<Rightarrow> nat option" where
  "listenerForClient f client =
     (if fe_listenConns f = 0 then None
      else if fe_listenConns f = 1 then Some 0
      else Some (unat (fnv_addrport client) mod fe_listenConns f))"

text \<open>How an iteration of \<^verbatim>\<open>backendReadLoop\<close> ends: the read failed or the sender is no server of
  the pool; the server (its configured address) has no pending route; there is no listener to
  answer from; or the response leaves through a listener to a client with a payload.\<close>

datatype response =
    Ignored
  | NoPending string
  | NoListener string addrport
  | Reply string nat addrport "byte list"

definition respond :: "nat \<Rightarrow> addrport \<Rightarrow> int \<Rightarrow> time \<Rightarrow> frontend \<times> shared \<Rightarrow> response \<times> frontend \<times> shared" where
  "respond b from n now fs =
     (let (f, s) = fs in
      case ServerByAddrPort (poolOf f s) from of
        None \<Rightarrow> (Ignored, putBuf b f, s)
      | Some i \<Rightarrow>
          (let a = srv_Address (p_servers (poolOf f s) ! i);
               (route, q) = dequeuePendingRoute a now (fe_routes f);
               f1 = f\<lparr>fe_routes := q\<rparr> in
           case route of
             None \<Rightarrow> (NoPending a, putBuf b f1, count countDropped s)
           | Some r \<Rightarrow>
               (let conn = (case listenerForIndex f1 (rt_connIndex r) of
                              Some c \<Rightarrow> Some c | None \<Rightarrow> listenerForClient f1 (rt_clientAddr r))
                in (case conn of None \<Rightarrow> NoListener a (rt_clientAddr r)
                    | Some c \<Rightarrow> Reply a c (rt_clientAddr r) (take (nat n) (fe_mem f1 ! b)),
                    putBuf b f1, s))))"

definition backendReadLoop :: "nat \<Rightarrow> readResult \<Rightarrow> time \<Rightarrow> frontend \<times> shared \<Rightarrow> response \<times> frontend \<times> shared" where
  "backendReadLoop b res now fs =
     (let (f, s) = fs in
      case res of
        ReadFailed \<Rightarrow> (Ignored, putBuf b f, s)
      | Datagram from payload oob \<Rightarrow> (let (n, f1) = fillBuf b payload f in respond b from n now (f1, s)))"

end
