(* ===== verification/FrontendFacts.thy ===== *)
theory FrontendFacts
  imports Frontend
begin

text \<open>
  What the handlers of \<open>Frontend\<close> do: which packets the reader admits and how it accounts for
  the others, where the worker sends a packet and what it does on every failure, and which
  client gets a response.
\<close>

section \<open>Frames\<close>

lemma count_simps [simp, frame_simps]:
  "ss_pools (count c s) = ss_pools s" "ss_sessions (count c s) = ss_sessions s"
  "ss_counters (count c s) = c (ss_counters s)" "ss_backendShapers (count c s) = ss_backendShapers s"
  "ss_globalShaper (count c s) = ss_globalShaper s" "ss_clientShaper (count c s) = ss_clientShaper s"
  "ss_abuse (count c s) = ss_abuse s"
  by (simp_all add: count_def)

lemma setPool_simps [simp, frame_simps]:
  "ss_sessions (setPool f p s) = ss_sessions s" "ss_counters (setPool f p s) = ss_counters s"
  "ss_pools (setPool f p s) = (ss_pools s)[fe_pool f := p]"
  "ss_backendShapers (setPool f p s) = ss_backendShapers s"
  by (simp_all add: setPool_def)

lemma setSession_simps [simp, frame_simps]:
  "ss_sessions (setSession r g s) = updateSession r g (ss_sessions s)"
  "ss_counters (setSession r g s) = ss_counters s" "ss_pools (setSession r g s) = ss_pools s"
  "ss_backendShapers (setSession r g s) = ss_backendShapers s"
  by (simp_all add: setSession_def)

lemma bindServer_simps [simp, frame_simps]:
  "ss_counters (bindServer f r i s) = ss_counters s"
  "ss_pools (bindServer f r i s) = (ss_pools s)[fe_pool f := IncrConns i (poolOf f s)]"
  "ss_sessions (bindServer f r i s) =
     updateSession r (UpdateServer (srv_Address (p_servers (poolOf f s) ! i)) (Some (fe_pool f, i))) (ss_sessions s)"
  "ss_backendShapers (bindServer f r i s) = ss_backendShapers s"
  by (simp_all add: bindServer_def Let_def)

lemma putBuf_simps [simp, frame_simps]:
  "fe_workCh (putBuf b f) = fe_workCh f" "fe_free (putBuf b f) = b # fe_free f" "fe_mem (putBuf b f) = fe_mem f"
  "fe_routes (putBuf b f) = fe_routes f" "fe_cfg (putBuf b f) = fe_cfg f" "fe_pool (putBuf b f) = fe_pool f"
  "fe_maxPacketSize (putBuf b f) = fe_maxPacketSize f" "fe_workCap (putBuf b f) = fe_workCap f"
  "fe_listenConns (putBuf b f) = fe_listenConns f" "fe_stopped (putBuf b f) = fe_stopped f"
  by (simp_all add: putBuf_def)

lemma allowShaped_frame:
  assumes "allowShaped client n now tnow (f, s) = (ok, f1, s1)"
  obtains fb g cl where "f1 = f\<lparr>fe_frontendShaper := fb\<rparr>" "s1 = s\<lparr>ss_globalShaper := g, ss_clientShaper := cl\<rparr>"
proof -
  have "\<exists>fb g cl. f1 = f\<lparr>fe_frontendShaper := fb\<rparr> \<and> s1 = s\<lparr>ss_globalShaper := g, ss_clientShaper := cl\<rparr>"
  proof -
    have id: "f = f\<lparr>fe_frontendShaper := fe_frontendShaper f\<rparr>" by simp
    have id2: "s\<lparr>ss_globalShaper := g\<rparr> = s\<lparr>ss_globalShaper := g, ss_clientShaper := ss_clientShaper s\<rparr>" for g by simp
    show ?thesis using assms
      by (auto simp: allowShaped_def Let_def split: if_splits prod.splits) (use id id2 in metis)+
  qed
  then show thesis using that by blast
qed

lemma allowAbuse_frame:
  assumes "allowAbuse client now s = (ok, s1)"
  obtains a where "s1 = s\<lparr>ss_abuse := a\<rparr>"
proof (cases "ss_abuse s")
  case None
  then have "s1 = s\<lparr>ss_abuse := ss_abuse s\<rparr>" using assms by (simp add: allowAbuse_def)
  then show thesis by (rule that)
next
  case (Some p)
  then show thesis using assms that by (auto simp: allowAbuse_def Let_def split: prod.splits)
qed

text \<open>What the admission checks may change besides the packet's fate: the limiters.\<close>

definition same_but_limits :: "frontend \<times> shared \<Rightarrow> frontend \<times> shared \<Rightarrow> bool" where
  "same_but_limits x y \<longleftrightarrow> (\<exists>fb g cl a. fst y = (fst x)\<lparr>fe_frontendShaper := fb\<rparr> \<and>
     snd y = (snd x)\<lparr>ss_globalShaper := g, ss_clientShaper := cl, ss_abuse := a\<rparr>)"

lemma same_but_limits_simps:
  assumes "same_but_limits (f, s) (f', s')"
  shows "fe_workCh f' = fe_workCh f" "fe_free f' = fe_free f" "fe_mem f' = fe_mem f" "fe_routes f' = fe_routes f"
    "fe_cfg f' = fe_cfg f" "fe_pool f' = fe_pool f" "fe_maxPacketSize f' = fe_maxPacketSize f"
    "fe_workCap f' = fe_workCap f" "fe_listenConns f' = fe_listenConns f" "fe_stopped f' = fe_stopped f"
    "ss_pools s' = ss_pools s" "ss_sessions s' = ss_sessions s" "ss_counters s' = ss_counters s"
    "ss_backendShapers s' = ss_backendShapers s"
  using assms by (auto simp: same_but_limits_def)

definition dropCounts :: "(counters \<Rightarrow> counters) set" where
  "dropCounts = {countDropped, countFragment, countShaped, countAbuse}"

lemma same_but_limitsI:
  assumes "f1 = f\<lparr>fe_frontendShaper := fb\<rparr>" "s1 = s\<lparr>ss_globalShaper := g, ss_clientShaper := cl\<rparr>"
  shows "same_but_limits (f, s) (f1, s1)" "same_but_limits (f, s) (f1, s1\<lparr>ss_abuse := a\<rparr>)"
proof -
  have "s1 = s\<lparr>ss_globalShaper := g, ss_clientShaper := cl, ss_abuse := ss_abuse s\<rparr>" using assms(2) by simp
  then show "same_but_limits (f, s) (f1, s1)" using assms(1) unfolding same_but_limits_def fst_conv snd_conv by blast
  have "s1\<lparr>ss_abuse := a\<rparr> = s\<lparr>ss_globalShaper := g, ss_clientShaper := cl, ss_abuse := a\<rparr>" using assms(2) by simp
  then show "same_but_limits (f, s) (f1, s1\<lparr>ss_abuse := a\<rparr>)"
    using assms(1) unfolding same_but_limits_def fst_conv snd_conv by blast
qed

lemma same_but_limits_refl: "same_but_limits (f, s) (f, s)"
  by (rule same_but_limitsI(1) [where fb = "fe_frontendShaper f" and g = "ss_globalShaper s" and cl = "ss_clientShaper s"]) simp_all

lemma admit_cases:
  assumes "admit ci b client n oob now tnow (f, s) = (f', s')"
  obtains (drop) f1 s1 c where "same_but_limits (f, s) (f1, s1)" "c \<in> dropCounts" "f' = putBuf b f1" "s' = count c s1"
  | (queue) f1 where "same_but_limits (f, s) (f1, s')" "n \<le> fe_maxPacketSize f" "length (fe_workCh f) < fe_workCap f"
      "f' = f1\<lparr>fe_workCh := fe_workCh f @ [\<lparr>pk_clientAddr = client, pk_buf = b, pk_n = n, pk_connIndex = ci\<rparr>]\<rparr>"
proof -
  obtain ok1 f1 s1 where sh: "allowShaped client n now tnow (f, s) = (ok1, f1, s1)" by (metis prod.collapse)
  obtain ok2 s2 where ab: "allowAbuse client now s1 = (ok2, s2)" by fastforce
  obtain fb g cl where f1: "f1 = f\<lparr>fe_frontendShaper := fb\<rparr>" "s1 = s\<lparr>ss_globalShaper := g, ss_clientShaper := cl\<rparr>"
    by (rule allowShaped_frame [OF sh])
  obtain a where "s2 = s1\<lparr>ss_abuse := a\<rparr>" by (rule allowAbuse_frame [OF ab])
  with same_but_limitsI [OF f1] have same: "same_but_limits (f, s) (f1, s1)" "same_but_limits (f, s) (f1, s2)" by auto
  have eq: "fe_workCh f1 = fe_workCh f" "fe_workCap f1 = fe_workCap f" using f1 by simp_all
  have c: "countDropped \<in> dropCounts" "countFragment \<in> dropCounts" "countShaped \<in> dropCounts" "countAbuse \<in> dropCounts"
    by (simp_all add: dropCounts_def)
  show thesis
    using assms drop [OF same_but_limits_refl c(1)] drop [OF same_but_limits_refl c(2)] drop [OF same(1) c(3)]
      drop [OF same(2) c(4)] drop [OF same(2) c(1)] queue [of f1] same(2)
    by (auto simp: admit_def sh ab eq Let_def split: if_splits)
qed

section \<open>The reader\<close>

definition bufs_sized :: "frontend \<Rightarrow> bool" where
  "bufs_sized f \<longleftrightarrow> 0 \<le> fe_maxPacketSize f \<and> (\<forall>m \<in> set (fe_mem f). length m = nat (fe_maxPacketSize f + 1))"

lemma fillBuf_effect:
  assumes "bufs_sized f" "b < length (fe_mem f)" "fillBuf b payload f = (n, f1)"
  shows "n = min (int (length payload)) (fe_maxPacketSize f + 1)"
    "f1 = f\<lparr>fe_mem := (fe_mem f)[b := take (nat n) payload @ drop (nat n) (fe_mem f ! b)]\<rparr>"
    "take (nat n) (fe_mem f1 ! b) = take (nat n) payload"
    "n \<le> fe_maxPacketSize f \<Longrightarrow> int (length payload) = n" "0 \<le> n"
proof -
  have len: "length (fe_mem f ! b) = nat (fe_maxPacketSize f + 1)" "0 \<le> fe_maxPacketSize f"
    using assms(1,2) by (auto simp: bufs_sized_def)
  have n: "nat n = min (length payload) (length (fe_mem f ! b))" "0 \<le> n"
    using assms(3) by (auto simp: fillBuf_def Let_def)
  then show "n = min (int (length payload)) (fe_maxPacketSize f + 1)" "0 \<le> n" using len by linarith+
  then show "n \<le> fe_maxPacketSize f \<Longrightarrow> int (length payload) = n" by linarith
  show f1: "f1 = f\<lparr>fe_mem := (fe_mem f)[b := take (nat n) payload @ drop (nat n) (fe_mem f ! b)]\<rparr>"
    using assms(3) by (auto simp: fillBuf_def Let_def)
  show "take (nat n) (fe_mem f1 ! b) = take (nat n) payload" using n assms(2) by (simp add: f1)
qed

lemma dropCounts_effect:
  assumes "c \<in> dropCounts"
  shows "PacketsDropped (c x) = PacketsDropped x + 1" "PacketsReceived (c x) = PacketsReceived x"
    "PacketsForwarded (c x) = PacketsForwarded x" "BytesIn (c x) = BytesIn x" "BytesOut (c x) = BytesOut x"
    "PacketsShaped (c x) - PacketsDroppedRateLimit (c x) = PacketsShaped x - PacketsDroppedRateLimit x"
  using assms by (auto simp: dropCounts_def count_defs)

text \<open>Every received packet is queued intact or counted as dropped.  When a read returns a
  datagram, it is counted as received; then either it is dropped, exactly one drop is counted and
  its buffer goes back to the pool, or it joins the bounded work queue with exactly its payload
  in its buffer, which happens only to datagrams no longer than the maximum packet size.\<close>

theorem readLoop_accounting:
  assumes "bufs_sized f" and "b < length (fe_mem f)"
    and "readLoop ci b (Datagram client payload oob) now tnow (f, s) = (f', s')"
  shows "PacketsReceived (ss_counters s') = PacketsReceived (ss_counters s) + 1 \<and>
    PacketsForwarded (ss_counters s') = PacketsForwarded (ss_counters s) \<and>
    (fe_workCh f' = fe_workCh f \<and> fe_free f' = b # fe_free f \<and>
       PacketsDropped (ss_counters s') = PacketsDropped (ss_counters s) + 1 \<or>
     fe_workCh f' = fe_workCh f @
         [\<lparr>pk_clientAddr = client, pk_buf = b, pk_n = int (length payload), pk_connIndex = ci\<rparr>] \<and>
       fe_free f' = fe_free f \<and> take (length payload) (fe_mem f' ! b) = payload \<and>
       int (length payload) \<le> fe_maxPacketSize f \<and> length (fe_workCh f') \<le> fe_workCap f \<and>
       PacketsDropped (ss_counters s') = PacketsDropped (ss_counters s))"
proof -
  obtain n f1 where fill: "fillBuf b payload f = (n, f1)" by fastforce
  note fb = fillBuf_effect [OF assms(1,2) fill]
  have adm: "admit ci b client n (take 128 oob) now tnow (f1, count (countReceived n) s) = (f', s')"
    using assms(3) by (simp add: readLoop_def fill)
  have f1: "fe_workCh f1 = fe_workCh f" "fe_free f1 = fe_free f" "fe_maxPacketSize f1 = fe_maxPacketSize f"
    "fe_workCap f1 = fe_workCap f" by (simp_all add: fb(2))
  from adm show ?thesis
  proof (cases rule: admit_cases)
    case (drop f2 s1 c)
    then show ?thesis using same_but_limits_simps [OF drop(1)] dropCounts_effect [OF drop(2)] f1
      by (simp add: countReceived_def)
  next
    case (queue f2)
    then show ?thesis using same_but_limits_simps [OF queue(1)] f1 fb(3-5)
      by (auto simp: countReceived_def)
  qed
qed

text \<open>A frontend and shared state with nothing switched on.\<close>

definition test_frontend :: frontend where
  "test_frontend = (Frontend_New \<lparr>fc_Name = ''game'', fc_Listen = ''0.0.0.0:27015'', fc_Backend = ''weighted'',
     fc_SessionAffinity = True, fc_MaxSessions = 0, fc_MaxPacketSize = 4, fc_Priority = ''normal'',
     fc_TrafficShaping = test_shaping\<rparr> 0 65535 None False)\<lparr>fe_listenConns := 1, fe_workCap := 16, fe_mem := [[0, 0, 0, 0, 0]]\<rparr>"

definition test_shared :: shared where
  "test_shared = \<lparr>ss_pools = [test_pool ''hash''], ss_sessions = NewTable (60 * Second) (10 * Second),
     ss_counters = zeroCounters, ss_globalShaper = None, ss_backendShapers = [None], ss_clientShaper = None,
     ss_abuse = None\<rparr>"

definition test_client :: addrport where
  "test_client = \<lparr>ap_addr = Addr4 0xC0A80164, ap_port = 4000\<rparr>"

definition test_time :: "int \<Rightarrow> time" where
  "test_time n = \<lparr>t_wall = n, t_mono = n\<rparr>"

text \<open>C15: the admission chain.  A packet read into a buffer joins the work queue exactly when it fits
  the maximum size, is not a fragment to be dropped, the global, the frontend's and the client's
  token bucket and the abuse protector all let it pass in this order, the session cap leaves room
  for it or it has a session, and the queue has room.  A denial leaves the limiters after it
  untouched.\<close>

theorem admit_exact:
  assumes "admit ci b client n oob now tnow (f, s) = (f', s')"
  defines "fits \<equiv> n \<le> fe_maxPacketSize f \<and> \<not> (fe_dropFragments f \<and> fe_fragmentAware f \<and> IsFragmentedOOB oob)"
    and "g \<equiv> Allow_opt (ss_globalShaper s) n now" and "fb \<equiv> Allow_opt (fe_frontendShaper f) n now"
    and "cl \<equiv> Allow_client (ss_clientShaper s) (ap_addr client) n now tnow" and "ab \<equiv> allowAbuse client now s"
  shows "(length (fe_workCh f') > length (fe_workCh f) \<longleftrightarrow>
       fits \<and> fst g \<and> fst fb \<and> fst cl \<and> fst ab \<and> \<not> overSessionCap f client s \<and> length (fe_workCh f) < fe_workCap f) \<and>
     ss_globalShaper s' = (if fits then snd g else ss_globalShaper s) \<and>
     fe_frontendShaper f' = (if fits \<and> fst g then snd fb else fe_frontendShaper f) \<and>
     ss_clientShaper s' = (if fits \<and> fst g \<and> fst fb then snd cl else ss_clientShaper s) \<and>
     ss_abuse s' = (if fits \<and> fst g \<and> fst fb \<and> fst cl then ss_abuse (snd ab) else ss_abuse s)"
proof -
  have ab': "allowAbuse client now (s\<lparr>ss_globalShaper := x, ss_clientShaper := y\<rparr>) =
      (fst ab, (s\<lparr>ss_globalShaper := x, ss_clientShaper := y\<rparr>)\<lparr>ss_abuse := ss_abuse (snd ab)\<rparr>)" for x y
    by (auto simp: ab_def allowAbuse_def Let_def split: option.splits prod.splits)
  have cap: "overSessionCap (f\<lparr>fe_frontendShaper := x\<rparr>) client (s\<lparr>ss_globalShaper := y, ss_clientShaper := z, ss_abuse := w\<rparr>) =
      overSessionCap f client s" for x y z w
    by (simp add: overSessionCap_def sessionKey_def)
  show ?thesis using assms(1)
    by (cases "fst g"; cases "fst fb"; cases "fst cl"; cases "fst ab")
      (auto simp: admit_def allowShaped_def fits_def split_beta Let_def ab' cap putBuf_def
        simp flip: g_def fb_def cl_def split: if_splits)
qed

theorem admit_exact_witness:
  "length (fe_workCh (fst (admit 0 0 test_client 4 [] (test_time 0) (test_time 0) (test_frontend, test_shared)))) > 0"
proof -
  let ?r = "admit 0 0 test_client 4 [] (test_time 0) (test_time 0) (test_frontend, test_shared)"
  have "?r = (fst ?r, snd ?r)" by simp
  from admit_exact [OF this] show ?thesis
    by (simp add: test_frontend_def test_shared_def Frontend_New_def Allow_opt_def Allow_client_def allowAbuse_def
        overSessionCap_def)
qed

section \<open>What routing leaves alone\<close>

text \<open>Two states of a pool that differ in the round-robin counter and connection counts only.\<close>

definition like :: "pool \<Rightarrow> pool \<Rightarrow> bool" where
  "like p q \<longleftrightarrow> p_serverMap q = p_serverMap p \<and> p_algorithm q = p_algorithm p \<and> p_name q = p_name p \<and>
     map (\<lambda>s. s\<lparr>srv_connCount := 0\<rparr>) (p_servers q) = map (\<lambda>s. s\<lparr>srv_connCount := 0\<rparr>) (p_servers p)"

lemma like_refl [simp]: "like p p"
  by (simp add: like_def)

lemma like_trans: "like p q \<Longrightarrow> like q r \<Longrightarrow> like p r"
  by (simp add: like_def)

lemma like_Pick: "like p (snd (Pick intn p ip))"
  by (simp add: like_def)

lemma like_update_conn: "like p (update_server i (\<lambda>s. s\<lparr>srv_connCount := c s\<rparr>) p)"
  by (cases "i < length (p_servers p)")
    (auto simp: like_def update_server_def map_update list_update_beyond not_less intro!: nth_equalityI simp: nth_list_update)

lemma like_conns [simp]: "like p (IncrConns i p)" "like p (DecrConns i p)"
  unfolding IncrConns_def DecrConns_def by (rule like_update_conn)+

lemma like_length: "like p q \<Longrightarrow> length (p_servers q) = length (p_servers p)"
  by (rule map_eq_imp_length_eq [where f = "\<lambda>s. s\<lparr>srv_connCount := 0\<rparr>" and g = "\<lambda>s. s\<lparr>srv_connCount := 0\<rparr>"]) (simp add: like_def)

lemma like_nth:
  assumes "like p q" "i < length (p_servers p)"
  shows "srv_Address (p_servers q ! i) = srv_Address (p_servers p ! i)"
    "srv_Healthy (p_servers q ! i) = srv_Healthy (p_servers p ! i)"
    "srv_Weight (p_servers q ! i) = srv_Weight (p_servers p ! i)"
    "srv_addrPort (p_servers q ! i) = srv_addrPort (p_servers p ! i)"
proof -
  have "map (\<lambda>s. s\<lparr>srv_connCount := 0\<rparr>) (p_servers q) ! i = map (\<lambda>s. s\<lparr>srv_connCount := 0\<rparr>) (p_servers p) ! i"
    using assms(1) by (simp add: like_def)
  then have "(p_servers q ! i)\<lparr>srv_connCount := 0\<rparr> = (p_servers p ! i)\<lparr>srv_connCount := 0\<rparr>"
    using assms like_length by simp
  then show "srv_Address (p_servers q ! i) = srv_Address (p_servers p ! i)"
    "srv_Healthy (p_servers q ! i) = srv_Healthy (p_servers p ! i)"
    "srv_Weight (p_servers q ! i) = srv_Weight (p_servers p ! i)"
    "srv_addrPort (p_servers q ! i) = srv_addrPort (p_servers p ! i)"
    by (auto dest: arg_cong [of _ _ srv_Address] arg_cong [of _ _ srv_Healthy] arg_cong [of _ _ srv_Weight]
        arg_cong [of _ _ srv_addrPort])
qed

lemma like_addresses: "like p q \<Longrightarrow> addresses q = addresses p"
  by (rule nth_equalityI) (simp_all add: like_length like_nth)

lemma like_pool_wf: "like p q \<Longrightarrow> pool_wf p \<Longrightarrow> pool_wf q"
  by (rule pool_wf_same [OF _ like_addresses]) (simp_all add: like_def)

lemma like_weights_fit: "like p q \<Longrightarrow> weights_fit (p_servers p) \<Longrightarrow> weights_fit (p_servers q)"
proof -
  assume like: "like p q" and fit: "weights_fit (p_servers p)"
  have ex: "expand ss = expand ts" if "map (\<lambda>s. s\<lparr>srv_connCount := 0\<rparr>) ss = map (\<lambda>s. s\<lparr>srv_connCount := 0\<rparr>) ts" for ss ts
    using that
  proof (induction ss arbitrary: ts)
    case Nil
    then show ?case by simp
  next
    case (Cons s ss)
    then obtain t ts' where ts: "ts = t # ts'" "s\<lparr>srv_connCount := 0\<rparr> = t\<lparr>srv_connCount := 0\<rparr>"
        "map (\<lambda>s. s\<lparr>srv_connCount := 0\<rparr>) ss = map (\<lambda>s. s\<lparr>srv_connCount := 0\<rparr>) ts'"
      by (cases ts) auto
    from ts(2) have "srv_Healthy s = srv_Healthy t" "srv_Weight s = srv_Weight t" by (cases s; cases t; simp)+
    then show ?case using Cons.IH [OF ts(3)] by (simp add: ts(1) eligible_def)
  qed
  have "expand (p_servers q) = expand (p_servers p)" using like by (intro ex) (simp add: like_def)
  then show ?thesis using fit by (simp add: weights_fit_def)
qed

lemma Pick_no_panic: "weights_fit (p_servers p) \<Longrightarrow> fst (Pick intn p ip) \<noteq> PickPanic"
  using totalWeight_expand [of "p_servers p"] by (auto simp: Pick_def Pick_select_def pick_round_robin_def Let_def)

lemma Pick_cases:
  obtains (err) p' where "Pick intn p ip = (PickErr, p')" "like p p'"
  | (panic) p' where "Pick intn p ip = (PickPanic, p')" "like p p'" "\<not> weights_fit (p_servers p)"
  | (ok) i p' where "Pick intn p ip = (Picked (Some i), p')" "like p p'" "i < length (p_servers p)" "srv_Healthy (p_servers p ! i)"
proof (cases "Pick intn p ip")
  case (Pair r p')
  then have l: "like p p'" using like_Pick [of p intn ip] by simp
  show thesis
  proof (cases r)
    case PickErr
    then show thesis using Pair l err by simp
  next
    case PickPanic
    then show thesis using Pair l panic Pick_no_panic [of p intn ip] by auto
  next
    case (Picked x)
    then obtain i where "x = Some i" "i < length (p_servers p)" "srv_Healthy (p_servers p ! i)"
      using Pick_index [of intn p ip x] Pair by auto
    then show thesis using Pair Picked l ok by simp
  qed
qed

definition pools_like :: "shared \<Rightarrow> shared \<Rightarrow> bool" where
  "pools_like s t \<longleftrightarrow> length (ss_pools t) = length (ss_pools s) \<and> (\<forall>j. like (ss_pools s ! j) (ss_pools t ! j)) \<and>
     ss_counters t = ss_counters s \<and> ss_backendShapers t = ss_backendShapers s"

lemma pools_like_refl [simp]: "pools_like s s"
  by (simp add: pools_like_def)

lemma pools_like_trans: "pools_like s t \<Longrightarrow> pools_like t u \<Longrightarrow> pools_like s u"
  unfolding pools_like_def by (auto intro: like_trans)

lemma pools_like_setPool: "like (poolOf f s) p \<Longrightarrow> pools_like s (setPool f p s)"
  unfolding pools_like_def by (cases "fe_pool f < length (ss_pools s)") (auto simp: nth_list_update list_update_beyond not_less)

lemma pools_like_setSession [simp]: "pools_like s (setSession r g s)" "pools_like s (s\<lparr>ss_sessions := t\<rparr>)"
  by (simp_all add: pools_like_def)

lemma pools_like_bindServer: "pools_like s (bindServer f r i s)"
  unfolding bindServer_def Let_def
  by (rule pools_like_trans [OF pools_like_setPool pools_like_setSession(1)]) simp

lemma pools_like_poolOf: "pools_like s t \<Longrightarrow> like (poolOf f s) (poolOf f t)"
  by (simp add: pools_like_def)

section \<open>Routing\<close>

text \<open>What a routing step answers: a server of the frontend's pool that is healthy; a panic only when
  the weights overflow.\<close>

definition route_ok :: "frontend \<Rightarrow> shared \<Rightarrow> routed \<Rightarrow> bool" where
  "route_ok f s res \<longleftrightarrow>
     (case res of RoutePanic \<Rightarrow> \<not> weights_fit (p_servers (poolOf f s)) | NoRoute \<Rightarrow> True
      | RouteTo i r \<Rightarrow> i < length (p_servers (poolOf f s)) \<and> srv_Healthy (p_servers (poolOf f s) ! i))"

lemma route_ok_like: "pools_like s t \<Longrightarrow> route_ok f t res \<Longrightarrow> route_ok f s res"
  using pools_like_poolOf [of s t f] like_length [of "poolOf f s" "poolOf f t"] like_nth(2) [of "poolOf f s" "poolOf f t"]
    like_weights_fit [of "poolOf f s" "poolOf f t"]
  by (auto simp: route_ok_def split: routed.splits)

lemma repick_ok: 
  assumes "repick io f ip r old s = (res, t)"
  shows "pools_like s t \<and> route_ok f s res"
proof (cases rule: Pick_cases [of "fw_intn' io" "poolOf f s" ip])
  case (err p')
  then show ?thesis using assms pools_like_setPool by (auto simp: repick_def route_ok_def)
next
  case (panic p')
  then show ?thesis using assms pools_like_setPool by (auto simp: repick_def route_ok_def)
next
  case (ok i p')
  let ?s1 = "setPool f p' s"
  let ?s2 = "case old of None \<Rightarrow> ?s1 | Some j \<Rightarrow> setPool f (DecrConns j (poolOf f ?s1)) ?s1"
  have t: "t = bindServer f r i ?s2" "res = RouteTo i r" using assms ok(1) by (simp_all add: repick_def Let_def)
  have "pools_like ?s1 ?s2" by (cases old) (simp_all only: option.case pools_like_refl pools_like_setPool [OF like_conns(2)])
  then have "pools_like s t" unfolding t(1)
    by (intro pools_like_trans [OF pools_like_setPool [OF ok(2)]] pools_like_trans [OF _ pools_like_bindServer])
  then show ?thesis using ok(3,4) by (simp add: route_ok_def t(2))
qed

lemma GetOrCreate_world:
  "GetOrCreate newFn k t w = (res, created, t', w') \<Longrightarrow> w' = w \<or> w' = snd (newFn w)"
  by (auto simp: GetOrCreate_alone Let_def split: option.splits prod.splits)

lemma pickSession_world:
  assumes "pickSession intn ip now (p, False) = (x, p', panicked)"
  shows "like p p'" "panicked \<Longrightarrow> \<not> weights_fit (p_servers p)"
  using assms by (cases rule: Pick_cases [of intn p ip]; auto simp: pickSession_def)+

lemma routeAffinity_ok:
  assumes "routeAffinity io p f s = (res, t)" "pool_wf (poolOf f s)"
  shows "pools_like s t \<and> route_ok f s res"
proof -
  let ?ip = "addr_string (ap_addr (pk_clientAddr p))"
  obtain ref created tbl pool panicked where g:
    "GetOrCreate (pickSession (fw_intn io) ?ip (fw_tNew io)) (sessionKey f (pk_clientAddr p)) (ss_sessions s)
       (poolOf f s, False) = (ref, created, tbl, pool, panicked)"
    by (metis prod.collapse)
  define s1 where "s1 = (setPool f pool s)\<lparr>ss_sessions := tbl\<rparr>"
  have w: "like (poolOf f s) pool" "panicked \<Longrightarrow> \<not> weights_fit (p_servers (poolOf f s))"
    using GetOrCreate_world [OF g] pickSession_world by (metis like_refl prod.collapse prod.inject)+
  have l1: "pools_like s s1" unfolding s1_def
    by (rule pools_like_trans [OF pools_like_setPool [OF w(1)] pools_like_setSession(2)])
  show ?thesis
  proof (cases "panicked \<or> ref = None")
    case True
    then have "t = s1" "res = (if panicked then RoutePanic else NoRoute)"
      using assms(1) by (cases panicked; simp add: routeAffinity_def g Let_def s1_def)+
    then show ?thesis using l1 w(2) by (auto simp: route_ok_def)
  next
    case False
    then obtain r where r: "ref = Some r" "\<not> panicked" by auto
    define s2 where "s2 = (if created then (case ServerByAddr (poolOf f s1) (BackendAddr (sessionAt s1 r)) of
        None \<Rightarrow> s1 | Some i \<Rightarrow> bindServer f r i s1) else s1)"
    define s3 where "s3 = setSession r (Touch (pk_n p) (fw_tTouch io)) s2"
    have "pools_like s1 s2" by (simp add: s2_def pools_like_bindServer split: option.split)
    then have l3: "pools_like s s3" unfolding s3_def
      by (intro pools_like_trans [OF l1] pools_like_trans [OF _ pools_like_setSession(1)])
    have run: "routeAffinity io p f s =
        (case ServerByAddr (poolOf f s3) (BackendAddr (sessionAt s3 r)) of
           None \<Rightarrow> repick io f ?ip r None s3
         | Some i \<Rightarrow> if srv_Healthy (p_servers (poolOf f s3) ! i) then (RouteTo i r, s3)
                     else repick io f ?ip r (Some i) s3)"
      by (simp only: routeAffinity_def Let_def g split r if_False option.case s1_def s2_def s3_def)
    have wf3: "pool_wf (poolOf f s3)" using like_pool_wf [OF pools_like_poolOf [OF l3] assms(2)] .
    have miss: "pools_like s t \<and> route_ok f s res" if "repick io f ?ip r old s3 = (res, t)" for old
      using repick_ok [OF that] route_ok_like [OF l3] pools_like_trans [OF l3] by simp
    show ?thesis
    proof (cases "ServerByAddr (poolOf f s3) (BackendAddr (sessionAt s3 r))")
      case None
      then show ?thesis using assms(1) unfolding run by (intro miss [of None]) simp
    next
      case (Some i)
      show ?thesis
      proof (cases "srv_Healthy (p_servers (poolOf f s3) ! i)")
        case True
        have "i < length (p_servers (poolOf f s3))" using wf3 Some by (auto simp: pool_wf_def ServerByAddr_def)
        then have "route_ok f s3 (RouteTo i r)" using True by (simp add: route_ok_def)
        moreover have "t = s3" "res = RouteTo i r" using assms(1) Some True unfolding run by simp_all
        ultimately show ?thesis using route_ok_like [OF l3] l3 by simp
      next
        case False
        then show ?thesis using assms(1) Some unfolding run by (intro miss [of "Some i"]) simp
      qed
    qed
  qed
qed

lemma routeSpread_ok:
  assumes "routeSpread io p f s = (res, t)"
  shows "pools_like s t \<and> route_ok f s res"
proof (cases rule: Pick_cases [of "fw_intn io" "poolOf f s" "addr_string (ap_addr (pk_clientAddr p))"])
  case (err p')
  then show ?thesis using assms pools_like_setPool [OF err(2)] by (auto simp: routeSpread_def route_ok_def)
next
  case (panic p')
  then show ?thesis using assms pools_like_setPool [OF panic(2)] by (auto simp: routeSpread_def route_ok_def)
next
  case (ok i p')
  let ?s1 = "setPool f p' s" and ?a = "srv_Address (p_servers p' ! i)"
  obtain ref created tbl w where g: "GetOrCreate (\<lambda>u. (Some (NewSession ?a (fw_tNew io)), u))
      (sessionKey f (pk_clientAddr p)) (ss_sessions ?s1) () = (ref, created, tbl, w)"
    by (metis prod.collapse)
  have s1: "pools_like s (?s1\<lparr>ss_sessions := tbl\<rparr>)"
    by (rule pools_like_trans [OF pools_like_setPool [OF ok(2)] pools_like_setSession(2)])
  have upd: "pools_like u (setSession r h (setSession r' h' u))" "pools_like u (setSession r h u)" for u r h r' h'
    using pools_like_trans pools_like_setSession(1) by blast+
  have run: "routeSpread io p f s = (case ref of None \<Rightarrow> (NoRoute, ?s1\<lparr>ss_sessions := tbl\<rparr>)
      | Some r \<Rightarrow> (RouteTo i r, setSession r (Touch (pk_n p) (fw_tTouch io))
          (if \<not> created \<and> BackendAddr (sessionAt (?s1\<lparr>ss_sessions := tbl\<rparr>) r) \<noteq> ?a
           then setSession r (UpdateServer ?a None) (?s1\<lparr>ss_sessions := tbl\<rparr>) else ?s1\<lparr>ss_sessions := tbl\<rparr>)))"
    by (simp only: routeSpread_def ok(1) split pickResult.case option.case Let_def g)
  show ?thesis
  proof (cases ref)
    case None
    then show ?thesis using assms run s1 by (simp add: route_ok_def)
  next
    case (Some r)
    then have "pools_like (?s1\<lparr>ss_sessions := tbl\<rparr>) t" "res = RouteTo i r"
      using assms unfolding run by (auto simp only: option.case prod.inject upd split: if_splits)
    then show ?thesis using pools_like_trans [OF s1] ok(3,4) by (simp add: route_ok_def)
  qed
qed

section \<open>Forwarding\<close>

lemma dispatch_eq:
  "dispatch io p i (f, s) =
     (let srv = p_servers (poolOf f s) ! i;
          ((rid, ok), q) = enqueuePendingRoute (srv_Address srv) (pk_clientAddr p) (int (pk_connIndex p))
                             (fw_tEnqueue io) (fe_routes f);
          f1 = f\<lparr>fe_routes := q\<rparr>;
          f2 = f\<lparr>fe_routes := cancelPendingRoute (srv_Address srv) rid (fw_tCancel io) q\<rparr>;
          (shaped, b) = Allow_opt (ss_backendShapers s ! fe_pool f) (pk_n p) (fw_tShape io);
          s1 = s\<lparr>ss_backendShapers := (ss_backendShapers s)[fe_pool f := b]\<rparr> in
      if \<not> ok then (Dropped, f1, count countDropped s)
      else if \<not> shaped then (Dropped, f2, count countShaped s1)
      else if \<not> fw_send io then (Dropped, f2, count countDropped s1)
      else (Sent (srv_Address srv) (srv_addrPort srv) (take (nat (pk_n p)) (fe_mem f ! pk_buf p)), f1, count (countForwarded (pk_n p)) s1))"
  by (simp add: dispatch_def dispatchEnqueue_def dispatchSend_def Let_def split: prod.splits)

lemma dispatch_effect:
  assumes "dispatch io p i (f, s) = (res, f', s')"
  shows "res \<noteq> Panicked" "ss_pools s' = ss_pools s" "ss_sessions s' = ss_sessions s"
    "\<exists>q. f' = f\<lparr>fe_routes := q\<rparr>"
    "if res = Dropped then ss_counters s' = countDropped (ss_counters s) \<or> ss_counters s' = countShaped (ss_counters s)
     else ss_counters s' = countForwarded (pk_n p) (ss_counters s)"
    "res = Sent a dst data \<Longrightarrow> a = srv_Address (p_servers (poolOf f s) ! i) \<and>
       dst = srv_addrPort (p_servers (poolOf f s) ! i) \<and> data = take (nat (pk_n p)) (fe_mem f ! pk_buf p)"
proof -
  obtain rid ok q where e: "enqueuePendingRoute (srv_Address (p_servers (poolOf f s) ! i)) (pk_clientAddr p)
      (int (pk_connIndex p)) (fw_tEnqueue io) (fe_routes f) = ((rid, ok), q)" by (metis prod.collapse)
  obtain shaped b where sh: "Allow_opt (ss_backendShapers s ! fe_pool f) (pk_n p) (fw_tShape io) = (shaped, b)" by fastforce
  note d = assms [unfolded dispatch_eq Let_def split e sh]
  show "res \<noteq> Panicked" "ss_pools s' = ss_pools s" "ss_sessions s' = ss_sessions s" "\<exists>q. f' = f\<lparr>fe_routes := q\<rparr>"
    "if res = Dropped then ss_counters s' = countDropped (ss_counters s) \<or> ss_counters s' = countShaped (ss_counters s)
     else ss_counters s' = countForwarded (pk_n p) (ss_counters s)"
    "res = Sent a dst data \<Longrightarrow> a = srv_Address (p_servers (poolOf f s) ! i) \<and>
       dst = srv_addrPort (p_servers (poolOf f s) ! i) \<and> data = take (nat (pk_n p)) (fe_mem f ! pk_buf p)"
    using d by (auto split: if_splits)
qed

abbreviation route :: "fwdIO \<Rightarrow> pkt \<Rightarrow> frontend \<Rightarrow> shared \<Rightarrow> routed \<times> shared" where
  "route io p f s \<equiv> (if fc_SessionAffinity (fe_cfg f) then routeAffinity io p f s else routeSpread io p f s)"

lemma route_ok:
  "pool_wf (poolOf f s) \<Longrightarrow> route io p f s = (res, t) \<Longrightarrow> pools_like s t \<and> route_ok f s res"
  by (cases "fc_SessionAffinity (fe_cfg f)") (simp_all add: routeAffinity_ok routeSpread_ok)

lemma forward_cases:
  assumes "pool_wf (poolOf f s)" "forward io p (f, s) = (res, f', s')"
  obtains (panic) t where "res = Panicked" "f' = f" "s' = t" "\<not> weights_fit (p_servers (poolOf f s))" "pools_like s t"
      "route io p f s = (RoutePanic, t)"
  | (none) t where "res = Dropped" "f' = f" "s' = count countDropped t" "pools_like s t" "route io p f s = (NoRoute, t)"
  | (to) i r t t' where "route io p f s = (RouteTo i r, t)" "pools_like s t'" "i < length (p_servers (poolOf f s))"
      "t' = setSession r (SetConnIndex (word_of_int (int (pk_connIndex p)))) t"
      "srv_Healthy (p_servers (poolOf f s) ! i)" "dispatch io p i (f, t') = (res, f', s')"
proof -
  obtain rt t where rt: "route io p f s = (rt, t)" by fastforce
  note ok = route_ok [OF assms(1) rt]
  show thesis
  proof (cases rt)
    case RoutePanic
    then show thesis using assms(2) rt ok by (intro panic [of t]) (auto simp: forward_def route_ok_def)
  next
    case NoRoute
    then show thesis using assms(2) rt ok by (intro none [of t]) (auto simp: forward_def route_ok_def)
  next
    case (RouteTo i r)
    let ?t = "setSession r (SetConnIndex (word_of_int (int (pk_connIndex p)))) t"
    have "pools_like s ?t" using ok pools_like_trans pools_like_setSession(1) by blast
    then show thesis using assms(2) rt ok RouteTo by (intro to [of i r t ?t]) (auto simp: forward_def route_ok_def)
  qed
qed

lemma forward_no_panic:
  assumes "pool_wf (poolOf f s)" "weights_fit (p_servers (poolOf f s))" "forward io p (f, s) = (res, f', s')"
  shows "res \<noteq> Panicked"
  using assms(1,3)
proof (cases rule: forward_cases)
  case (to i r t t')
  then show ?thesis using dispatch_effect(1) by blast
qed (use assms(2) in simp_all)

text \<open>C14: where a packet goes.  Whatever the mode, the algorithm and the session table, a packet that
  is sent goes to a server of the frontend's pool that is healthy when it is routed, with the
  bytes of its buffer; with weights that fit an \<^verbatim>\<open>int64\<close> the worker does not panic.\<close>

theorem forward_destination:
  assumes "pool_wf (poolOf f s)" and "forward io p (f, s) = (res, f', s')"
  shows "(\<forall>a dst data. res = Sent a dst data \<longrightarrow> data = take (nat (pk_n p)) (fe_mem f ! pk_buf p) \<and>
      (\<exists>i < length (p_servers (poolOf f s)). srv_Healthy (p_servers (poolOf f s) ! i) \<and>
         a = srv_Address (p_servers (poolOf f s) ! i) \<and> dst = srv_addrPort (p_servers (poolOf f s) ! i))) \<and>
    (weights_fit (p_servers (poolOf f s)) \<longrightarrow> res \<noteq> Panicked)"
  using assms
proof (cases rule: forward_cases)
  case (panic t)
  then show ?thesis by simp
next
  case (none t)
  then show ?thesis by simp
next
  case (to i r t t')
  note d = dispatch_effect [OF to(6)]
  have "srv_addrPort (p_servers (poolOf f t') ! i) = srv_addrPort (p_servers (poolOf f s) ! i)"
    "srv_Address (p_servers (poolOf f t') ! i) = srv_Address (p_servers (poolOf f s) ! i)"
    using like_nth(1,4) [OF pools_like_poolOf [OF to(2)] to(3)] by simp_all
  then show ?thesis using d(1) d(6) to(3,5) by auto
qed

text \<open>Every forwarded packet is counted once.  Unless it panics, a run of \<^verbatim>\<open>forward\<close> counts
  its packet either as forwarded with its bytes or as dropped, and never both; the work queue and
  the buffers stay as they are.\<close>

theorem forward_accounting:
  assumes "pool_wf (poolOf f s)" and "forward io p (f, s) = (res, f', s')" and "res \<noteq> Panicked"
  shows "PacketsReceived (ss_counters s') = PacketsReceived (ss_counters s) \<and>
    (if res = Dropped
     then PacketsDropped (ss_counters s') = PacketsDropped (ss_counters s) + 1 \<and>
          PacketsForwarded (ss_counters s') = PacketsForwarded (ss_counters s) \<and>
          BytesOut (ss_counters s') = BytesOut (ss_counters s)
     else PacketsDropped (ss_counters s') = PacketsDropped (ss_counters s) \<and>
          PacketsForwarded (ss_counters s') = PacketsForwarded (ss_counters s) + 1 \<and>
          BytesOut (ss_counters s') = BytesOut (ss_counters s) + word_of_int (pk_n p)) \<and>
    fe_workCh f' = fe_workCh f \<and> fe_free f' = fe_free f \<and> fe_mem f' = fe_mem f"
  using assms(1,2)
proof (cases rule: forward_cases)
  case (panic t)
  then show ?thesis using assms(3) by simp
next
  case (none t)
  then show ?thesis by (simp add: pools_like_def count_defs)
next
  case (to i r t t')
  note d = dispatch_effect [OF to(6)]
  have c: "ss_counters t' = ss_counters s" using to(2) by (simp add: pools_like_def)
  show ?thesis using d(4,5) by (cases "res = Dropped") (auto simp: c count_defs)
qed

definition test_io :: fwdIO where
  "test_io = \<lparr>fw_intn = (\<lambda>_. 0), fw_intn' = (\<lambda>_. 0), fw_tNew = test_time 1, fw_tTouch = test_time 2,
     fw_tEnqueue = test_time 3, fw_tShape = test_time 4, fw_tCancel = test_time 5, fw_send = True\<rparr>"

definition test_pkt :: pkt where
  "test_pkt = \<lparr>pk_clientAddr = test_client, pk_buf = 0, pk_n = 3, pk_connIndex = 0\<rparr>"

lemma test_shared_pool: "pool_wf (poolOf test_frontend test_shared)" "weights_fit (p_servers (poolOf test_frontend test_shared))"
proof -
  have p: "poolOf test_frontend test_shared = test_pool ''hash''"
    by (simp add: test_frontend_def Frontend_New_def test_shared_def)
  show "pool_wf (poolOf test_frontend test_shared)" unfolding p by (rule test_pool_wf)
  show "weights_fit (p_servers (poolOf test_frontend test_shared))" unfolding p
    by (simp add: test_pool_defs weights_fit_def eligible_def)
qed

theorem forward_destination_witness:
  "fst (forward test_io test_pkt (test_frontend, test_shared)) \<noteq> Panicked"
proof -
  let ?r = "forward test_io test_pkt (test_frontend, test_shared)"
  have "?r = (fst ?r, fst (snd ?r), snd (snd ?r))" by simp
  from forward_destination [OF test_shared_pool(1) this] test_shared_pool(2) show ?thesis by blast
qed

end
