(* ===== verification/Healthcheck.thy ===== *)
theory Healthcheck
  imports Backend
begin

text \<open>
  \<^verbatim>\<open>src/internal/healthcheck/healthcheck.go\<close>: the probes and how their results reach the
  pool.  What the network does to one probe is an argument; the probes of a round finish in any
  order.
\<close>

section \<open>Probes\<close>

datatype readOutcome = ReadReply | ReadTimeout | ReadError

text \<open>How the system calls of a probe end, and whether the parent context was cancelled when the
  read returned.\<close>

record probeIO =
  io_dial :: bool
  io_setDeadline :: bool
  io_write :: bool
  io_read :: readOutcome
  io_cancelled :: bool

definition probe :: "probeIO \<Rightarrow> bool" where
  "probe io =
     (if \<not> io_dial io then False
      else if \<not> io_setDeadline io then False
      else if \<not> io_write io then False
      else case io_read io of
        ReadReply \<Rightarrow> True
      | ReadTimeout \<Rightarrow> \<not> io_cancelled io
      | ReadError \<Rightarrow> False)"

section \<open>Rounds\<close>

text \<open>A round: the outcome of the probe of each server, and the order in which the goroutines
  reach \<^verbatim>\<open>SetHealthy\<close>.\<close>

record probeRound =
  pr_io :: "nat \<Rightarrow> probeIO"
  pr_order :: "nat list"

definition checkAll :: "probeRound \<Rightarrow> pool \<Rightarrow> pool" where
  "checkAll rd p =
     (let servers = p_servers p
      in foldl (\<lambda>p i. SetHealthy (srv_Address (servers ! i)) (probe (pr_io rd i)) p) p (pr_order rd))"

definition complete_round :: "pool \<Rightarrow> probeRound \<Rightarrow> bool" where
  "complete_round p rd \<longleftrightarrow> distinct (pr_order rd) \<and> set (pr_order rd) = {..<length (p_servers p)}"

text \<open>\<^verbatim>\<open>Run\<close> as the sequence of rounds it makes before the context is done: the first at
  once, one for every tick after that.\<close>

definition Checker_Run :: "healthCheckConfig \<Rightarrow> probeRound \<Rightarrow> probeRound list \<Rightarrow> pool \<Rightarrow> pool" where
  "Checker_Run cfg first ticks p =
     (if \<not> hc_Enabled cfg then p else foldl (\<lambda>p rd. checkAll rd p) (checkAll first p) ticks)"

section \<open>What a round does\<close>

definition with_health :: "(nat \<Rightarrow> bool) \<Rightarrow> pool \<Rightarrow> pool" where
  "with_health h p = p\<lparr>p_servers := map (\<lambda>i. (p_servers p ! i)\<lparr>srv_Healthy := h i\<rparr>) [0..<length (p_servers p)]\<rparr>"

lemma SetHealthy_index:
  assumes "pool_wf p" "distinct (addresses p)" "i < length (p_servers p)"
  shows "SetHealthy (srv_Address (p_servers p ! i)) h p = update_server i (\<lambda>s. s\<lparr>srv_Healthy := h\<rparr>) p"
  using pool_wf_lookup [OF assms] by (simp add: SetHealthy_def)

lemma checkAll_servers:
  assumes "pool_wf p" "distinct (addresses p)" "distinct is" "\<forall>i \<in> set is. i < length (p_servers p)"
    "addresses q = addresses p" "p_serverMap q = p_serverMap p"
  shows "foldl (\<lambda>p' i. SetHealthy (srv_Address (p_servers p ! i)) (r i) p') q is =
    q\<lparr>p_servers := map (\<lambda>i. if i \<in> set is then (p_servers q ! i)\<lparr>srv_Healthy := r i\<rparr> else p_servers q ! i)
       [0..<length (p_servers q)]\<rparr>"
  using assms(3-6)
proof (induction "is" arbitrary: q)
  case Nil
  then show ?case by (simp add: map_nth)
next
  case (Cons i "is")
  have len: "length (p_servers q) = length (p_servers p)" using map_eq_imp_length_eq [OF Cons.prems(3)] .
  have wf: "pool_wf q" "distinct (addresses q)"
    using pool_wf_same [OF assms(1) Cons.prems(3,4)] assms(2) Cons.prems(3) by simp_all
  have i: "i < length (p_servers q)" using Cons.prems(2) len by simp
  have a: "srv_Address (p_servers p ! i) = srv_Address (p_servers q ! i)"
    using arg_cong [OF Cons.prems(3), of "\<lambda>xs. xs ! i"] i len by simp
  let ?q = "update_server i (\<lambda>s. s\<lparr>srv_Healthy := r i\<rparr>) q"
  have step: "SetHealthy (srv_Address (p_servers p ! i)) (r i) q = ?q"
    unfolding a by (rule SetHealthy_index [OF wf i])
  have q': "addresses ?q = addresses p" "p_serverMap ?q = p_serverMap p"
    using update_server_addresses [of "\<lambda>s. s\<lparr>srv_Healthy := r i\<rparr>" i q] Cons.prems(3,4)
    by (simp, simp add: update_server_def)
  have "foldl (\<lambda>p' i. SetHealthy (srv_Address (p_servers p ! i)) (r i) p') ?q is =
      ?q\<lparr>p_servers := map (\<lambda>j. if j \<in> set is then (p_servers ?q ! j)\<lparr>srv_Healthy := r j\<rparr> else p_servers ?q ! j)
        [0..<length (p_servers ?q)]\<rparr>"
    using Cons.prems by (intro Cons.IH q') auto
  moreover have "map (\<lambda>j. if j \<in> set is then (p_servers ?q ! j)\<lparr>srv_Healthy := r j\<rparr> else p_servers ?q ! j)
        [0..<length (p_servers ?q)] =
      map (\<lambda>j. if j \<in> set (i # is) then (p_servers q ! j)\<lparr>srv_Healthy := r j\<rparr> else p_servers q ! j)
        [0..<length (p_servers q)]"
    using i Cons.prems(1) by (auto simp: update_server_def nth_list_update)
  ultimately show ?case by (simp add: step) (simp add: update_server_def)
qed

lemma checkAll_with_health:
  assumes "pool_wf p" "distinct (addresses p)" "complete_round p rd"
  shows "checkAll rd p = with_health (\<lambda>i. probe (pr_io rd i)) p"
proof -
  have "checkAll rd p = p\<lparr>p_servers := map (\<lambda>i. if i \<in> set (pr_order rd)
      then (p_servers p ! i)\<lparr>srv_Healthy := probe (pr_io rd i)\<rparr> else p_servers p ! i) [0..<length (p_servers p)]\<rparr>"
    unfolding checkAll_def Let_def using assms(3)
    by (intro checkAll_servers [OF assms(1,2)]) (auto simp: complete_round_def)
  also have "\<dots> = with_health (\<lambda>i. probe (pr_io rd i)) p"
    using assms(3) by (simp add: with_health_def complete_round_def cong: map_cong)
  finally show ?thesis .
qed

lemma with_health_simps [simp]:
  "addresses (with_health h p) = addresses p" "p_serverMap (with_health h p) = p_serverMap p"
  "length (p_servers (with_health h p)) = length (p_servers p)"
  "with_health g (with_health h p) = with_health g p"
  by (auto simp: with_health_def intro!: nth_equalityI)

lemma pool_wf_with_health: "pool_wf p \<Longrightarrow> pool_wf (with_health h p)"
  by (rule pool_wf_same) simp_all

text \<open>C35: health follows the last round.  With health checks enabled and server addresses that
  differ, after the initial round and any number of ticks the health of every server is what its
  last probe said, whatever the order in which the probes finished; nothing else in the pool
  changed.  With health checks disabled the pool is left alone.\<close>

theorem Checker_Run_exact:
  assumes "pool_wf p" and "distinct (addresses p)" and "list_all (complete_round p) (first # ticks)"
  shows "Checker_Run cfg first ticks p =
    (if hc_Enabled cfg then with_health (\<lambda>i. probe (pr_io (last (first # ticks)) i)) p else p)"
proof -
  have "foldl (\<lambda>p rd. checkAll rd p) (checkAll rd p) rds = with_health (\<lambda>i. probe (pr_io (last (rd # rds)) i)) p"
    if "list_all (complete_round p) (rd # rds)" for rd rds
    using that
  proof (induction rds arbitrary: rd rule: rev_induct)
    case Nil
    then show ?case using checkAll_with_health [OF assms(1,2)] by simp
  next
    case (snoc r rds)
    let ?q = "with_health (\<lambda>i. probe (pr_io (last (rd # rds)) i)) p"
    have "complete_round ?q r" using snoc.prems by (simp add: complete_round_def)
    then have "checkAll r ?q = with_health (\<lambda>i. probe (pr_io r i)) ?q"
      using assms(1,2) by (intro checkAll_with_health pool_wf_with_health) simp_all
    then show ?case using snoc by simp
  qed
  then show ?thesis using assms(3) by (simp add: Checker_Run_def)
qed

definition test_probe_io :: "readOutcome \<Rightarrow> probeIO" where
  "test_probe_io r = \<lparr>io_dial = True, io_setDeadline = True, io_write = True, io_read = r, io_cancelled = False\<rparr>"

theorem Checker_Run_exact_witness:
  "map srv_Healthy (p_servers (Checker_Run \<lparr>hc_Enabled = True, hc_Interval = Second, hc_Timeout = Second\<rparr>
     \<lparr>pr_io = (\<lambda>_. test_probe_io ReadReply), pr_order = [0, 1]\<rparr>
     [\<lparr>pr_io = (\<lambda>i. test_probe_io (if i = 0 then ReadError else ReadTimeout)), pr_order = [1, 0]\<rparr>]
     (test_pool ''hash''))) = [False, True]"
proof -
  let ?a = "\<lparr>pr_io = (\<lambda>_. test_probe_io ReadReply), pr_order = [0, 1]\<rparr>"
  let ?b = "\<lparr>pr_io = (\<lambda>i. test_probe_io (if i = 0 then ReadError else ReadTimeout)), pr_order = [1, 0]\<rparr>"
  have "list_all (complete_round (test_pool ''hash'')) [?a, ?b]"
    by (auto simp: complete_round_def test_pool_def less_Suc_eq)
  from Checker_Run_exact [OF test_pool_wf this, of "\<lparr>hc_Enabled = True, hc_Interval = Second, hc_Timeout = Second\<rparr>"]
  show ?thesis by (simp add: with_health_def test_pool_def probe_def test_probe_io_def)
qed

text \<open>Probe verdicts.  A server is found healthy exactly when the dial, the deadline and the
  write succeed and the read gets a reply or times out; except that a timeout while the proxy
  shuts down counts as unhealthy, so a cancelled round leaves silent servers marked unhealthy.\<close>

theorem probe_verdict:
  "(probe io \<longleftrightarrow> io_dial io \<and> io_setDeadline io \<and> io_write io \<and>
      (io_read io = ReadReply \<or> io_read io = ReadTimeout \<and> \<not> io_cancelled io)) \<and>
   checkAll \<lparr>pr_io = (\<lambda>_. (test_probe_io ReadTimeout)\<lparr>io_cancelled := True\<rparr>), pr_order = [0, 1]\<rparr> (test_pool ''hash'') =
     with_health (\<lambda>_. False) (test_pool ''hash'')"
proof -
  let ?rd = "\<lparr>pr_io = (\<lambda>_. (test_probe_io ReadTimeout)\<lparr>io_cancelled := True\<rparr>), pr_order = [0, 1]\<rparr>"
  have "complete_round (test_pool ''hash'') ?rd" by (auto simp: complete_round_def test_pool_def less_Suc_eq)
  from checkAll_with_health [OF test_pool_wf this]
  show ?thesis by (cases "io_read io") (simp_all add: probe_def test_probe_io_def)
qed

end
