(* ===== verification/System.thy ===== *)
theory System
  imports FrontendFacts Healthcheck
begin

text \<open>
  The running proxy: the frontends with the buffers their goroutines hold, the state they share,
  and one step per iteration of a goroutine.  A run is any interleaving of such iterations; an
  iteration is one step from the moment its blocking call returns.  Each step is labelled with
  what an observer of the sockets sees.  The invariants of this theory are about the buffers and
  the pools; the theorems about whole runs are in \<open>SystemFacts\<close>.
\<close>

section \<open>States and steps\<close>

text \<open>The buffers a frontend's reader goroutines (listeners and backend) have taken from the pool
  and are blocked on.\<close>

record node =
  nd_fe :: frontend
  nd_held :: "nat list"

record sys =
  sy_nodes :: "node list"
  sy_sh :: shared

datatype event =
    Received nat addrport "byte list"
  | Forwarded nat addrport string addrport "byte list"
  | Replied nat string addrport "byte list"
  | Orphan nat
  | Drained nat nat
  | Internal

definition putNode :: "nat \<Rightarrow> node \<Rightarrow> shared \<Rightarrow> sys \<Rightarrow> sys" where
  "putNode i n sh s = s\<lparr>sy_nodes := (sy_nodes s)[i := n], sy_sh := sh\<rparr>"

definition workEvent :: "nat \<Rightarrow> pkt \<Rightarrow> fwdResult \<Rightarrow> event" where
  "workEvent i p res =
     (case res of Sent a dst data \<Rightarrow> Forwarded i (pk_clientAddr p) a dst data | _ \<Rightarrow> Internal)"

definition responseEvent :: "nat \<Rightarrow> response \<Rightarrow> event" where
  "responseEvent i res =
     (case res of Reply a c client data \<Rightarrow> Replied i a client data | NoPending a \<Rightarrow> Orphan i | _ \<Rightarrow> Internal)"

text \<open>A sweep of the session table with its callbacks.\<close>

definition evictSweep :: "time \<Rightarrow> shared \<Rightarrow> shared" where
  "evictSweep now sh =
     (let (t, cbs) = evictExpired now (ss_sessions sh) in fold runCallback cbs (sh\<lparr>ss_sessions := t\<rparr>))"

definition setHealth :: "nat \<Rightarrow> string \<Rightarrow> bool \<Rightarrow> shared \<Rightarrow> shared" where
  "setHealth j a h sh = sh\<lparr>ss_pools := (ss_pools sh)[j := SetHealthy a h (ss_pools sh ! j)]\<rparr>"

inductive sys_step :: "sys \<Rightarrow> event \<Rightarrow> sys \<Rightarrow> bool" where
  step_get: "i < length (sy_nodes s) \<Longrightarrow> n = sy_nodes s ! i \<Longrightarrow> \<not> fe_stopped (nd_fe n) \<Longrightarrow>
     getBuf choice (nd_fe n) = (b, f) \<Longrightarrow>
     sys_step s Internal (putNode i \<lparr>nd_fe = f, nd_held = b # nd_held n\<rparr> (sy_sh s) s)"
| step_read: "i < length (sy_nodes s) \<Longrightarrow> n = sy_nodes s ! i \<Longrightarrow> b \<in> set (nd_held n) \<Longrightarrow>
     readLoop ci b (Datagram client payload oob) now tnow (nd_fe n, sy_sh s) = (f, sh) \<Longrightarrow>
     sys_step s (Received i client payload) (putNode i \<lparr>nd_fe = f, nd_held = remove1 b (nd_held n)\<rparr> sh s)"
| step_readFailed: "i < length (sy_nodes s) \<Longrightarrow> n = sy_nodes s ! i \<Longrightarrow> b \<in> set (nd_held n) \<Longrightarrow>
     readLoop ci b ReadFailed now tnow (nd_fe n, sy_sh s) = (f, sh) \<Longrightarrow>
     sys_step s Internal (putNode i \<lparr>nd_fe = f, nd_held = remove1 b (nd_held n)\<rparr> sh s)"
| step_work: "i < length (sy_nodes s) \<Longrightarrow> n = sy_nodes s ! i \<Longrightarrow> fe_workCh (nd_fe n) = p # ps \<Longrightarrow>
     forwardWorker io (nd_fe n, sy_sh s) = (res, f, sh) \<Longrightarrow> res \<noteq> Panicked \<Longrightarrow>
     sys_step s (workEvent i p res) (putNode i \<lparr>nd_fe = f, nd_held = nd_held n\<rparr> sh s)"
| step_respond: "i < length (sy_nodes s) \<Longrightarrow> n = sy_nodes s ! i \<Longrightarrow> b \<in> set (nd_held n) \<Longrightarrow>
     backendReadLoop b rd now (nd_fe n, sy_sh s) = (res, f, sh) \<Longrightarrow>
     sys_step s (responseEvent i res) (putNode i \<lparr>nd_fe = f, nd_held = remove1 b (nd_held n)\<rparr> sh s)"
| step_evict: "\<not> tb_stopped (ss_sessions (sy_sh s)) \<Longrightarrow>
     sys_step s Internal (s\<lparr>sy_sh := evictSweep now (sy_sh s)\<rparr>)"
| step_health: "sys_step s Internal (s\<lparr>sy_sh := setHealth j a h (sy_sh s)\<rparr>)"
| step_stop: "i < length (sy_nodes s) \<Longrightarrow> n = sy_nodes s ! i \<Longrightarrow>
     sys_step s Internal (putNode i (n\<lparr>nd_fe := Frontend_Stop (nd_fe n)\<rparr>) (sy_sh s) s)"
| step_drain: "i < length (sy_nodes s) \<Longrightarrow> n = sy_nodes s ! i \<Longrightarrow> fe_stopped (nd_fe n) \<Longrightarrow>
     sys_step s (Drained i (length (fe_workCh (nd_fe n))))
       (putNode i (n\<lparr>nd_fe := drainWorker (nd_fe n)\<rparr>) (sy_sh s) s)"

inductive_cases sys_stepE: "sys_step s e t"

lemma putNode_simps [simp]:
  "sy_nodes (putNode i n sh s) = (sy_nodes s)[i := n]" "sy_sh (putNode i n sh s) = sh"
  by (simp_all add: putNode_def)

section \<open>Buffer ownership\<close>

text \<open>Every buffer has one owner: a goroutine blocked on a read, a queued packet or the pool.  A
  queued packet's length fits its buffer and the configured maximum.\<close>

definition owned :: "node \<Rightarrow> nat list" where
  "owned n = nd_held n @ map pk_buf (fe_workCh (nd_fe n)) @ fe_free (nd_fe n)"

definition node_ok :: "node \<Rightarrow> bool" where
  "node_ok n \<longleftrightarrow> bufs_sized (nd_fe n) \<and> distinct (owned n) \<and> (\<forall>b \<in> set (owned n). b < length (fe_mem (nd_fe n))) \<and>
     (\<forall>p \<in> set (fe_workCh (nd_fe n)). 0 \<le> pk_n p \<and> pk_n p \<le> fe_maxPacketSize (nd_fe n)) \<and>
     length (fe_workCh (nd_fe n)) \<le> fe_workCap (nd_fe n)"

text \<open>The datagrams waiting in the work queue, with their clients.\<close>

definition queued :: "node \<Rightarrow> (addrport \<times> byte list) list" where
  "queued n = map (\<lambda>p. (pk_clientAddr p, take (nat (pk_n p)) (fe_mem (nd_fe n) ! pk_buf p))) (fe_workCh (nd_fe n))"

lemma node_ok_move:
  assumes "node_ok n" "mset (owned n') = mset (owned n)" "bufs_sized (nd_fe n')"
    "length (fe_mem (nd_fe n')) = length (fe_mem (nd_fe n))"
    "fe_maxPacketSize (nd_fe n') = fe_maxPacketSize (nd_fe n)"
    "\<forall>p \<in> set (fe_workCh (nd_fe n')). p \<in> set (fe_workCh (nd_fe n)) \<or> 0 \<le> pk_n p \<and> pk_n p \<le> fe_maxPacketSize (nd_fe n)"
    "length (fe_workCh (nd_fe n')) \<le> fe_workCap (nd_fe n')"
  shows "node_ok n'"
  using assms mset_eq_setD [OF assms(2)] mset_eq_imp_distinct_iff [OF assms(2)] unfolding node_ok_def by auto

lemma bufs_sized_cong:
  "bufs_sized f \<Longrightarrow> fe_maxPacketSize g = fe_maxPacketSize f \<Longrightarrow> fe_mem g = fe_mem f \<Longrightarrow> bufs_sized g"
  by (simp add: bufs_sized_def)

lemma bufs_sized_write:
  assumes "bufs_sized f" "fe_maxPacketSize g = fe_maxPacketSize f" "fe_mem g = (fe_mem f)[b := m]"
    "b < length (fe_mem f)" "length m = length (fe_mem f ! b)"
  shows "bufs_sized g"
  using assms set_update_subset_insert [of "fe_mem f" b m] nth_mem [OF assms(4)] by (auto simp: bufs_sized_def)

lemma queued_cong:
  assumes "fe_workCh (nd_fe n') = fe_workCh (nd_fe n)"
    "\<And>p. p \<in> set (fe_workCh (nd_fe n)) \<Longrightarrow> fe_mem (nd_fe n') ! pk_buf p = fe_mem (nd_fe n) ! pk_buf p"
  shows "queued n' = queued n"
  using assms by (simp add: queued_def)

lemma held_facts:
  assumes "node_ok n" "b \<in> set (nd_held n)"
  shows "b < length (fe_mem (nd_fe n))" "\<And>p. p \<in> set (fe_workCh (nd_fe n)) \<Longrightarrow> pk_buf p \<noteq> b"
    "mset (remove1 b (nd_held n)) + {#b#} = mset (nd_held n)"
  using assms by (auto simp: node_ok_def owned_def)

lemma getBuf_effect:
  assumes "node_ok n" "getBuf choice (nd_fe n) = (b, f)"
  defines "n' \<equiv> \<lparr>nd_fe = f, nd_held = b # nd_held n\<rparr>"
  shows "node_ok n' \<and> queued n' = queued n \<and> fe_routes f = fe_routes (nd_fe n) \<and> fe_pool f = fe_pool (nd_fe n) \<and>
    fe_cfg f = fe_cfg (nd_fe n)"
proof -
  consider (old) "b \<in> set (fe_free (nd_fe n))" "f = (nd_fe n)\<lparr>fe_free := remove1 b (fe_free (nd_fe n))\<rparr>"
    | (new) "b = length (fe_mem (nd_fe n))"
      "f = (nd_fe n)\<lparr>fe_mem := fe_mem (nd_fe n) @ [replicate (nat (fe_maxPacketSize (nd_fe n) + 1)) 0]\<rparr>"
    using assms(2) by (auto simp: getBuf_def split: option.splits if_splits)
  then show ?thesis
  proof cases
    case old
    have "node_ok n'" using old assms(1)
      by (intro node_ok_move [OF assms(1)]) (auto simp: n'_def owned_def node_ok_def bufs_sized_def)
    then show ?thesis using old by (simp add: n'_def queued_def)
  next
    case new
    have "b \<notin> set (owned n)" using new assms(1) by (auto simp: node_ok_def)
    then have "node_ok n'" using new assms(1)
      by (auto simp: n'_def node_ok_def owned_def bufs_sized_def less_Suc_eq)
    moreover have "queued n' = queued n"
      by (rule queued_cong) (use new assms(1) in \<open>auto simp: n'_def nth_append node_ok_def owned_def\<close>)
    ultimately show ?thesis using new by simp
  qed
qed

lemma fill_effect:
  assumes "node_ok n" "b \<in> set (nd_held n)" "fillBuf b payload (nd_fe n) = (k, f)"
  shows "node_ok (n\<lparr>nd_fe := f\<rparr>)" "queued (n\<lparr>nd_fe := f\<rparr>) = queued n"
    "fe_workCh f = fe_workCh (nd_fe n)" "fe_free f = fe_free (nd_fe n)" "fe_routes f = fe_routes (nd_fe n)"
    "fe_pool f = fe_pool (nd_fe n)" "fe_cfg f = fe_cfg (nd_fe n)" "fe_maxPacketSize f = fe_maxPacketSize (nd_fe n)"
    "0 \<le> k" "k \<le> fe_maxPacketSize f \<Longrightarrow> take (nat k) (fe_mem f ! b) = payload"
    "take (nat k) (fe_mem f ! b) = take (nat (fe_maxPacketSize (nd_fe n) + 1)) payload"
proof -
  have sized: "bufs_sized (nd_fe n)" using assms(1) by (simp add: node_ok_def)
  note h = held_facts [OF assms(1,2)]
  note fb = fillBuf_effect [OF sized h(1) assms(3)]
  define m where "m = take (nat k) payload @ drop (nat k) (fe_mem (nd_fe n) ! b)"
  have f: "f = (nd_fe n)\<lparr>fe_mem := (fe_mem (nd_fe n))[b := m]\<rparr>" using fb(2) by (simp add: m_def)
  have lb: "length (fe_mem (nd_fe n) ! b) = nat (fe_maxPacketSize (nd_fe n) + 1)"
    using sized h(1) by (simp add: bufs_sized_def)
  have m: "length m = length (fe_mem (nd_fe n) ! b)"
    using fb(1,5) by (simp add: m_def lb)
  show "fe_workCh f = fe_workCh (nd_fe n)" "fe_free f = fe_free (nd_fe n)" "fe_routes f = fe_routes (nd_fe n)"
    "fe_pool f = fe_pool (nd_fe n)" "fe_cfg f = fe_cfg (nd_fe n)" "fe_maxPacketSize f = fe_maxPacketSize (nd_fe n)"
    by (simp_all add: f)
  show "0 \<le> k" by (rule fb(5))
  show "node_ok (n\<lparr>nd_fe := f\<rparr>)"
    by (rule node_ok_move [OF assms(1)])
      (use assms(1) bufs_sized_write [OF sized _ _ h(1) m] in \<open>auto simp: f owned_def node_ok_def\<close>)
  show "queued (n\<lparr>nd_fe := f\<rparr>) = queued n"
  proof (rule queued_cong)
    fix p assume "p \<in> set (fe_workCh (nd_fe n))"
    then have "b \<noteq> pk_buf p" using h(2) by blast
    then show "fe_mem (nd_fe (n\<lparr>nd_fe := f\<rparr>)) ! pk_buf p = fe_mem (nd_fe n) ! pk_buf p" by (simp add: f)
  qed (simp add: f)
  have mx: "fe_maxPacketSize f = fe_maxPacketSize (nd_fe n)" by (simp add: f)
  show "take (nat k) (fe_mem f ! b) = payload" if "k \<le> fe_maxPacketSize f"
    using fb(3,4) that mx by simp
  show "take (nat k) (fe_mem f ! b) = take (nat (fe_maxPacketSize (nd_fe n) + 1)) payload"
    unfolding fb(3) using fb(1) by (cases "int (length payload) \<le> fe_maxPacketSize (nd_fe n) + 1") auto
qed

text \<open>What a step of the reader does to its node and to the shared state.\<close>

lemma read_effect:
  assumes "node_ok n" "b \<in> set (nd_held n)"
    "readLoop ci b (Datagram client payload oob) now tnow (nd_fe n, sh) = (f', sh')"
  defines "n' \<equiv> \<lparr>nd_fe = f', nd_held = remove1 b (nd_held n)\<rparr>"
  shows "node_ok n'" "fe_routes f' = fe_routes (nd_fe n)" "fe_pool f' = fe_pool (nd_fe n)"
    "fe_cfg f' = fe_cfg (nd_fe n)" "ss_pools sh' = ss_pools sh" "ss_sessions sh' = ss_sessions sh"
    "PacketsReceived (ss_counters sh') = PacketsReceived (ss_counters sh) + 1"
    "PacketsForwarded (ss_counters sh') = PacketsForwarded (ss_counters sh)"
    "BytesOut (ss_counters sh') = BytesOut (ss_counters sh)"
    "PacketsShaped (ss_counters sh') - PacketsDroppedRateLimit (ss_counters sh') =
       PacketsShaped (ss_counters sh) - PacketsDroppedRateLimit (ss_counters sh)"
    "queued n' = queued n \<and> PacketsDropped (ss_counters sh') = PacketsDropped (ss_counters sh) + 1 \<or>
     queued n' = queued n @ [(client, payload)] \<and> PacketsDropped (ss_counters sh') = PacketsDropped (ss_counters sh)"
proof -
  obtain k f where fill: "fillBuf b payload (nd_fe n) = (k, f)" by fastforce
  note fe = fill_effect [OF assms(1,2) fill] and h = held_facts [OF assms(1,2)]
  let ?m = "n\<lparr>nd_fe := f\<rparr>" and ?s = "count (countReceived k) sh"
  have adm: "admit ci b client k (take 128 oob) now tnow (f, ?s) = (f', sh')"
    using assms(3) by (simp add: readLoop_def fill)
  have "node_ok n' \<and> fe_routes f' = fe_routes f \<and> fe_pool f' = fe_pool f \<and> fe_cfg f' = fe_cfg f \<and>
      ss_pools sh' = ss_pools sh \<and> ss_sessions sh' = ss_sessions sh \<and>
      (\<exists>c \<in> insert id dropCounts. ss_counters sh' = c (ss_counters ?s) \<and>
         queued n' = queued ?m @ (if c = id then [(client, payload)] else []))"
    using adm
  proof (cases rule: admit_cases)
    case (drop f1 s1 c)
    note eq = same_but_limits_simps [OF drop(1)]
    have fs: "fe_mem f' = fe_mem f" "fe_workCh f' = fe_workCh f" "fe_free f' = b # fe_free f"
      "fe_maxPacketSize f' = fe_maxPacketSize f" "fe_workCap f' = fe_workCap f"
      using drop(3) eq by simp_all
    have "node_ok n'"
      by (rule node_ok_move [OF fe(1)])
        (use fe(1) h(3) fs bufs_sized_cong [of f f'] in \<open>auto simp: n'_def owned_def node_ok_def\<close>)
    moreover have "queued n' = queued ?m" using fs by (simp add: queued_def n'_def)
    moreover have "c \<noteq> id"
    proof -
      have "PacketsDropped (c zeroCounters) = 1" using dropCounts_effect(1) [OF drop(2), of zeroCounters] by (simp add: zeroCounters_def)
      then show ?thesis by (auto simp: zeroCounters_def)
    qed
    ultimately show ?thesis using drop eq by auto
  next
    case (queue f1)
    note eq = same_but_limits_simps [OF queue(1)]
    define p where "p = \<lparr>pk_clientAddr = client, pk_buf = b, pk_n = k, pk_connIndex = ci\<rparr>"
    have fs: "fe_mem f' = fe_mem f" "fe_workCh f' = fe_workCh f @ [p]" "fe_free f' = fe_free f"
      "fe_maxPacketSize f' = fe_maxPacketSize f" "fe_workCap f' = fe_workCap f"
      using queue(4) eq by (simp_all add: p_def)
    have "node_ok n'"
      by (rule node_ok_move [OF fe(1)])
        (use fe(1) h(3) fs queue(2,3) fe(9) bufs_sized_cong [of f f'] in \<open>auto simp: n'_def owned_def node_ok_def p_def\<close>)
    moreover have "queued n' = queued ?m @ [(client, payload)]"
      using fs fe(10) [OF queue(2)] by (simp add: queued_def n'_def p_def)
    ultimately show ?thesis using queue eq by auto
  qed
  then obtain c where c: "c \<in> insert id dropCounts" "ss_counters sh' = c (ss_counters ?s)"
      "queued n' = queued n @ (if c = id then [(client, payload)] else [])"
    and rest: "node_ok n'" "fe_routes f' = fe_routes f" "fe_pool f' = fe_pool f" "fe_cfg f' = fe_cfg f"
      "ss_pools sh' = ss_pools sh" "ss_sessions sh' = ss_sessions sh"
    unfolding fe(2) by blast
  show "node_ok n'" "fe_routes f' = fe_routes (nd_fe n)" "fe_pool f' = fe_pool (nd_fe n)"
    "fe_cfg f' = fe_cfg (nd_fe n)" "ss_pools sh' = ss_pools sh" "ss_sessions sh' = ss_sessions sh"
    using rest fe by simp_all
  show "PacketsReceived (ss_counters sh') = PacketsReceived (ss_counters sh) + 1"
    "PacketsForwarded (ss_counters sh') = PacketsForwarded (ss_counters sh)"
    "BytesOut (ss_counters sh') = BytesOut (ss_counters sh)"
    "PacketsShaped (ss_counters sh') - PacketsDroppedRateLimit (ss_counters sh') =
       PacketsShaped (ss_counters sh) - PacketsDroppedRateLimit (ss_counters sh)"
    "queued n' = queued n \<and> PacketsDropped (ss_counters sh') = PacketsDropped (ss_counters sh) + 1 \<or>
     queued n' = queued n @ [(client, payload)] \<and> PacketsDropped (ss_counters sh') = PacketsDropped (ss_counters sh)"
    using c dropCounts_effect [of c "ss_counters ?s"] by (cases "c = id"; auto simp: countReceived_def)+
qed

text \<open>Putting back a held buffer.\<close>

lemma release_effect:
  fixes q
  assumes "node_ok n" "b \<in> set (nd_held n)"
  defines "n' \<equiv> \<lparr>nd_fe = putBuf b ((nd_fe n)\<lparr>fe_routes := q\<rparr>), nd_held = remove1 b (nd_held n)\<rparr>"
  shows "node_ok n'" "queued n' = queued n"
proof -
  note h = held_facts [OF assms(1,2)]
  show "node_ok n'"
    by (rule node_ok_move [OF assms(1)])
      (use assms(1) h(3) in \<open>auto simp: n'_def owned_def node_ok_def bufs_sized_def\<close>)
  show "queued n' = queued n" by (simp add: queued_def n'_def)
qed

text \<open>The response path: at most the head of one queue of routes goes, the buffers and the work
  queue stay, and a drop is counted exactly for a response without a route.\<close>

lemma respond_effect:
  assumes "node_ok n" "b \<in> set (nd_held n)" "backendReadLoop b rd now (nd_fe n, sh) = (res, f', sh')"
  defines "n' \<equiv> \<lparr>nd_fe = f', nd_held = remove1 b (nd_held n)\<rparr>"
  shows "node_ok n'" "queued n' = queued n" "fe_pool f' = fe_pool (nd_fe n)" "fe_cfg f' = fe_cfg (nd_fe n)"
    "sh' = (case res of NoPending a \<Rightarrow> count countDropped sh | _ \<Rightarrow> sh)"
    "case res of Ignored \<Rightarrow> fe_routes f' = fe_routes (nd_fe n)
     | NoPending a \<Rightarrow> (None, fe_routes f') = dequeuePendingRoute a now (fe_routes (nd_fe n))
     | NoListener a c \<Rightarrow> \<exists>r. rt_clientAddr r = c \<and> (Some r, fe_routes f') = dequeuePendingRoute a now (fe_routes (nd_fe n))
     | Reply a ci c data \<Rightarrow> \<exists>r. rt_clientAddr r = c \<and> (Some r, fe_routes f') = dequeuePendingRoute a now (fe_routes (nd_fe n))"
    "res = Reply a ci c data \<Longrightarrow> \<exists>src payload oob. rd = Datagram src payload oob \<and>
       data = take (nat (fe_maxPacketSize (nd_fe n) + 1)) payload \<and>
       (\<exists>i. ServerByAddrPort (poolOf (nd_fe n) sh) src = Some i \<and> a = srv_Address (p_servers (poolOf (nd_fe n) sh) ! i))"
proof -
  have *: "node_ok n' \<and> queued n' = queued n \<and> fe_pool f' = fe_pool (nd_fe n) \<and> fe_cfg f' = fe_cfg (nd_fe n) \<and>
      sh' = (case res of NoPending a \<Rightarrow> count countDropped sh | _ \<Rightarrow> sh) \<and>
      (case res of Ignored \<Rightarrow> fe_routes f' = fe_routes (nd_fe n)
       | NoPending a \<Rightarrow> (None, fe_routes f') = dequeuePendingRoute a now (fe_routes (nd_fe n))
       | NoListener a c \<Rightarrow> \<exists>r. rt_clientAddr r = c \<and> (Some r, fe_routes f') = dequeuePendingRoute a now (fe_routes (nd_fe n))
       | Reply a ci c data \<Rightarrow> (\<exists>r. rt_clientAddr r = c \<and> (Some r, fe_routes f') = dequeuePendingRoute a now (fe_routes (nd_fe n))) \<and>
           (\<exists>src payload oob. rd = Datagram src payload oob \<and> data = take (nat (fe_maxPacketSize (nd_fe n) + 1)) payload \<and>
             (\<exists>i. ServerByAddrPort (poolOf (nd_fe n) sh) src = Some i \<and> a = srv_Address (p_servers (poolOf (nd_fe n) sh) ! i))))"
  proof (cases rd)
    case ReadFailed
    have "f' = putBuf b ((nd_fe n)\<lparr>fe_routes := fe_routes (nd_fe n)\<rparr>)" "res = Ignored" "sh' = sh"
      using assms(3) by (simp_all add: backendReadLoop_def ReadFailed)
    then show ?thesis using release_effect [OF assms(1,2), of "fe_routes (nd_fe n)"] by (simp add: n'_def)
  next
    case (Datagram src payload oob)
    obtain k f where fill: "fillBuf b payload (nd_fe n) = (k, f)" by fastforce
    note fe = fill_effect [OF assms(1,2) fill]
    have resp: "respond b src k now (f, sh) = (res, f', sh')" using assms(3) by (simp add: backendReadLoop_def Datagram fill)
    have rel: "node_ok \<lparr>nd_fe = putBuf b (f\<lparr>fe_routes := q\<rparr>), nd_held = remove1 b (nd_held n)\<rparr>"
      "queued \<lparr>nd_fe = putBuf b (f\<lparr>fe_routes := q\<rparr>), nd_held = remove1 b (nd_held n)\<rparr> = queued n" for q
      using release_effect [of "n\<lparr>nd_fe := f\<rparr>" b q] fe(1,2) assms(2) by simp_all
    show ?thesis
    proof (cases "ServerByAddrPort (poolOf f sh) src")
      case None
      have "f' = putBuf b (f\<lparr>fe_routes := fe_routes f\<rparr>)" "res = Ignored" "sh' = sh"
        using resp by (simp_all add: respond_def None)
      then show ?thesis using rel [of "fe_routes f"] fe(5-7) by (simp add: n'_def)
    next
      case (Some i)
      let ?a = "srv_Address (p_servers (poolOf f sh) ! i)"
      obtain r q where d: "dequeuePendingRoute ?a now (fe_routes f) = (r, q)" by fastforce
      note unf = resp [unfolded respond_def Let_def split Some option.case d]
      have f': "f' = putBuf b (f\<lparr>fe_routes := q\<rparr>)" using unf by (auto split: option.splits)
      show ?thesis
      proof (cases r)
        case None
        then have "res = NoPending ?a" "sh' = count countDropped sh" using unf by simp_all
        then show ?thesis using rel [of q] fe(5-7) d None by (simp add: n'_def f')
      next
        case r: (Some rt)
        define conn where "conn = (case listenerForIndex (f\<lparr>fe_routes := q\<rparr>) (rt_connIndex rt) of
            Some c \<Rightarrow> Some c | None \<Rightarrow> listenerForClient (f\<lparr>fe_routes := q\<rparr>) (rt_clientAddr rt))"
        have res: "res = (case conn of None \<Rightarrow> NoListener ?a (rt_clientAddr rt)
            | Some c \<Rightarrow> Reply ?a c (rt_clientAddr rt) (take (nat k) (fe_mem f ! b)))" and sh': "sh' = sh"
          using unf unfolding r conn_def by (auto split: option.splits)
        show ?thesis
          using rel [of q] fe(5-7) d Some unfolding res sh' fe(11)
          by (cases conn) (auto simp: n'_def f' r Datagram)
      qed
    qed
  qed
  then show "node_ok n'" "queued n' = queued n" "fe_pool f' = fe_pool (nd_fe n)" "fe_cfg f' = fe_cfg (nd_fe n)"
    "sh' = (case res of NoPending a \<Rightarrow> count countDropped sh | _ \<Rightarrow> sh)" by blast+
  from * show "case res of Ignored \<Rightarrow> fe_routes f' = fe_routes (nd_fe n)
     | NoPending a \<Rightarrow> (None, fe_routes f') = dequeuePendingRoute a now (fe_routes (nd_fe n))
     | NoListener a c \<Rightarrow> \<exists>r. rt_clientAddr r = c \<and> (Some r, fe_routes f') = dequeuePendingRoute a now (fe_routes (nd_fe n))
     | Reply a ci c data \<Rightarrow> \<exists>r. rt_clientAddr r = c \<and> (Some r, fe_routes f') = dequeuePendingRoute a now (fe_routes (nd_fe n))"
    by (cases res) simp_all
  from * show "res = Reply a ci c data \<Longrightarrow> \<exists>src payload oob. rd = Datagram src payload oob \<and>
       data = take (nat (fe_maxPacketSize (nd_fe n) + 1)) payload \<and>
       (\<exists>i. ServerByAddrPort (poolOf (nd_fe n) sh) src = Some i \<and> a = srv_Address (p_servers (poolOf (nd_fe n) sh) ! i))"
    by simp
qed

section \<open>Pending routes of a client\<close>

definition pendingFor :: "routes \<Rightarrow> string \<Rightarrow> addrport \<Rightarrow> nat" where
  "pendingFor q a c = length (filter (\<lambda>r. rt_clientAddr r = c) (queueOf q a))"

lemma pendingFor_subseq: "subseq (queueOf q' a) (queueOf q a) \<Longrightarrow> pendingFor q' a c \<le> pendingFor q a c"
  unfolding pendingFor_def by (rule list_emb_length [OF subseq_filter])

lemma routes_wf_enqueue:
  assumes "routes_wf k q" "Suc k < 2 ^ 64" "enqueuePendingRoute b client conn now q = ((i, ok), q')"
  shows "\<exists>k' \<le> Suc k. routes_wf k' q'"
  using routes_wf_step [OF assms(1,2), of "Enqueue b client conn now"] assms(3) by simp

lemma pendingFor_enqueue:
  assumes "enqueuePendingRoute b client conn now q = ((i, ok), q')"
  shows "pendingFor q' a c \<le> pendingFor q a c + (if ok \<and> a = b \<and> c = client then 1 else 0)"
proof (cases "a = b")
  case True
  have "length (filter P (pruneExpiredRoutes (queueOf q b) now)) \<le> length (filter P (queueOf q b))" for P
    by (rule list_emb_length [OF subseq_filter [OF subseq_prune]])
  from this [of "\<lambda>r. rt_clientAddr r = c"] show ?thesis
    using queueOf_enqueue(2) [OF assms, of a] True by (auto simp: pendingFor_def)
qed (use queueOf_enqueue(2) [OF assms, of a] in \<open>simp add: pendingFor_def\<close>)

text \<open>Cancelling a route that was just queued takes exactly this route back: what is left are
  routes that were there before.\<close>

lemma enqueue_cancel_subseq:
  assumes "routes_wf k q" "Suc k < 2 ^ 64" "enqueuePendingRoute b client conn now q = ((i, True), q')"
  shows "subseq (queueOf (cancelPendingRoute b i now' q') a) (queueOf q a)"
proof (cases "a = b")
  case True
  define new where "new = \<lparr>rt_id = i, rt_clientAddr = client, rt_connIndex = conn, rt_queuedAt = now\<rparr>"
  obtain k' where wf: "routes_wf k' q'" using routes_wf_enqueue [OF assms] by blast
  have q': "queueOf q' b = pruneExpiredRoutes (queueOf q b) now @ [new]"
    using queueOf_enqueue(2) [OF assms(3), of b] by (simp add: new_def)
  have "distinct (map rt_id (queueOf q' b))" using wf by (simp add: routes_wf_def)
  then have "distinct (map rt_id (pruneExpiredRoutes (queueOf q' b) now'))"
    using subseq_parts(3) [OF subseq_prune] by blast
  then have "queueOf (cancelPendingRoute b i now' q') b =
      filter (\<lambda>r. rt_id r \<noteq> i) (pruneExpiredRoutes (queueOf q' b) now')"
    by (simp add: queueOf_cancel removeRoute_filter)
  moreover have "subseq (filter (\<lambda>r. rt_id r \<noteq> i) (pruneExpiredRoutes (queueOf q' b) now'))
      (filter (\<lambda>r. rt_id r \<noteq> i) (queueOf q' b))" by (rule subseq_filter [OF subseq_prune])
  moreover have "filter (\<lambda>r. rt_id r \<noteq> i) (queueOf q' b) = filter (\<lambda>r. rt_id r \<noteq> i) (pruneExpiredRoutes (queueOf q b) now)"
    by (simp add: q' new_def)
  moreover have "subseq (filter (\<lambda>r. rt_id r \<noteq> i) (pruneExpiredRoutes (queueOf q b) now)) (queueOf q b)"
    by (rule subseq_order.order_trans [OF subseq_filter_left subseq_prune])
  ultimately show ?thesis using True subseq_order.order_trans by metis
next
  case False
  then show ?thesis using queueOf_enqueue(2) [OF assms(3), of a] by (simp add: queueOf_cancel)
qed

lemma routes_wf_cancel:
  "routes_wf k q \<Longrightarrow> routes_wf k (cancelPendingRoute b i now q)"
  by (erule routes_wf_shrink) (simp_all add: cancelPendingRoute_def subseq_removeRoute_prune)

lemma pendingFor_dequeue:
  assumes "dequeuePendingRoute b now q = (r, q')"
  shows "pendingFor q' a c + (case r of None \<Rightarrow> 0 | Some rt \<Rightarrow> if a = b \<and> rt_clientAddr rt = c then 1 else 0) \<le> pendingFor q a c"
    "routes_wf k q \<Longrightarrow> routes_wf k q'"
proof -
  note d = queueOf_dequeue [of b now q, unfolded assms fst_conv snd_conv]
  show "pendingFor q' a c + (case r of None \<Rightarrow> 0 | Some rt \<Rightarrow> if a = b \<and> rt_clientAddr rt = c then 1 else 0) \<le> pendingFor q a c"
  proof (cases "a = b")
    case True
    have "length (filter P (pruneExpiredRoutes (queueOf q b) now)) \<le> length (filter P (queueOf q b))" for P
      by (rule list_emb_length [OF subseq_filter [OF subseq_prune]])
    from this [of "\<lambda>r. rt_clientAddr r = c"] show ?thesis
      using d(1) [of b] d(2) True by (cases "pruneExpiredRoutes (queueOf q b) now") (auto simp: pendingFor_def)
  next
    case False
    then show ?thesis using d(1) [of a] by (auto simp: pendingFor_def split: option.splits)
  qed
  have sub: "subseq (tl (pruneExpiredRoutes (queueOf q b) now)) (queueOf q b)"
    using subseq_prune [of "queueOf q b" now] by (cases "pruneExpiredRoutes (queueOf q b) now") (auto dest: subseq_Cons')
  show "routes_wf k q \<Longrightarrow> routes_wf k q'"
    by (erule routes_wf_shrink) (simp_all add: d sub)
qed

lemma dispatch_pending:
  assumes "routes_wf k (fe_routes f)" "Suc k < 2 ^ 64" "dispatch io p i (f, s) = (res, f', s')"
  shows "\<exists>k' \<le> Suc k. routes_wf k' (fe_routes f')"
    "pendingFor (fe_routes f') a c \<le> pendingFor (fe_routes f) a c +
       (case res of Sent a' _ _ \<Rightarrow> if a = a' \<and> c = pk_clientAddr p then 1 else 0 | _ \<Rightarrow> 0)"
proof -
  let ?a = "srv_Address (p_servers (poolOf f s) ! i)"
  obtain rid ok q where e: "enqueuePendingRoute ?a (pk_clientAddr p) (int (pk_connIndex p)) (fw_tEnqueue io) (fe_routes f)
      = ((rid, ok), q)" by (metis prod.collapse)
  obtain shaped b where sh: "Allow_opt (ss_backendShapers s ! fe_pool f) (pk_n p) (fw_tShape io) = (shaped, b)" by fastforce
  note d = assms(3) [unfolded dispatch_eq Let_def split e sh]
  consider (full) "\<not> ok" "res = Dropped" "fe_routes f' = q"
    | (undone) ok "res = Dropped" "fe_routes f' = cancelPendingRoute ?a rid (fw_tCancel io) q"
    | (sent) ok "\<exists>dst data. res = Sent ?a dst data" "fe_routes f' = q"
    using d by (auto split: if_splits)
  then have "(\<exists>k' \<le> Suc k. routes_wf k' (fe_routes f')) \<and> pendingFor (fe_routes f') a c \<le> pendingFor (fe_routes f) a c +
       (case res of Sent a' _ _ \<Rightarrow> if a = a' \<and> c = pk_clientAddr p then 1 else 0 | _ \<Rightarrow> 0)"
  proof cases
    case full
    then show ?thesis using routes_wf_enqueue [OF assms(1,2) e] pendingFor_enqueue [OF e, of a c] by simp
  next
    case undone
    have e': "enqueuePendingRoute ?a (pk_clientAddr p) (int (pk_connIndex p)) (fw_tEnqueue io) (fe_routes f)
      = ((rid, True), q)" using e undone(1) by simp
    have "pendingFor (fe_routes f') a c \<le> pendingFor (fe_routes f) a c"
      unfolding undone(3) by (rule pendingFor_subseq [OF enqueue_cancel_subseq [OF assms(1,2) e']])
    moreover have "\<exists>k' \<le> Suc k. routes_wf k' (fe_routes f')"
      unfolding undone(3) using routes_wf_enqueue [OF assms(1,2) e] routes_wf_cancel by blast
    ultimately show ?thesis by (simp add: undone(2))
  next
    case sent
    then show ?thesis using routes_wf_enqueue [OF assms(1,2) e] pendingFor_enqueue [OF e, of a c] by auto
  qed
  then show "\<exists>k' \<le> Suc k. routes_wf k' (fe_routes f')"
    "pendingFor (fe_routes f') a c \<le> pendingFor (fe_routes f) a c +
       (case res of Sent a' _ _ \<Rightarrow> if a = a' \<and> c = pk_clientAddr p then 1 else 0 | _ \<Rightarrow> 0)" by blast+
qed

section \<open>The worker, the stop and the drain\<close>

text \<open>The parts of the counters a worker's step changes, given how it ended.\<close>

definition counted :: "fwdResult \<Rightarrow> int \<Rightarrow> counters \<Rightarrow> counters \<Rightarrow> bool" where
  "counted res n c c' \<longleftrightarrow>
     (if res = Dropped then c' = countDropped c \<or> c' = countShaped c else c' = countForwarded n c)"

lemma forward_routes:
  assumes "pool_wf (poolOf f s)" "forward io p (f, s) = (res, f', s')" "res \<noteq> Panicked"
  shows "\<exists>q. f' = f\<lparr>fe_routes := q\<rparr>" "\<exists>t. pools_like s t \<and> ss_pools s' = ss_pools t \<and> ss_sessions s' = ss_sessions t"
    "counted res (pk_n p) (ss_counters s) (ss_counters s')"
    "res = Sent a dst data \<Longrightarrow> data = take (nat (pk_n p)) (fe_mem f ! pk_buf p)"
    "routes_wf k (fe_routes f) \<Longrightarrow> Suc k < 2 ^ 64 \<Longrightarrow> (\<exists>k' \<le> Suc k. routes_wf k' (fe_routes f')) \<and>
       pendingFor (fe_routes f') b c \<le> pendingFor (fe_routes f) b c +
         (case res of Sent a' _ _ \<Rightarrow> if b = a' \<and> c = pk_clientAddr p then 1 else 0 | _ \<Rightarrow> 0)"
proof -
  have "(\<exists>q. f' = f\<lparr>fe_routes := q\<rparr>) \<and> (\<exists>t. pools_like s t \<and> ss_pools s' = ss_pools t \<and> ss_sessions s' = ss_sessions t) \<and>
    counted res (pk_n p) (ss_counters s) (ss_counters s') \<and>
    (res = Sent a dst data \<longrightarrow> data = take (nat (pk_n p)) (fe_mem f ! pk_buf p)) \<and>
    (routes_wf k (fe_routes f) \<and> Suc k < 2 ^ 64 \<longrightarrow> (\<exists>k' \<le> Suc k. routes_wf k' (fe_routes f')) \<and>
       pendingFor (fe_routes f') b c \<le> pendingFor (fe_routes f) b c +
         (case res of Sent a' _ _ \<Rightarrow> if b = a' \<and> c = pk_clientAddr p then 1 else 0 | _ \<Rightarrow> 0))"
    using assms(1,2)
  proof (cases rule: forward_cases)
    case (panic t)
    then show ?thesis using assms(3) by simp
  next
    case (none t)
    have "\<exists>q. f' = f\<lparr>fe_routes := q\<rparr>" by (rule exI [of _ "fe_routes f"]) (use none in simp)
    moreover have "ss_counters t = ss_counters s" using none(4) by (simp add: pools_like_def)
    ultimately show ?thesis using none by (auto simp: counted_def intro: exI [of _ k])
  next
    case (to i r t t')
    note d = dispatch_effect [OF to(6)] and pend = dispatch_pending(1) [OF _ _ to(6), of k]
      dispatch_pending(2) [OF _ _ to(6), of k b c]
    have c: "ss_counters t' = ss_counters s" using to(2) by (simp add: pools_like_def)
    show ?thesis using d(2,3,4) d(5) d(6) [of a dst data] pend to(2) unfolding c counted_def by (auto split: if_splits)
  qed
  then show "\<exists>q. f' = f\<lparr>fe_routes := q\<rparr>" "\<exists>t. pools_like s t \<and> ss_pools s' = ss_pools t \<and> ss_sessions s' = ss_sessions t"
    "counted res (pk_n p) (ss_counters s) (ss_counters s')"
    "res = Sent a dst data \<Longrightarrow> data = take (nat (pk_n p)) (fe_mem f ! pk_buf p)"
    "routes_wf k (fe_routes f) \<Longrightarrow> Suc k < 2 ^ 64 \<Longrightarrow> (\<exists>k' \<le> Suc k. routes_wf k' (fe_routes f')) \<and>
       pendingFor (fe_routes f') b c \<le> pendingFor (fe_routes f) b c +
         (case res of Sent a' _ _ \<Rightarrow> if b = a' \<and> c = pk_clientAddr p then 1 else 0 | _ \<Rightarrow> 0)" by blast+
qed

lemma forwardWorker_eq:
  assumes "fe_workCh f = p # ps" "forwardWorker io (f, s) = (res, f', s')"
  obtains g where "forward io p (f\<lparr>fe_workCh := ps\<rparr>, s) = (res, g, s')" "f' = putBuf (pk_buf p) g"
  using assms by (auto simp: forwardWorker_def split: prod.splits)

lemma work_effect:
  assumes "node_ok n" "fe_workCh (nd_fe n) = p # ps" "forwardWorker io (nd_fe n, sh) = (res, f', sh')"
    "res \<noteq> Panicked" "pool_wf (poolOf (nd_fe n) sh)"
  defines "n' \<equiv> \<lparr>nd_fe = f', nd_held = nd_held n\<rparr>"
  shows "node_ok n'" "queued n = (pk_clientAddr p, take (nat (pk_n p)) (fe_mem (nd_fe n) ! pk_buf p)) # queued n'"
    "fe_pool f' = fe_pool (nd_fe n)" "fe_cfg f' = fe_cfg (nd_fe n)"
    "\<exists>t. pools_like sh t \<and> ss_pools sh' = ss_pools t \<and> ss_sessions sh' = ss_sessions t"
    "counted res (pk_n p) (ss_counters sh) (ss_counters sh')"
    "res = Sent a dst data \<Longrightarrow> hd (queued n) = (pk_clientAddr p, data) \<and> length data = nat (pk_n p)"
    "routes_wf k (fe_routes (nd_fe n)) \<Longrightarrow> Suc k < 2 ^ 64 \<Longrightarrow> (\<exists>k' \<le> Suc k. routes_wf k' (fe_routes f')) \<and>
       pendingFor (fe_routes f') b c \<le> pendingFor (fe_routes (nd_fe n)) b c +
         (case res of Sent a' _ _ \<Rightarrow> if b = a' \<and> c = pk_clientAddr p then 1 else 0 | _ \<Rightarrow> 0)"
proof -
  define f0 where "f0 = (nd_fe n)\<lparr>fe_workCh := ps\<rparr>"
  obtain g where g: "forward io p (f0, sh) = (res, g, sh')" "f' = putBuf (pk_buf p) g"
    unfolding f0_def by (rule forwardWorker_eq [OF assms(2,3)])
  have f0: "fe_pool f0 = fe_pool (nd_fe n)" "fe_mem f0 = fe_mem (nd_fe n)" "fe_routes f0 = fe_routes (nd_fe n)"
    by (simp_all add: f0_def)
  have wf: "pool_wf (poolOf f0 sh)" using assms(5) by (simp add: f0)
  note fr = forward_routes [OF wf g(1) assms(4)]
  obtain q where q: "g = f0\<lparr>fe_routes := q\<rparr>" using fr(1) by blast
  have f': "f' = putBuf (pk_buf p) (f0\<lparr>fe_routes := q\<rparr>)" by (simp add: g(2) q)
  show "node_ok n'"
    by (rule node_ok_move [OF assms(1)])
      (use assms(1,2) in \<open>auto simp: n'_def f' f0_def owned_def node_ok_def bufs_sized_def\<close>)
  show qu: "queued n = (pk_clientAddr p, take (nat (pk_n p)) (fe_mem (nd_fe n) ! pk_buf p)) # queued n'"
    using assms(2) by (simp add: queued_def n'_def f' f0_def)
  show "fe_pool f' = fe_pool (nd_fe n)" "fe_cfg f' = fe_cfg (nd_fe n)" by (simp_all add: f' f0_def)
  show "\<exists>t. pools_like sh t \<and> ss_pools sh' = ss_pools t \<and> ss_sessions sh' = ss_sessions t"
    "counted res (pk_n p) (ss_counters sh) (ss_counters sh')" by (rule fr(2), rule fr(3))
  have "pk_buf p < length (fe_mem (nd_fe n))" "0 \<le> pk_n p" "pk_n p \<le> fe_maxPacketSize (nd_fe n)" "bufs_sized (nd_fe n)"
    using assms(1,2) by (auto simp: node_ok_def owned_def)
  then have "nat (pk_n p) \<le> length (fe_mem (nd_fe n) ! pk_buf p)" by (simp add: bufs_sized_def)
  then show "hd (queued n) = (pk_clientAddr p, data) \<and> length data = nat (pk_n p)" if "res = Sent a dst data"
    using fr(4) [OF that] by (simp add: qu f0)
  show "routes_wf k (fe_routes (nd_fe n)) \<Longrightarrow> Suc k < 2 ^ 64 \<Longrightarrow> (\<exists>k' \<le> Suc k. routes_wf k' (fe_routes f')) \<and>
       pendingFor (fe_routes f') b c \<le> pendingFor (fe_routes (nd_fe n)) b c +
         (case res of Sent a' _ _ \<Rightarrow> if b = a' \<and> c = pk_clientAddr p then 1 else 0 | _ \<Rightarrow> 0)"
    using fr(5) [of k b c] by (simp add: f0 g(2))
qed

lemma stop_drain_effect:
  assumes "node_ok n"
  shows "node_ok (n\<lparr>nd_fe := Frontend_Stop (nd_fe n)\<rparr>)" "queued (n\<lparr>nd_fe := Frontend_Stop (nd_fe n)\<rparr>) = queued n"
    "node_ok (n\<lparr>nd_fe := drainWorker (nd_fe n)\<rparr>)" "queued (n\<lparr>nd_fe := drainWorker (nd_fe n)\<rparr>) = []"
proof -
  show "node_ok (n\<lparr>nd_fe := Frontend_Stop (nd_fe n)\<rparr>)"
    by (rule node_ok_move [OF assms]) (use assms in \<open>auto simp: Frontend_Stop_def owned_def node_ok_def bufs_sized_def\<close>)
  show "node_ok (n\<lparr>nd_fe := drainWorker (nd_fe n)\<rparr>)"
    by (rule node_ok_move [OF assms]) (use assms in \<open>auto simp: drainWorker_def owned_def node_ok_def bufs_sized_def\<close>)
qed (simp_all add: queued_def Frontend_Stop_def drainWorker_def)

end
