(* ===== verification/SystemFacts.thy ===== *)
theory SystemFacts
  imports System
begin

text \<open>
  Theorems about whole runs of the proxy: no worker panics, every buffer has one owner, no datagram
  is invented, altered or duplicated on its way to a server, no client gets more responses than it
  has forwarded requests, and the counters account for every datagram.
\<close>

section \<open>The state invariant\<close>

definition pool_ok :: "pool \<Rightarrow> bool" where
  "pool_ok p \<longleftrightarrow> pool_wf p \<and> weights_total (p_servers p) < 2 ^ 63"

definition sys_ok :: "sys \<Rightarrow> bool" where
  "sys_ok s \<longleftrightarrow> (\<forall>n \<in> set (sy_nodes s). node_ok n \<and> fe_pool (nd_fe n) < length (ss_pools (sy_sh s))) \<and>
     (\<forall>p \<in> set (ss_pools (sy_sh s)). pool_ok p)"

lemma pool_ok_fit: "pool_ok p \<Longrightarrow> pool_wf p" "pool_ok p \<Longrightarrow> weights_fit (p_servers p)"
  using expand_le_weights [of "p_servers p"] by (simp_all add: pool_ok_def weights_fit_def)

lemma pool_ok_like: "like p q \<Longrightarrow> pool_ok p \<Longrightarrow> pool_ok q"
proof -
  assume like: "like p q" and ok: "pool_ok p"
  have "map srv_Weight (p_servers q) = map srv_Weight (p_servers p)"
    by (rule nth_equalityI) (simp_all add: like_length [OF like] like_nth [OF like])
  from weights_total_cong [OF this] show "pool_ok q" using ok like_pool_wf [OF like] by (simp add: pool_ok_def)
qed

lemma pool_ok_SetHealthy: "pool_ok p \<Longrightarrow> pool_ok (SetHealthy a h p)"
proof -
  assume ok: "pool_ok p"
  have "srv_Weight (xs[k := (xs ! k)\<lparr>srv_Healthy := h\<rparr>] ! i) = srv_Weight (xs ! i)" if "i < length xs" for xs i k
    using that by (cases "k = i") simp_all
  then have "map srv_Weight (p_servers (SetHealthy a h p)) = map srv_Weight (p_servers p)"
    by (intro nth_equalityI) (auto simp: SetHealthy_def update_server_def split: option.split)
  from weights_total_cong [OF this] show ?thesis using ok by (auto simp: pool_ok_def intro: pool_wf_SetHealthy)
qed

lemma runCallback_like:
  "length (ss_pools (runCallback cb sh)) = length (ss_pools sh)"
  "like (ss_pools sh ! j) (ss_pools (runCallback cb sh) ! j)"
  "ss_counters (runCallback cb sh) = ss_counters sh" "ss_sessions (runCallback cb sh) = ss_sessions sh"
  by (cases "fst cb < length (ss_pools sh)";
      auto simp: runCallback_def nth_list_update list_update_beyond not_less)+

lemma runCallbacks_like:
  "length (ss_pools (fold runCallback cbs sh)) = length (ss_pools sh) \<and>
   like (ss_pools sh ! j) (ss_pools (fold runCallback cbs sh) ! j) \<and>
   ss_counters (fold runCallback cbs sh) = ss_counters sh \<and> ss_sessions (fold runCallback cbs sh) = ss_sessions sh"
proof (induction cbs arbitrary: sh)
  case Nil
  then show ?case by simp
next
  case (Cons cb cbs)
  show ?case
    using Cons.IH [of "runCallback cb sh"] runCallback_like(1,3,4) [of cb sh]
      like_trans [OF runCallback_like(2) [of sh j cb]] by simp
qed

lemma evictSweep_frame:
  "length (ss_pools (evictSweep now sh)) = length (ss_pools sh)"
  "like (ss_pools sh ! j) (ss_pools (evictSweep now sh) ! j)"
  "ss_counters (evictSweep now sh) = ss_counters sh"
  "ss_sessions (evictSweep now sh) = fst (evictExpired now (ss_sessions sh))"
proof -
  obtain t cbs where e: "evictExpired now (ss_sessions sh) = (t, cbs)" by fastforce
  from runCallbacks_like [of cbs "sh\<lparr>ss_sessions := t\<rparr>" j]
  show "length (ss_pools (evictSweep now sh)) = length (ss_pools sh)"
    "like (ss_pools sh ! j) (ss_pools (evictSweep now sh) ! j)"
    "ss_counters (evictSweep now sh) = ss_counters sh"
    "ss_sessions (evictSweep now sh) = fst (evictExpired now (ss_sessions sh))"
    by (simp_all add: evictSweep_def e)
qed

lemma pools_ok_like:
  assumes "\<forall>p \<in> set ps. pool_ok p" "length qs = length ps" "\<And>j. like (ps ! j) (qs ! j)"
  shows "\<forall>q \<in> set qs. pool_ok q"
  using assms pool_ok_like by (metis in_set_conv_nth)

lemma setHealth_pools_ok:
  assumes "\<forall>p \<in> set (ss_pools sh). pool_ok p"
  shows "\<forall>p \<in> set (ss_pools (setHealth j a h sh)). pool_ok p" "length (ss_pools (setHealth j a h sh)) = length (ss_pools sh)"
proof -
  show "length (ss_pools (setHealth j a h sh)) = length (ss_pools sh)" by (simp add: setHealth_def)
  show "\<forall>p \<in> set (ss_pools (setHealth j a h sh)). pool_ok p"
    using assms set_update_subset_insert [of "ss_pools sh" j "SetHealthy a h (ss_pools sh ! j)"]
    by (cases "j < length (ss_pools sh)")
      (auto simp: setHealth_def list_update_beyond not_less dest!: subsetD intro: pool_ok_SetHealthy)
qed

lemma sys_ok_node:
  assumes "sys_ok s" "i < length (sy_nodes s)" "n = sy_nodes s ! i"
  shows "node_ok n" "pool_ok (poolOf (nd_fe n) (sy_sh s))" "fe_pool (nd_fe n) < length (ss_pools (sy_sh s))"
  using assms nth_mem [OF assms(2)] by (auto simp: sys_ok_def)

lemma sys_ok_putNode:
  assumes "sys_ok s" "i < length (sy_nodes s)" "node_ok n'" "fe_pool (nd_fe n') = fe_pool (nd_fe (sy_nodes s ! i))"
    "length (ss_pools sh') = length (ss_pools (sy_sh s))" "\<And>j. like (ss_pools (sy_sh s) ! j) (ss_pools sh' ! j)"
  shows "sys_ok (putNode i n' sh' s)"
proof -
  have "\<forall>p \<in> set (ss_pools sh'). pool_ok p"
    using assms(1) by (intro pools_ok_like [OF _ assms(5,6)]) (simp add: sys_ok_def)
  moreover have "fe_pool (nd_fe n') < length (ss_pools sh')" using sys_ok_node(3) [OF assms(1,2) refl] assms(4,5) by simp
  ultimately show ?thesis
    using assms(1,3,5) set_update_subset_insert [of "sy_nodes s" i n'] by (auto simp: sys_ok_def dest!: subsetD)
qed

lemma sys_ok_step:
  assumes "sys_ok s" "sys_step s e t"
  shows "sys_ok t"
  using assms(2)
proof cases
  case (step_get i n choice b f)
  show ?thesis unfolding step_get(2)
    by (rule sys_ok_putNode [OF assms(1) step_get(3)])
      (use getBuf_effect [OF sys_ok_node(1) [OF assms(1) step_get(3,4)] step_get(6)] step_get(4) in simp_all)
next
  case (step_read i n b ci client payload oob now tnow f sh)
  note r = read_effect [OF sys_ok_node(1) [OF assms(1) step_read(3,4)] step_read(5,6)]
  show ?thesis unfolding step_read(2) by (rule sys_ok_putNode [OF assms(1) step_read(3)]) (use r step_read(4) in simp_all)
next
  case (step_readFailed i n b ci now tnow f sh)
  have f: "f = putBuf b (nd_fe n)" "sh = sy_sh s" using step_readFailed(6) by (simp_all add: readLoop_def)
  show ?thesis unfolding step_readFailed(2)
    by (rule sys_ok_putNode [OF assms(1) step_readFailed(3)])
      (use release_effect [OF sys_ok_node(1) [OF assms(1) step_readFailed(3,4)] step_readFailed(5), of "fe_routes (nd_fe n)"]
         f step_readFailed(4) in simp_all)
next
  case (step_work i n p ps io res f sh)
  note n = sys_ok_node [OF assms(1) step_work(3,4)]
  note w = work_effect [OF n(1) step_work(5,6,7) pool_ok_fit(1) [OF n(2)]]
  obtain u where u: "pools_like (sy_sh s) u" "ss_pools sh = ss_pools u" using w(5) by blast
  show ?thesis unfolding step_work(2)
    by (rule sys_ok_putNode [OF assms(1) step_work(3)]) (use w(1,3) u step_work(4) in \<open>simp_all add: pools_like_def\<close>)
next
  case (step_respond i n b rd now res f sh)
  note r = respond_effect [OF sys_ok_node(1) [OF assms(1) step_respond(3,4)] step_respond(5,6)]
  have "ss_pools sh = ss_pools (sy_sh s)" using r(5) by (simp split: response.splits)
  then show ?thesis unfolding step_respond(2)
    by (intro sys_ok_putNode [OF assms(1) step_respond(3)]) (use r(1,3) step_respond(4) in simp_all)
next
  case (step_evict now)
  have "\<forall>p \<in> set (ss_pools (evictSweep now (sy_sh s))). pool_ok p"
    by (rule pools_ok_like [OF _ evictSweep_frame(1,2)]) (use assms(1) in \<open>simp add: sys_ok_def\<close>)
  then show ?thesis unfolding step_evict(2) using assms(1) by (auto simp: sys_ok_def evictSweep_frame(1))
next
  case (step_health j a h)
  then show ?thesis using assms(1) setHealth_pools_ok by (auto simp: sys_ok_def)
next
  case (step_stop i n)
  show ?thesis unfolding step_stop(2)
    by (rule sys_ok_putNode [OF assms(1) step_stop(3)])
      (use stop_drain_effect [OF sys_ok_node(1) [OF assms(1) step_stop(3,4)]] step_stop(4) in \<open>simp_all add: Frontend_Stop_def\<close>)
next
  case (step_drain i n)
  show ?thesis unfolding step_drain(2)
    by (rule sys_ok_putNode [OF assms(1) step_drain(3)])
      (use stop_drain_effect [OF sys_ok_node(1) [OF assms(1) step_drain(3,4)]] step_drain(4) in \<open>simp_all add: drainWorker_def\<close>)
qed

interpretation sysOk: traced sys_step "\<lambda>_. sys_ok"
  by unfold_locales (rule sys_ok_step)

section \<open>What a step does to the queues, the routes and the counters\<close>

lemma length_queued: "length (queued n) = length (fe_workCh (nd_fe n))"
  by (simp add: queued_def)

lemma response_pending:
  assumes "case res of Ignored \<Rightarrow> q' = q
     | NoPending a \<Rightarrow> (None, q') = dequeuePendingRoute a now q
     | NoListener a c \<Rightarrow> \<exists>r. rt_clientAddr r = c \<and> (Some r, q') = dequeuePendingRoute a now q
     | Reply a ci c data \<Rightarrow> \<exists>r. rt_clientAddr r = c \<and> (Some r, q') = dequeuePendingRoute a now q"
  shows "routes_wf k q \<Longrightarrow> routes_wf k q'"
    "pendingFor q' b c + (case res of Reply a' _ c' _ \<Rightarrow> if b = a' \<and> c = c' then 1 else 0 | _ \<Rightarrow> 0) \<le> pendingFor q b c"
proof -
  have deq: "(routes_wf k q \<longrightarrow> routes_wf k q') \<and> pendingFor q' b c + (case r of None \<Rightarrow> 0
      | Some rt \<Rightarrow> if b = a \<and> rt_clientAddr rt = c then 1 else 0) \<le> pendingFor q b c"
    if "(r, q') = dequeuePendingRoute a now q" for r a
    using pendingFor_dequeue [OF sym [OF that]] by blast
  have "(routes_wf k q \<longrightarrow> routes_wf k q') \<and>
    pendingFor q' b c + (case res of Reply a' _ c' _ \<Rightarrow> if b = a' \<and> c = c' then 1 else 0 | _ \<Rightarrow> 0) \<le> pendingFor q b c"
    using assms deq by (cases res) fastforce+
  then show "routes_wf k q \<Longrightarrow> routes_wf k q'"
    "pendingFor q' b c + (case res of Reply a' _ c' _ \<Rightarrow> if b = a' \<and> c = c' then 1 else 0 | _ \<Rightarrow> 0) \<le> pendingFor q b c"
    by blast+
qed

lemma step_summary:
  assumes "sys_ok s" "sys_step s e t"
  obtains (shared) "sy_nodes t = sy_nodes s" "e = Internal" "ss_counters (sy_sh t) = ss_counters (sy_sh s)"
  | (quiet) i n' where "i < length (sy_nodes s)" "sy_nodes t = (sy_nodes s)[i := n']" "e = Internal"
      "queued n' = queued (sy_nodes s ! i)" "fe_routes (nd_fe n') = fe_routes (nd_fe (sy_nodes s ! i))"
      "ss_counters (sy_sh t) = ss_counters (sy_sh s)"
  | (read) i n' client payload where "i < length (sy_nodes s)" "sy_nodes t = (sy_nodes s)[i := n']"
      "e = Received i client payload" "fe_routes (nd_fe n') = fe_routes (nd_fe (sy_nodes s ! i))"
      "PacketsReceived (ss_counters (sy_sh t)) = PacketsReceived (ss_counters (sy_sh s)) + 1"
      "PacketsForwarded (ss_counters (sy_sh t)) = PacketsForwarded (ss_counters (sy_sh s))"
      "BytesOut (ss_counters (sy_sh t)) = BytesOut (ss_counters (sy_sh s))"
      "PacketsShaped (ss_counters (sy_sh t)) - PacketsDroppedRateLimit (ss_counters (sy_sh t)) =
         PacketsShaped (ss_counters (sy_sh s)) - PacketsDroppedRateLimit (ss_counters (sy_sh s))"
      "queued n' = queued (sy_nodes s ! i) \<and>
         PacketsDropped (ss_counters (sy_sh t)) = PacketsDropped (ss_counters (sy_sh s)) + 1 \<or>
       queued n' = queued (sy_nodes s ! i) @ [(client, payload)] \<and>
         PacketsDropped (ss_counters (sy_sh t)) = PacketsDropped (ss_counters (sy_sh s))"
  | (work) i n' p res where "i < length (sy_nodes s)" "sy_nodes t = (sy_nodes s)[i := n']" "e = workEvent i p res"
      "res \<noteq> Panicked" "queued (sy_nodes s ! i) \<noteq> []" "queued n' = tl (queued (sy_nodes s ! i))"
      "counted res (pk_n p) (ss_counters (sy_sh s)) (ss_counters (sy_sh t))"
      "\<And>a dst data. res = Sent a dst data \<Longrightarrow> hd (queued (sy_nodes s ! i)) = (pk_clientAddr p, data) \<and> length data = nat (pk_n p)"
      "0 \<le> pk_n p"
      "\<And>k b c. routes_wf k (fe_routes (nd_fe (sy_nodes s ! i))) \<Longrightarrow> Suc k < 2 ^ 64 \<Longrightarrow>
         (\<exists>k' \<le> Suc k. routes_wf k' (fe_routes (nd_fe n'))) \<and>
         pendingFor (fe_routes (nd_fe n')) b c \<le> pendingFor (fe_routes (nd_fe (sy_nodes s ! i))) b c +
           (case res of Sent a' _ _ \<Rightarrow> if b = a' \<and> c = pk_clientAddr p then 1 else 0 | _ \<Rightarrow> 0)"
  | (resp) i n' res where "i < length (sy_nodes s)" "sy_nodes t = (sy_nodes s)[i := n']" "e = responseEvent i res"
      "queued n' = queued (sy_nodes s ! i)"
      "ss_counters (sy_sh t) = (case res of NoPending _ \<Rightarrow> countDropped (ss_counters (sy_sh s)) | _ \<Rightarrow> ss_counters (sy_sh s))"
      "\<And>k. routes_wf k (fe_routes (nd_fe (sy_nodes s ! i))) \<Longrightarrow> routes_wf k (fe_routes (nd_fe n'))"
      "\<And>b c. pendingFor (fe_routes (nd_fe n')) b c +
         (case res of Reply a' _ c' _ \<Rightarrow> if b = a' \<and> c = c' then 1 else 0 | _ \<Rightarrow> 0) \<le>
         pendingFor (fe_routes (nd_fe (sy_nodes s ! i))) b c"
  | (drain) i n' where "i < length (sy_nodes s)" "sy_nodes t = (sy_nodes s)[i := n']"
      "e = Drained i (length (queued (sy_nodes s ! i)))" "queued n' = []"
      "fe_routes (nd_fe n') = fe_routes (nd_fe (sy_nodes s ! i))" "ss_counters (sy_sh t) = ss_counters (sy_sh s)"
  using assms(2)
proof cases
  case (step_get i n choice b f)
  have t: "sy_nodes t = (sy_nodes s)[i := \<lparr>nd_fe = f, nd_held = b # nd_held n\<rparr>]" by (simp add: step_get(2))
  show thesis
    by (rule quiet [OF step_get(3) t step_get(1)])
      (use getBuf_effect [OF sys_ok_node(1) [OF assms(1) step_get(3,4)] step_get(6)] step_get(2,4) in simp_all)
next
  case (step_read i n b ci client payload oob now tnow f sh)
  note r = read_effect [OF sys_ok_node(1) [OF assms(1) step_read(3,4)] step_read(5,6)]
  have t: "sy_nodes t = (sy_nodes s)[i := \<lparr>nd_fe = f, nd_held = remove1 b (nd_held n)\<rparr>]" by (simp add: step_read(2))
  show thesis by (rule read [OF step_read(3) t step_read(1)]) (use r step_read(2,4) in simp_all)
next
  case (step_readFailed i n b ci now tnow f sh)
  have f: "f = putBuf b (nd_fe n)" "sh = sy_sh s" using step_readFailed(6) by (simp_all add: readLoop_def)
  have t: "sy_nodes t = (sy_nodes s)[i := \<lparr>nd_fe = f, nd_held = remove1 b (nd_held n)\<rparr>]" by (simp add: step_readFailed(2))
  show thesis
    by (rule quiet [OF step_readFailed(3) t step_readFailed(1)])
      (use release_effect(2) [OF sys_ok_node(1) [OF assms(1) step_readFailed(3,4)] step_readFailed(5), of "fe_routes (nd_fe n)"]
         f step_readFailed(2,4) in simp_all)
next
  case (step_work i n p ps io res f sh)
  note n = sys_ok_node [OF assms(1) step_work(3,4)]
  note w = work_effect [OF n(1) step_work(5,6,7) pool_ok_fit(1) [OF n(2)]]
  have pn: "0 \<le> pk_n p" using n(1) step_work(5) by (auto simp: node_ok_def)
  have q: "queued n \<noteq> []" "tl (queued n) = queued \<lparr>nd_fe = f, nd_held = nd_held n\<rparr>" using w(2) by simp_all
  have t: "sy_nodes t = (sy_nodes s)[i := \<lparr>nd_fe = f, nd_held = nd_held n\<rparr>]" "sy_sh t = sh" by (simp_all add: step_work(2))
  show thesis
    by (rule work [OF step_work(3) t(1) step_work(1,7)], unfold step_work(4) [symmetric] t(2) node.simps)
      (fact q(1), rule q(2) [symmetric], rule w(6), erule w(7), rule pn, erule (1) w(8))
next
  case (step_respond i n b rd now res f sh)
  note r = respond_effect [OF sys_ok_node(1) [OF assms(1) step_respond(3,4)] step_respond(5,6)]
  have t: "sy_nodes t = (sy_nodes s)[i := \<lparr>nd_fe = f, nd_held = remove1 b (nd_held n)\<rparr>]" "sy_sh t = sh"
    by (simp_all add: step_respond(2))
  have c: "ss_counters sh = (case res of NoPending _ \<Rightarrow> countDropped (ss_counters (sy_sh s)) | _ \<Rightarrow> ss_counters (sy_sh s))"
    unfolding r(5) by (simp split: response.split)
  show thesis
    by (rule resp [OF step_respond(3) t(1) step_respond(1)], unfold step_respond(4) [symmetric] t(2) node.simps)
      (rule r(2), rule c, erule response_pending(1) [OF r(6)], rule response_pending(2) [OF r(6)])
next
  case (step_evict now)
  then show thesis by (intro shared) (simp_all add: evictSweep_frame)
next
  case (step_health j a h)
  then show thesis by (intro shared) (simp_all add: setHealth_def)
next
  case (step_stop i n)
  have t: "sy_nodes t = (sy_nodes s)[i := n\<lparr>nd_fe := Frontend_Stop (nd_fe n)\<rparr>]" by (simp add: step_stop(2))
  show thesis
    by (rule quiet [OF step_stop(3) t step_stop(1)])
      (use stop_drain_effect(2) [OF sys_ok_node(1) [OF assms(1) step_stop(3,4)]] step_stop(2,4) in \<open>simp_all add: Frontend_Stop_def\<close>)
next
  case (step_drain i n)
  have t: "sy_nodes t = (sy_nodes s)[i := n\<lparr>nd_fe := drainWorker (nd_fe n)\<rparr>]" by (simp add: step_drain(2))
  show thesis
    by (rule drain [OF step_drain(3) t])
      (use stop_drain_effect(4) [OF sys_ok_node(1) [OF assms(1) step_drain(3,4)]] step_drain(1,2,4) in
        \<open>simp_all add: drainWorker_def length_queued\<close>)
qed

section \<open>Runs from the start\<close>

definition fresh_node :: "node \<Rightarrow> bool" where
  "fresh_node n \<longleftrightarrow> nd_held n = [] \<and> fe_workCh (nd_fe n) = [] \<and> fe_free (nd_fe n) = [] \<and> fe_mem (nd_fe n) = [] \<and>
     fe_routes (nd_fe n) = noRoutes \<and> 0 \<le> fe_maxPacketSize (nd_fe n)"

definition sys_init :: "sys \<Rightarrow> bool" where
  "sys_init s \<longleftrightarrow> (\<forall>n \<in> set (sy_nodes s). fresh_node n \<and> fe_pool (nd_fe n) < length (ss_pools (sy_sh s))) \<and>
     (\<forall>p \<in> set (ss_pools (sy_sh s)). pool_ok p) \<and> ss_counters (sy_sh s) = zeroCounters"

lemma fresh_node_ok: "fresh_node n \<Longrightarrow> node_ok n"
  by (simp add: fresh_node_def node_ok_def owned_def bufs_sized_def)

lemma sys_init_ok: "sys_init s \<Longrightarrow> sys_ok s"
  by (auto simp: sys_init_def sys_ok_def fresh_node_ok)

lemmas run_ok = sysOk.run_keeps [OF _ sys_init_ok]

text \<open>C3: no worker panics.  In every state the proxy can reach from its start, whatever packets arrived
  and whichever servers went up and down, a forwarding worker that takes a packet does not
  panic.\<close>

theorem never_panics:
  assumes "sys_init s0" and "run_of sys_step s0 tr s" and "i < length (sy_nodes s)"
    and "fe_workCh (nd_fe (sy_nodes s ! i)) \<noteq> []"
  shows "fst (forwardWorker io (nd_fe (sy_nodes s ! i), sy_sh s)) \<noteq> Panicked"
proof -
  let ?f = "nd_fe (sy_nodes s ! i)"
  obtain p ps where w: "fe_workCh ?f = p # ps" using assms(4) by (cases "fe_workCh ?f") auto
  obtain res f' sh' where fw: "forwardWorker io (?f, sy_sh s) = (res, f', sh')" by (metis prod.collapse)
  obtain g where g: "forward io p (?f\<lparr>fe_workCh := ps\<rparr>, sy_sh s) = (res, g, sh')"
    by (rule forwardWorker_eq [OF w fw])
  have "pool_ok (poolOf ?f (sy_sh s))" by (rule sys_ok_node(2) [OF run_ok [OF assms(2,1)] assms(3) refl])
  then have "res \<noteq> Panicked" by (intro forward_no_panic [OF _ _ g]) (simp_all add: pool_ok_fit)
  then show ?thesis by (simp add: fw)
qed

text \<open>C6: every buffer has one owner.  In every reachable state the buffers held by blocked readers,
  by queued packets and by the pool are all different and all allocated, every queued packet
  lies inside its buffer, and the work queue is within its capacity.\<close>

theorem buffers_owned_once:
  assumes "sys_init s0" and "run_of sys_step s0 tr s" and "n \<in> set (sy_nodes s)"
  shows "distinct (nd_held n @ map pk_buf (fe_workCh (nd_fe n)) @ fe_free (nd_fe n)) \<and>
    (\<forall>b \<in> set (nd_held n @ map pk_buf (fe_workCh (nd_fe n)) @ fe_free (nd_fe n)). b < length (fe_mem (nd_fe n))) \<and>
    (\<forall>p \<in> set (fe_workCh (nd_fe n)). 0 \<le> pk_n p \<and> pk_n p < int (length (fe_mem (nd_fe n) ! pk_buf p))) \<and>
    length (fe_workCh (nd_fe n)) \<le> fe_workCap (nd_fe n)"
proof -
  have ok: "node_ok n" using run_ok [OF assms(2,1)] assms(3) by (simp add: sys_ok_def)
  have "pk_n p < int (length (fe_mem (nd_fe n) ! pk_buf p))" if p: "p \<in> set (fe_workCh (nd_fe n))" for p
  proof -
    have b: "pk_buf p < length (fe_mem (nd_fe n))" using ok p by (auto simp: node_ok_def owned_def)
    have "length (fe_mem (nd_fe n) ! pk_buf p) = nat (fe_maxPacketSize (nd_fe n) + 1)" "0 \<le> fe_maxPacketSize (nd_fe n)"
      using ok nth_mem [OF b] by (simp_all add: node_ok_def bufs_sized_def)
    moreover have "pk_n p \<le> fe_maxPacketSize (nd_fe n)" using ok p by (simp add: node_ok_def)
    ultimately show ?thesis by simp
  qed
  then show ?thesis using ok by (simp add: node_ok_def owned_def)
qed

section \<open>Datagrams on their way to the servers\<close>

fun inOf :: "nat \<Rightarrow> event \<Rightarrow> (addrport \<times> byte list) list" where
  "inOf i (Received j client payload) = (if j = i then [(client, payload)] else [])"
| "inOf i _ = []"

fun outOf :: "nat \<Rightarrow> event \<Rightarrow> (addrport \<times> byte list) list" where
  "outOf i (Forwarded j client a dst data) = (if j = i then [(client, data)] else [])"
| "outOf i _ = []"

lemma inOf_outOf_events [simp]:
  "inOf j (workEvent i p res) = []" "inOf j (responseEvent i rs) = []" "outOf j (responseEvent i rs) = []"
  "outOf j (workEvent i p res) = (case res of Sent a dst data \<Rightarrow> if i = j then [(pk_clientAddr p, data)] else [] | _ \<Rightarrow> [])"
  by (simp_all add: workEvent_def responseEvent_def split: fwdResult.split response.split)

definition unforged :: "event list \<Rightarrow> sys \<Rightarrow> bool" where
  "unforged tr s \<longleftrightarrow> sys_ok s \<and> (\<forall>i < length (sy_nodes s).
     mset (concat (map (outOf i) tr)) + mset (queued (sy_nodes s ! i)) \<subseteq># mset (concat (map (inOf i) tr)))"

lemma unforged_node:
  assumes "sys_ok s" "sys_step s e t" "j < length (sy_nodes s)"
  shows "mset (outOf j e) + mset (queued (sy_nodes t ! j)) \<subseteq># mset (queued (sy_nodes s ! j)) + mset (inOf j e)"
  using assms(1,2)
proof (cases rule: step_summary)
  case (work i n' p res)
  then have "queued (sy_nodes s ! i) = hd (queued (sy_nodes s ! i)) # queued n'" by simp
  then have "mset (queued (sy_nodes s ! i)) = {#hd (queued (sy_nodes s ! i))#} + mset (queued n')"
    by (metis add_mset_add_single mset.simps(2) union_commute)
  then show ?thesis using work(1,2,3,8) by (cases "i = j") (auto split: fwdResult.splits)
qed (use assms(3) in \<open>auto simp: nth_list_update\<close>)

interpretation unforged: traced sys_step unforged
proof
  fix tr s e t
  assume inv: "unforged tr s" and st: "sys_step s e t"
  have ok: "sys_ok s" using inv by (simp add: unforged_def)
  have len: "length (sy_nodes t) = length (sy_nodes s)" using ok st by (cases rule: step_summary) simp_all
  have "mset (concat (map (outOf j) (tr @ [e]))) + mset (queued (sy_nodes t ! j)) \<subseteq># mset (concat (map (inOf j) (tr @ [e])))"
    if j: "j < length (sy_nodes s)" for j
  proof -
    have "mset (concat (map (outOf j) tr)) + mset (queued (sy_nodes s ! j)) \<subseteq># mset (concat (map (inOf j) tr))"
      using inv j by (simp add: unforged_def)
    from subset_mset.add_mono [OF this unforged_node [OF ok st j]] show ?thesis
      by (simp add: ac_simps)
  qed
  then show "unforged (tr @ [e]) t" using sys_ok_step [OF ok st] by (simp add: unforged_def len)
qed

text \<open>C1: no datagram is invented, altered or duplicated.  Over any run, the datagrams a frontend sent
  to servers and those waiting in its work queue, each with its client, are among the datagrams
  it received from these clients, counted with their multiplicity.\<close>

theorem forwarded_were_received:
  assumes "sys_init s0" and "run_of sys_step s0 tr s" and "i < length (sy_nodes s)"
  shows "mset (concat (map (outOf i) tr)) + mset (queued (sy_nodes s ! i)) \<subseteq># mset (concat (map (inOf i) tr))"
proof -
  have "unforged [] s0" using assms(1) by (auto simp: unforged_def sys_init_ok sys_init_def fresh_node_def queued_def)
  then show ?thesis using unforged.run_keeps [OF assms(2)] assms(3) by (simp add: unforged_def)
qed

section \<open>Responses\<close>

definition repliesTo :: "nat \<Rightarrow> string \<Rightarrow> addrport \<Rightarrow> event list \<Rightarrow> nat" where
  "repliesTo i a c tr = length (filter (\<lambda>e. \<exists>data. e = Replied i a c data) tr)"

definition requestsOf :: "nat \<Rightarrow> string \<Rightarrow> addrport \<Rightarrow> event list \<Rightarrow> nat" where
  "requestsOf i a c tr = length (filter (\<lambda>e. \<exists>dst data. e = Forwarded i c a dst data) tr)"

definition answered :: "event list \<Rightarrow> sys \<Rightarrow> bool" where
  "answered tr s \<longleftrightarrow> sys_ok s \<and> (length tr < 2 ^ 64 \<longrightarrow> (\<forall>i < length (sy_nodes s).
     (\<exists>k \<le> length tr. routes_wf k (fe_routes (nd_fe (sy_nodes s ! i)))) \<and>
     (\<forall>a c. repliesTo i a c tr + pendingFor (fe_routes (nd_fe (sy_nodes s ! i))) a c \<le> requestsOf i a c tr)))"

lemma replies_requests_snoc:
  "repliesTo j a c (tr @ [e]) = repliesTo j a c tr + (if \<exists>data. e = Replied j a c data then 1 else 0)"
  "requestsOf j a c (tr @ [e]) = requestsOf j a c tr + (if \<exists>dst data. e = Forwarded j c a dst data then 1 else 0)"
  by (simp_all add: repliesTo_def requestsOf_def)

lemma replies_requests_events:
  "(\<exists>data. workEvent i p res = Replied j a c data) \<longleftrightarrow> False"
  "(\<exists>dst data. workEvent i p res = Forwarded j c a dst data) \<longleftrightarrow> i = j \<and> c = pk_clientAddr p \<and> (\<exists>dst data. res = Sent a dst data)"
  "(\<exists>data. responseEvent i rs = Replied j a c data) \<longleftrightarrow> i = j \<and> (\<exists>ci data. rs = Reply a ci c data)"
  "(\<exists>dst data. responseEvent i rs = Forwarded j c a dst data) \<longleftrightarrow> False"
  by (auto simp: workEvent_def responseEvent_def split: fwdResult.splits response.splits)

lemma answered_node:
  assumes "sys_ok s" "sys_step s e t" "j < length (sy_nodes s)"
    "routes_wf k (fe_routes (nd_fe (sy_nodes s ! j)))" "Suc k < 2 ^ 64"
  shows "(\<exists>k' \<le> Suc k. routes_wf k' (fe_routes (nd_fe (sy_nodes t ! j)))) \<and>
    pendingFor (fe_routes (nd_fe (sy_nodes t ! j))) a c + repliesTo j a c [e] \<le>
    pendingFor (fe_routes (nd_fe (sy_nodes s ! j))) a c + requestsOf j a c [e]"
proof -
  have one: "repliesTo j a c [x] = (if \<exists>data. x = Replied j a c data then 1 else 0)"
    "requestsOf j a c [x] = (if \<exists>dst data. x = Forwarded j c a dst data then 1 else 0)" for x
    by (simp_all add: repliesTo_def requestsOf_def)
  have k: "\<exists>k' \<le> Suc k. routes_wf k' (fe_routes (nd_fe (sy_nodes s ! j)))" using assms(4) by (intro exI [of _ k]) simp
  show ?thesis
    using assms(1,2)
  proof (cases rule: step_summary)
    case (work i n' p res)
    show ?thesis
    proof (cases "i = j")
      case True
      from work(10) [of k a c] show ?thesis
        using assms(4,5) work(1,2) True unfolding one work(3) replies_requests_events
        by (cases res) auto
    next
      case False
      then show ?thesis using k work(2) by (simp add: one work(3) replies_requests_events)
    qed
  next
    case (resp i n' res)
    show ?thesis
    proof (cases "i = j")
      case True
      from resp(7) [of a c] show ?thesis
        using assms(4) resp(1,2) resp(6) [of k] True unfolding one resp(3) replies_requests_events
        by (cases res) (auto intro: exI [of _ k])
    next
      case False
      then show ?thesis using k resp(2) by (simp add: one resp(3) replies_requests_events)
    qed
  qed (use k assms(3) in \<open>auto simp: one nth_list_update\<close>)
qed

interpretation answered: traced sys_step answered
proof
  fix tr s e t
  assume inv: "answered tr s" and st: "sys_step s e t"
  have ok: "sys_ok s" using inv by (simp add: answered_def)
  have len: "length (sy_nodes t) = length (sy_nodes s)" using ok st by (cases rule: step_summary) simp_all
  have "(\<exists>k \<le> length (tr @ [e]). routes_wf k (fe_routes (nd_fe (sy_nodes t ! j)))) \<and>
      repliesTo j a c (tr @ [e]) + pendingFor (fe_routes (nd_fe (sy_nodes t ! j))) a c \<le> requestsOf j a c (tr @ [e])"
    if l: "length (tr @ [e]) < 2 ^ 64" and j: "j < length (sy_nodes s)" for j a c
  proof -
    obtain k where k: "k \<le> length tr" "routes_wf k (fe_routes (nd_fe (sy_nodes s ! j)))"
      and le: "repliesTo j a c tr + pendingFor (fe_routes (nd_fe (sy_nodes s ! j))) a c \<le> requestsOf j a c tr"
      using inv l j by (auto simp: answered_def)
    have "Suc k < 2 ^ 64" using k(1) l by simp
    from answered_node [OF ok st j k(2) this, of a c] le k(1) show ?thesis
      unfolding replies_requests_snoc by (auto simp: repliesTo_def requestsOf_def intro: le_trans split: if_splits)
  qed
  then show "answered (tr @ [e]) t" using sys_ok_step [OF ok st] unfolding answered_def len by blast
qed

text \<open>Responses only for requests, when the iterations of the goroutines do not overlap: over any run of fewer
  than \<open>2^64\<close> steps, the number of responses a client got through a frontend from a server, plus
  those it still waits for, never exceeds the number of its datagrams forwarded to that server.
  The theory \<open>Overlap\<close> has the bound for overlapping iterations.\<close>

theorem replies_bounded:
  assumes "sys_init s0" and "run_of sys_step s0 tr s" and "length tr < 2 ^ 64" and "i < length (sy_nodes s)"
  shows "repliesTo i a c tr + pendingFor (fe_routes (nd_fe (sy_nodes s ! i))) a c \<le> requestsOf i a c tr"
proof -
  have "answered [] s0"
    unfolding answered_def
  proof (intro conjI impI allI)
    fix j
    assume "j < length (sy_nodes s0)"
    then have "fe_routes (nd_fe (sy_nodes s0 ! j)) = noRoutes" using assms(1) by (simp add: sys_init_def fresh_node_def)
    then show "\<exists>k \<le> length []. routes_wf k (fe_routes (nd_fe (sy_nodes s0 ! j)))"
      "repliesTo j a' c' [] + pendingFor (fe_routes (nd_fe (sy_nodes s0 ! j))) a' c' \<le> requestsOf j a' c' []" for a' c'
      using noRoutes_wf by (simp_all add: repliesTo_def pendingFor_def noRoutes_def queueOf_def)
  qed (rule sys_init_ok [OF assms(1)])
  then show ?thesis using answered.run_keeps [OF assms(2)] assms(3,4) by (simp add: answered_def)
qed

section \<open>The counters\<close>

definition countEvents :: "(event \<Rightarrow> nat) \<Rightarrow> event list \<Rightarrow> nat" where
  "countEvents w tr = sum_list (map w tr)"

fun isReceived :: "event \<Rightarrow> nat" where
  "isReceived (Received _ _ _) = 1" | "isReceived _ = 0"

fun isForwarded :: "event \<Rightarrow> nat" where
  "isForwarded (Forwarded _ _ _ _ _) = 1" | "isForwarded _ = 0"

fun bytesForwarded :: "event \<Rightarrow> nat" where
  "bytesForwarded (Forwarded _ _ _ _ data) = length data" | "bytesForwarded _ = 0"

fun isOrphan :: "event \<Rightarrow> nat" where
  "isOrphan (Orphan _) = 1" | "isOrphan _ = 0"

fun drainedBy :: "event \<Rightarrow> nat" where
  "drainedBy (Drained _ k) = k" | "drainedBy _ = 0"

definition waiting :: "sys \<Rightarrow> nat" where
  "waiting s = (\<Sum>n \<leftarrow> sy_nodes s. length (queued n))"

lemma sum_list_exchange:
  fixes g :: "'a \<Rightarrow> nat"
  shows "i < length xs \<Longrightarrow> (\<Sum>x \<leftarrow> xs[i := y]. g x) + g (xs ! i) = (\<Sum>x \<leftarrow> xs. g x) + g y"
  by (induction xs arbitrary: i) (auto split: nat.splits)

lemma event_counts [simp]:
  "isReceived (workEvent i p res) = 0" "isOrphan (workEvent i p res) = 0" "drainedBy (workEvent i p res) = 0"
  "isForwarded (workEvent i p res) = (case res of Sent _ _ _ \<Rightarrow> 1 | _ \<Rightarrow> 0)"
  "bytesForwarded (workEvent i p res) = (case res of Sent _ _ data \<Rightarrow> length data | _ \<Rightarrow> 0)"
  "isReceived (responseEvent i rs) = 0" "isForwarded (responseEvent i rs) = 0" "bytesForwarded (responseEvent i rs) = 0"
  "drainedBy (responseEvent i rs) = 0" "isOrphan (responseEvent i rs) = (case rs of NoPending _ \<Rightarrow> 1 | _ \<Rightarrow> 0)"
  by (simp_all add: workEvent_def responseEvent_def split: fwdResult.split response.split)

text \<open>What one step adds to the counters, and its balance of drops against queued packets.\<close>

lemma counters_step:
  assumes "sys_ok s" "sys_step s e t"
  defines "c \<equiv> ss_counters (sy_sh s)" and "c' \<equiv> ss_counters (sy_sh t)"
  shows "PacketsReceived c' = PacketsReceived c + of_nat (isReceived e)"
    "PacketsForwarded c' = PacketsForwarded c + of_nat (isForwarded e)"
    "BytesOut c' = BytesOut c + of_nat (bytesForwarded e)"
    "PacketsShaped c' - PacketsDroppedRateLimit c' = PacketsShaped c - PacketsDroppedRateLimit c"
    "PacketsDropped c' + of_nat (waiting t + isForwarded e + drainedBy e) =
       PacketsDropped c + of_nat (waiting s + isReceived e + isOrphan e)"
proof -
  have upd: "waiting t + length (queued (sy_nodes s ! i)) = waiting s + length (queued n')"
    if "i < length (sy_nodes s)" "sy_nodes t = (sy_nodes s)[i := n']" for i n'
    using sum_list_exchange [OF that(1), of "\<lambda>n. length (queued n)"] that(2) by (simp add: waiting_def)
  have "PacketsReceived c' = PacketsReceived c + of_nat (isReceived e) \<and>
    PacketsForwarded c' = PacketsForwarded c + of_nat (isForwarded e) \<and>
    BytesOut c' = BytesOut c + of_nat (bytesForwarded e) \<and>
    PacketsShaped c' - PacketsDroppedRateLimit c' = PacketsShaped c - PacketsDroppedRateLimit c \<and>
    PacketsDropped c' + of_nat (waiting t + isForwarded e + drainedBy e) =
       PacketsDropped c + of_nat (waiting s + isReceived e + isOrphan e)"
    using assms(1,2)
  proof (cases rule: step_summary)
    case shared
    then show ?thesis by (simp add: c_def c'_def waiting_def)
  next
    case (quiet i n')
    then show ?thesis using upd [OF quiet(1,2)] by (simp add: c_def c'_def)
  next
    case (read i n' client payload)
    then show ?thesis using upd [OF read(1,2)] by (auto simp: c_def c'_def)
  next
    case (work i n' p res)
    have w: "waiting s = Suc (waiting t)" using upd [OF work(1,2)] work(5,6) by (cases "queued (sy_nodes s ! i)") auto
    have len: "length data = nat (pk_n p)" if "res = Sent a dst data" for a dst data using work(8) [OF that] by simp
    show ?thesis
    proof (cases res)
      case (Sent a dst data)
      have "word_of_int (pk_n p) = (of_nat (length data) :: 64 word)" using len [OF Sent] work(9) by simp
      then show ?thesis using work(7) by (simp add: Sent work(3) w c_def c'_def counted_def countForwarded_def)
    qed (use work(4,7) in \<open>auto simp: work(3) w c_def c'_def counted_def count_defs\<close>)
  next
    case (resp i n' res)
    then show ?thesis using upd [OF resp(1,2)]
      by (simp add: c_def c'_def countDropped_def split: response.split)
  next
    case (drain i n')
    then show ?thesis using upd [OF drain(1,2)] by (simp add: c_def c'_def flip: of_nat_add)
  qed
  then show "PacketsReceived c' = PacketsReceived c + of_nat (isReceived e)"
    "PacketsForwarded c' = PacketsForwarded c + of_nat (isForwarded e)"
    "BytesOut c' = BytesOut c + of_nat (bytesForwarded e)"
    "PacketsShaped c' - PacketsDroppedRateLimit c' = PacketsShaped c - PacketsDroppedRateLimit c"
    "PacketsDropped c' + of_nat (waiting t + isForwarded e + drainedBy e) =
       PacketsDropped c + of_nat (waiting s + isReceived e + isOrphan e)" by blast+
qed

definition balanced :: "event list \<Rightarrow> sys \<Rightarrow> bool" where
  "balanced tr s \<longleftrightarrow> sys_ok s \<and> (let c = ss_counters (sy_sh s) in
     PacketsReceived c = of_nat (countEvents isReceived tr) \<and> PacketsForwarded c = of_nat (countEvents isForwarded tr) \<and>
     BytesOut c = of_nat (countEvents bytesForwarded tr) \<and> PacketsShaped c = PacketsDroppedRateLimit c \<and>
     PacketsDropped c + of_nat (waiting s + countEvents isForwarded tr + countEvents drainedBy tr) =
       of_nat (countEvents isReceived tr + countEvents isOrphan tr))"

interpretation balanced: traced sys_step balanced
proof
  fix tr s e t
  assume inv: "balanced tr s" and st: "sys_step s e t"
  have ok: "sys_ok s" using inv by (simp add: balanced_def Let_def)
  note c = counters_step [OF ok st]
  let ?d = "\<lambda>s. PacketsDropped (ss_counters (sy_sh s))" and ?n = "\<lambda>w. countEvents w tr"
  have "?d t + of_nat (waiting t + (?n isForwarded + isForwarded e) + (?n drainedBy + drainedBy e)) =
      (?d t + of_nat (waiting t + isForwarded e + drainedBy e)) + of_nat (?n isForwarded + ?n drainedBy)"
    by (simp add: ac_simps)
  also have "\<dots> = (?d s + of_nat (waiting s + ?n isForwarded + ?n drainedBy)) + of_nat (isReceived e + isOrphan e)"
    unfolding c(5) by (simp add: ac_simps)
  also have "?d s + of_nat (waiting s + ?n isForwarded + ?n drainedBy) = of_nat (?n isReceived + ?n isOrphan)"
    using inv unfolding balanced_def Let_def by blast
  finally have drop: "?d t + of_nat (waiting t + (?n isForwarded + isForwarded e) + (?n drainedBy + drainedBy e)) =
      of_nat ((?n isReceived + isReceived e) + (?n isOrphan + isOrphan e))"
    by (simp only: of_nat_add ac_simps)
  have snoc: "countEvents w (tr @ [e]) = ?n w + w e" for w by (simp add: countEvents_def)
  show "balanced (tr @ [e]) t"
    unfolding balanced_def Let_def snoc
    using inv sys_ok_step [OF ok st] c(1-4) drop by (simp only: balanced_def Let_def of_nat_add simp_thms) simp
qed

lemma balanced_init:
  assumes "sys_init s"
  shows "balanced [] s"
proof -
  have "queued n = []" if "n \<in> set (sy_nodes s)" for n
    using assms that by (simp add: sys_init_def fresh_node_def queued_def)
  then have "waiting s = 0" by (simp add: waiting_def)
  then show ?thesis
    using sys_init_ok [OF assms] assms by (simp add: balanced_def sys_init_def zeroCounters_def countEvents_def)
qed

text \<open>The bytes read: a datagram longer than the frontend's buffers is cut to their size.\<close>

definition bufSize :: "sys \<Rightarrow> nat \<Rightarrow> nat" where
  "bufSize s i = nat (fe_maxPacketSize (nd_fe (sy_nodes s ! i)) + 1)"

fun bytesReceived :: "(nat \<Rightarrow> nat) \<Rightarrow> event \<Rightarrow> nat" where
  "bytesReceived sz (Received i _ payload) = min (length payload) (sz i)" | "bytesReceived sz _ = 0"

lemma bufSize_putNode:
  assumes "i < length (sy_nodes s)" "fe_maxPacketSize (nd_fe n') = fe_maxPacketSize (nd_fe (sy_nodes s ! i))"
  shows "bufSize (putNode i n' sh s) = bufSize s"
proof
  show "bufSize (putNode i n' sh s) j = bufSize s j" for j
    using assms by (cases "i = j") (simp_all add: bufSize_def)
qed

lemma bytesReceived_other [simp]:
  "bytesReceived sz (workEvent i p res) = 0" "bytesReceived sz (responseEvent i rs) = 0"
  by (simp_all add: workEvent_def responseEvent_def split: fwdResult.split response.split)

lemma handlers_maxPacketSize:
  "getBuf choice f = (b, f') \<Longrightarrow> fe_maxPacketSize f' = fe_maxPacketSize f"
  "backendReadLoop b rd now (f, sh) = (rs, f', sh') \<Longrightarrow> fe_maxPacketSize f' = fe_maxPacketSize f"
  "pool_wf (poolOf f sh) \<Longrightarrow> fe_workCh f = p # ps \<Longrightarrow> forwardWorker io (f, sh) = (res, f', sh') \<Longrightarrow>
     fe_maxPacketSize f' = fe_maxPacketSize f"
proof -
  show "getBuf choice f = (b, f') \<Longrightarrow> fe_maxPacketSize f' = fe_maxPacketSize f"
    by (auto simp: getBuf_def split: option.splits if_splits)
  show "backendReadLoop b rd now (f, sh) = (rs, f', sh') \<Longrightarrow> fe_maxPacketSize f' = fe_maxPacketSize f"
    by (auto simp: backendReadLoop_def respond_def fillBuf_def Let_def split: readResult.splits option.splits prod.splits)
  assume wf: "pool_wf (poolOf f sh)" and q: "fe_workCh f = p # ps" "forwardWorker io (f, sh) = (res, f', sh')"
  obtain g where g: "forward io p (f\<lparr>fe_workCh := ps\<rparr>, sh) = (res, g, sh')" "f' = putBuf (pk_buf p) g"
    by (rule forwardWorker_eq [OF q])
  have "pool_wf (poolOf (f\<lparr>fe_workCh := ps\<rparr>) sh)" using wf by simp
  from this g(1) have "fe_maxPacketSize g = fe_maxPacketSize f"
    by (cases rule: forward_cases) (auto dest: dispatch_effect(4))
  then show "fe_maxPacketSize f' = fe_maxPacketSize f" using g(2) by simp
qed

lemma readLoop_bytes:
  assumes "node_ok n" "b \<in> set (nd_held n)"
    "readLoop ci b (Datagram client payload oob) now tnow (nd_fe n, sh) = (f', sh')"
  shows "fe_maxPacketSize f' = fe_maxPacketSize (nd_fe n)"
    "BytesIn (ss_counters sh') = BytesIn (ss_counters sh) + of_nat (min (length payload) (nat (fe_maxPacketSize (nd_fe n) + 1)))"
proof -
  obtain k f where fill: "fillBuf b payload (nd_fe n) = (k, f)" by fastforce
  have sized: "bufs_sized (nd_fe n)" using assms(1) by (simp add: node_ok_def)
  note fb = fillBuf_effect [OF sized held_facts(1) [OF assms(1,2)] fill]
  have k: "k = int (min (length payload) (nat (fe_maxPacketSize (nd_fe n) + 1)))"
    using fb(1,5) by linarith
  have f: "fe_maxPacketSize f = fe_maxPacketSize (nd_fe n)" by (simp add: fb(2))
  have adm: "admit ci b client k (take 128 oob) now tnow (f, count (countReceived k) sh) = (f', sh')"
    using assms(3) by (simp add: readLoop_def fill)
  have "fe_maxPacketSize f' = fe_maxPacketSize f \<and> BytesIn (ss_counters sh') = BytesIn (ss_counters sh) + word_of_int k"
    using adm
  proof (cases rule: admit_cases)
    case (drop f1 s1 c)
    then show ?thesis using same_but_limits_simps [OF drop(1)] dropCounts_effect(4) [OF drop(2)] by (simp add: countReceived_def)
  next
    case (queue f1)
    then show ?thesis using same_but_limits_simps [OF queue(1)] by (simp add: countReceived_def)
  qed
  then show "fe_maxPacketSize f' = fe_maxPacketSize (nd_fe n)"
    "BytesIn (ss_counters sh') = BytesIn (ss_counters sh) + of_nat (min (length payload) (nat (fe_maxPacketSize (nd_fe n) + 1)))"
    by (simp_all add: f k)
qed

lemma bytesIn_step:
  assumes "sys_ok s" "sys_step s e t"
  shows "bufSize t = bufSize s"
    "BytesIn (ss_counters (sy_sh t)) = BytesIn (ss_counters (sy_sh s)) + of_nat (bytesReceived (bufSize s) e)"
proof -
  have "bufSize t = bufSize s \<and>
    BytesIn (ss_counters (sy_sh t)) = BytesIn (ss_counters (sy_sh s)) + of_nat (bytesReceived (bufSize s) e)"
    using assms(2)
  proof cases
    case (step_get i n choice b f)
    then show ?thesis using handlers_maxPacketSize(1) [OF step_get(6)] by (simp add: bufSize_putNode)
  next
    case (step_read i n b ci client payload oob now tnow f sh)
    note r = readLoop_bytes [OF sys_ok_node(1) [OF assms(1) step_read(3,4)] step_read(5,6)]
    show ?thesis unfolding step_read(1,2) using r step_read(3,4) by (simp add: bufSize_putNode) (simp add: bufSize_def)
  next
    case (step_readFailed i n b ci now tnow f sh)
    then show ?thesis by (auto simp: readLoop_def bufSize_putNode)
  next
    case (step_work i n p ps io res f sh)
    note nd = sys_ok_node [OF assms(1) step_work(3,4)]
    note w = work_effect(6) [OF nd(1) step_work(5,6,7) pool_ok_fit(1) [OF nd(2)]]
    have "bufSize (putNode i \<lparr>nd_fe = f, nd_held = nd_held n\<rparr> sh s) = bufSize s"
      by (rule bufSize_putNode [OF step_work(3)])
        (use handlers_maxPacketSize(3) [OF pool_ok_fit(1) [OF nd(2)] step_work(5,6)] step_work(4) in simp)
    then show ?thesis using w unfolding step_work(1,2) by (auto simp: counted_def count_defs split: if_splits)
  next
    case (step_respond i n b rd now res f sh)
    note r = respond_effect(5) [OF sys_ok_node(1) [OF assms(1) step_respond(3,4)] step_respond(5,6)]
    have "bufSize (putNode i \<lparr>nd_fe = f, nd_held = remove1 b (nd_held n)\<rparr> sh s) = bufSize s"
      by (rule bufSize_putNode [OF step_respond(3)]) (use handlers_maxPacketSize(2) [OF step_respond(6)] step_respond(4) in simp)
    then show ?thesis using r unfolding step_respond(1,2) by (simp add: countDropped_def split: response.splits)
  next
    case (step_evict now)
    then show ?thesis by (simp add: evictSweep_frame bufSize_def fun_eq_iff)
  next
    case (step_health j a h)
    then show ?thesis by (simp add: setHealth_def bufSize_def fun_eq_iff)
  next
    case (step_stop i n)
    then show ?thesis by (simp add: bufSize_putNode Frontend_Stop_def)
  next
    case (step_drain i n)
    then show ?thesis by (simp add: bufSize_putNode drainWorker_def)
  qed
  then show "bufSize t = bufSize s"
    "BytesIn (ss_counters (sy_sh t)) = BytesIn (ss_counters (sy_sh s)) + of_nat (bytesReceived (bufSize s) e)" by blast+
qed

definition metered :: "event list \<Rightarrow> sys \<Rightarrow> bool" where
  "metered tr s \<longleftrightarrow> sys_ok s \<and> BytesIn (ss_counters (sy_sh s)) = of_nat (countEvents (bytesReceived (bufSize s)) tr)"

interpretation metered: traced sys_step metered
  by unfold_locales (auto simp: metered_def countEvents_def bytesIn_step intro: sys_ok_step)

text \<open>C4: the counters account for every datagram.  Over any run, the counters of received and forwarded
  datagrams and of the bytes in and out are what the sockets saw (a datagram longer than the
  frontend's buffers counts with their size), every rate-limit drop is counted as shaped, and
  the drop counter makes up the difference: received datagrams and responses nobody waits for
  are forwarded, dropped, still queued, or discarded without being counted when a stopped
  frontend drains its queue (all modulo \<open>2^64\<close>, as the counters wrap).\<close>

theorem packets_conserved:
  assumes "sys_init s0" and "run_of sys_step s0 tr s"
  defines "c \<equiv> ss_counters (sy_sh s)"
  shows "PacketsReceived c = of_nat (countEvents isReceived tr) \<and> PacketsForwarded c = of_nat (countEvents isForwarded tr) \<and>
    BytesIn c = of_nat (countEvents (bytesReceived (bufSize s)) tr) \<and>
    BytesOut c = of_nat (countEvents bytesForwarded tr) \<and> PacketsShaped c = PacketsDroppedRateLimit c \<and>
    PacketsReceived c + of_nat (countEvents isOrphan tr) =
      PacketsForwarded c + PacketsDropped c + of_nat (waiting s) + of_nat (countEvents drainedBy tr)"
proof -
  have "metered [] s0" using sys_init_ok [OF assms(1)] assms(1) by (simp add: metered_def sys_init_def zeroCounters_def countEvents_def)
  then show ?thesis
    using metered.run_keeps [OF assms(2)] balanced.run_keeps [OF assms(2) balanced_init [OF assms(1)]]
    by (simp add: balanced_def metered_def Let_def c_def algebra_simps)
qed

section \<open>Shutdown\<close>

definition all_stopped :: "sys \<Rightarrow> bool" where
  "all_stopped s \<longleftrightarrow> (\<forall>n \<in> set (sy_nodes s). fe_stopped (nd_fe n))"

text \<open>A step of a frontend's goroutines that does something.\<close>

definition active_step :: "sys \<Rightarrow> sys \<Rightarrow> bool" where
  "active_step s t \<longleftrightarrow> (\<exists>e. sys_step s e t \<and> sy_nodes t \<noteq> sy_nodes s)"

definition work_left :: "sys \<Rightarrow> nat" where
  "work_left s = (\<Sum>n \<leftarrow> sy_nodes s. 2 * length (nd_held n) + length (queued n))"

lemma fillBuf_stopped: "fillBuf b payload f = (k, f') \<Longrightarrow> fe_stopped f' = fe_stopped f"
  by (auto simp: fillBuf_def Let_def)

lemma readLoop_stopped:
  assumes "readLoop ci b rd now tnow (f, sh) = (f', sh')"
  shows "fe_stopped f' = fe_stopped f"
proof (cases rd)
  case (Datagram client payload oob)
  obtain k g where fill: "fillBuf b payload f = (k, g)" by fastforce
  have "admit ci b client k (take 128 oob) now tnow (g, count (countReceived k) sh) = (f', sh')"
    using assms by (simp add: readLoop_def Datagram fill)
  then have "fe_stopped f' = fe_stopped g"
    by (cases rule: admit_cases) (auto dest: same_but_limits_simps(10))
  then show ?thesis using fillBuf_stopped [OF fill] by simp
qed (use assms in \<open>auto simp: readLoop_def\<close>)

lemma backendReadLoop_stopped:
  assumes "backendReadLoop b rd now (f, sh) = (res, f', sh')"
  shows "fe_stopped f' = fe_stopped f"
proof (cases rd)
  case (Datagram src payload oob)
  obtain k g where fill: "fillBuf b payload f = (k, g)" by fastforce
  have "respond b src k now (g, sh) = (res, f', sh')" using assms by (simp add: backendReadLoop_def Datagram fill)
  then have "fe_stopped f' = fe_stopped g" by (auto simp: respond_def Let_def split: option.splits prod.splits)
  then show ?thesis using fillBuf_stopped [OF fill] by simp
qed (use assms in \<open>auto simp: backendReadLoop_def\<close>)

lemma all_stopped_putNode:
  "all_stopped s \<Longrightarrow> fe_stopped (nd_fe n') \<Longrightarrow> all_stopped (putNode i n' sh s)"
  using set_update_subset_insert [of "sy_nodes s" i n'] by (auto simp: all_stopped_def)

lemma work_left_putNode:
  assumes "i < length (sy_nodes s)"
    "2 * length (nd_held n') + length (queued n') < 2 * length (nd_held (sy_nodes s ! i)) + length (queued (sy_nodes s ! i))"
  shows "work_left (putNode i n' sh s) < work_left s"
  using sum_list_exchange [OF assms(1), of "\<lambda>n. 2 * length (nd_held n) + length (queued n)" n'] assms(2)
  by (simp add: work_left_def)

lemma active_step_stopped:
  assumes "sys_ok s" "all_stopped s" "active_step s t"
  shows "all_stopped t \<and> work_left t < work_left s"
proof -
  obtain e where st: "sys_step s e t" and ne: "sy_nodes t \<noteq> sy_nodes s" using assms(3) by (auto simp: active_step_def)
  have stopped: "fe_stopped (nd_fe n)" if "i < length (sy_nodes s)" "n = sy_nodes s ! i" for i n
    using assms(2) that by (simp add: all_stopped_def)
  have held: "Suc (length (remove1 b (nd_held n))) = length (nd_held n)" if "b \<in> set (nd_held n)" for b and n :: node
    using that length_pos_if_in_set [OF that] by (simp add: length_remove1)
  from st show ?thesis
  proof cases
    case (step_get i n choice b f)
    then show ?thesis using stopped by blast
  next
    case (step_read i n b ci client payload oob now tnow f sh)
    note r = read_effect(11) [OF sys_ok_node(1) [OF assms(1) step_read(3,4)] step_read(5,6)]
    have "all_stopped t" unfolding step_read(2)
      using stopped [OF step_read(3,4)] readLoop_stopped [OF step_read(6)] by (intro all_stopped_putNode [OF assms(2)]) simp
    moreover have "work_left t < work_left s" unfolding step_read(2)
      by (rule work_left_putNode [OF step_read(3)]) (use r held [OF step_read(5)] step_read(4) in auto)
    ultimately show ?thesis by blast
  next
    case (step_readFailed i n b ci now tnow f sh)
    have f: "f = putBuf b (nd_fe n)" using step_readFailed(6) by (simp add: readLoop_def)
    have "all_stopped t" unfolding step_readFailed(2)
      using stopped [OF step_readFailed(3,4)] by (intro all_stopped_putNode [OF assms(2)]) (simp add: f)
    moreover have "work_left t < work_left s" unfolding step_readFailed(2)
      by (rule work_left_putNode [OF step_readFailed(3)]) (use held [OF step_readFailed(5)] step_readFailed(4) in \<open>auto simp: f queued_def\<close>)
    ultimately show ?thesis by blast
  next
    case (step_work i n p ps io res f sh)
    note n = sys_ok_node [OF assms(1) step_work(3,4)]
    note w = work_effect(2) [OF n(1) step_work(5,6,7) pool_ok_fit(1) [OF n(2)]]
    obtain g where g: "forward io p ((nd_fe n)\<lparr>fe_workCh := ps\<rparr>, sy_sh s) = (res, g, sh)" "f = putBuf (pk_buf p) g"
      by (rule forwardWorker_eq [OF step_work(5,6)])
    have "pool_wf (poolOf ((nd_fe n)\<lparr>fe_workCh := ps\<rparr>) (sy_sh s))" using pool_ok_fit(1) [OF n(2)] by simp
    from forward_routes(1) [OF this g(1) step_work(7)] have "fe_stopped f = fe_stopped (nd_fe n)" by (auto simp: g(2))
    then have "all_stopped t" unfolding step_work(2)
      using stopped [OF step_work(3,4)] by (intro all_stopped_putNode [OF assms(2)]) simp
    moreover have "work_left t < work_left s" unfolding step_work(2)
      by (rule work_left_putNode [OF step_work(3)]) (use w step_work(4) in auto)
    ultimately show ?thesis by blast
  next
    case (step_respond i n b rd now res f sh)
    note r = respond_effect(2) [OF sys_ok_node(1) [OF assms(1) step_respond(3,4)] step_respond(5,6)]
    have "all_stopped t" unfolding step_respond(2)
      using stopped [OF step_respond(3,4)] backendReadLoop_stopped [OF step_respond(6)] by (intro all_stopped_putNode [OF assms(2)]) simp
    moreover have "work_left t < work_left s" unfolding step_respond(2)
      by (rule work_left_putNode [OF step_respond(3)]) (use r held [OF step_respond(5)] step_respond(4) in auto)
    ultimately show ?thesis by blast
  next
    case (step_stop i n)
    have "n\<lparr>nd_fe := Frontend_Stop (nd_fe n)\<rparr> = n" using stopped [OF step_stop(3,4)] by (simp add: Frontend_Stop_def)
    then show ?thesis using ne step_stop by simp
  next
    case (step_drain i n)
    have "queued n \<noteq> []"
    proof
      assume "queued n = []"
      then have "n\<lparr>nd_fe := drainWorker (nd_fe n)\<rparr> = n" by (simp add: queued_def drainWorker_def)
      then show False using ne step_drain by simp
    qed
    moreover have "queued (n\<lparr>nd_fe := drainWorker (nd_fe n)\<rparr>) = []" by (simp add: queued_def drainWorker_def)
    ultimately have "work_left t < work_left s" unfolding step_drain(2)
      by (intro work_left_putNode [OF step_drain(3)]) (use step_drain(4) in auto)
    moreover have "all_stopped t" unfolding step_drain(2)
      using step_drain(5) by (intro all_stopped_putNode [OF assms(2)]) (simp add: drainWorker_def)
    ultimately show ?thesis by blast
  qed (use ne in simp_all)
qed

text \<open>C11: shutdown ends.  Once every frontend is stopped, its goroutines make only finitely many more
  iterations: at most two for every buffer a reader is blocked on and one for every queued
  packet, so that \<^verbatim>\<open>Stop\<close> returns when the closed sockets have woken the readers.\<close>

theorem shutdown_terminates:
  assumes "sys_init s0" and "run_of sys_step s0 tr s" and "all_stopped s" and "(active_step ^^ k) s t"
  shows "k \<le> (\<Sum>n \<leftarrow> sy_nodes s. 2 * length (nd_held n) + length (fe_workCh (nd_fe n)))"
proof -
  have "k \<le> work_left s" if "sys_ok s" "all_stopped s" "(active_step ^^ k) s t" for s
    using that
  proof (induction k arbitrary: s)
    case (Suc k)
    obtain u where u: "active_step s u" "(active_step ^^ k) u t" using relpowp_Suc_D2 [OF Suc.prems(3)] by blast
    have "sys_ok u" using u(1) sys_ok_step [OF Suc.prems(1)] by (auto simp: active_step_def)
    then show ?case using Suc.IH [OF _ _ u(2)] active_step_stopped [OF Suc.prems(1,2) u(1)] by simp
  qed simp
  from this [OF run_ok [OF assms(2,1)] assms(3,4)] show ?thesis by (simp add: work_left_def length_queued)
qed

section \<open>A concrete run\<close>

definition test_sys :: sys where
  "test_sys = \<lparr>sy_nodes = [\<lparr>nd_fe = test_frontend\<lparr>fe_mem := []\<rparr>, nd_held = []\<rparr>], sy_sh = test_shared\<rparr>"

definition test_sys1 :: sys where
  "test_sys1 = putNode 0 \<lparr>nd_fe = test_frontend, nd_held = [0]\<rparr> test_shared test_sys"

definition test_sys2 :: sys where
  "test_sys2 = (let r = readLoop 0 0 (Datagram test_client [1, 2, 3] []) (test_time 0) (test_time 0) (test_frontend, test_shared)
     in putNode 0 \<lparr>nd_fe = fst r, nd_held = []\<rparr> (snd r) test_sys1)"

definition test_events :: "event list" where
  "test_events = [Internal, Received 0 test_client [1, 2, 3]]"

lemma test_init: "sys_init test_sys"
proof -
  have "pool_ok (test_pool ''hash'')" using test_pool_wf by (simp add: pool_ok_def test_pool_defs weights_total_def)
  then show ?thesis
    by (simp add: sys_init_def test_sys_def test_shared_def fresh_node_def test_frontend_def Frontend_New_def)
qed

lemma test_sys_run: "run_of sys_step test_sys test_events test_sys2"
proof -
  let ?r = "readLoop 0 0 (Datagram test_client [1, 2, 3] []) (test_time 0) (test_time 0) (test_frontend, test_shared)"
  have n0: "sy_nodes test_sys ! 0 = \<lparr>nd_fe = test_frontend\<lparr>fe_mem := []\<rparr>, nd_held = []\<rparr>" "sy_sh test_sys = test_shared"
    by (simp_all add: test_sys_def)
  have "getBuf None (test_frontend\<lparr>fe_mem := []\<rparr>) = (0, test_frontend)"
    by (simp add: getBuf_def test_frontend_def Frontend_New_def eval_nat_numeral)
  then have "sys_step test_sys Internal test_sys1"
    using step_get [of 0 test_sys "sy_nodes test_sys ! 0" None 0 test_frontend]
    by (simp add: n0 test_sys1_def) (simp add: test_sys_def test_frontend_def Frontend_New_def)
  moreover have "sys_step test_sys1 (Received 0 test_client [1, 2, 3]) test_sys2"
    using step_read [of 0 test_sys1 "sy_nodes test_sys1 ! 0" 0 0 test_client "[1, 2, 3]" "[]" "test_time 0" "test_time 0"
        "fst ?r" "snd ?r"]
    by (simp add: test_sys1_def test_sys2_def Let_def) (simp add: test_sys_def)
  ultimately have "run_of sys_step test_sys (([] @ [Internal]) @ [Received 0 test_client [1, 2, 3]]) test_sys2"
    by (intro run_snoc [OF run_snoc [OF run_Nil]])
  then show ?thesis by (simp add: test_events_def)
qed

lemma test_nodes: "length (sy_nodes test_sys2) = 1"
  by (simp add: test_sys2_def test_sys1_def test_sys_def Let_def)

lemma test_queue: "fe_workCh (nd_fe (sy_nodes test_sys2 ! 0)) \<noteq> []"
  by (simp add: test_sys2_def test_sys1_def test_sys_def Let_def readLoop_def fillBuf_def admit_def allowShaped_def
      Allow_opt_def Allow_client_def allowAbuse_def overSessionCap_def test_frontend_def test_shared_def Frontend_New_def)

theorem never_panics_witness:
  "fst (forwardWorker test_io (nd_fe (sy_nodes test_sys2 ! 0), sy_sh test_sys2)) \<noteq> Panicked"
  by (rule never_panics [OF test_init test_sys_run]) (simp_all add: test_nodes test_queue)

theorem buffers_owned_once_witness: "length (fe_workCh (nd_fe (sy_nodes test_sys2 ! 0))) \<le> fe_workCap (nd_fe (sy_nodes test_sys2 ! 0))"
proof -
  have "sy_nodes test_sys2 ! 0 \<in> set (sy_nodes test_sys2)" by (rule nth_mem) (simp add: test_nodes)
  from buffers_owned_once [OF test_init test_sys_run this] show ?thesis by blast
qed

theorem forwarded_were_received_witness: "mset (queued (sy_nodes test_sys2 ! 0)) \<subseteq># {#(test_client, [1, 2, 3])#}"
  using forwarded_were_received [OF test_init test_sys_run, of 0] by (simp add: test_nodes test_events_def)

theorem packets_conserved_witness:
  "PacketsReceived (ss_counters (sy_sh test_sys2)) = 1 \<and> BytesIn (ss_counters (sy_sh test_sys2)) = of_nat (min 3 (bufSize test_sys2 0))"
  using packets_conserved [OF test_init test_sys_run] by (simp add: test_events_def countEvents_def numeral_3_eq_3)

definition test_stopped :: sys where
  "test_stopped = putNode 0 ((sy_nodes test_sys2 ! 0)\<lparr>nd_fe := Frontend_Stop (nd_fe (sy_nodes test_sys2 ! 0))\<rparr>) (sy_sh test_sys2) test_sys2"

definition test_drained :: sys where
  "test_drained = putNode 0 ((sy_nodes test_stopped ! 0)\<lparr>nd_fe := drainWorker (nd_fe (sy_nodes test_stopped ! 0))\<rparr>) (sy_sh test_stopped) test_stopped"

theorem shutdown_terminates_witness: "1 \<le> (\<Sum>n \<leftarrow> sy_nodes test_stopped. 2 * length (nd_held n) + length (fe_workCh (nd_fe n)))"
proof -
  have i: "0 < length (sy_nodes test_sys2)" "0 < length (sy_nodes test_stopped)" using test_nodes by (simp_all add: test_stopped_def)
  have run: "run_of sys_step test_sys (test_events @ [Internal]) test_stopped"
    unfolding test_stopped_def by (rule run_snoc [OF test_sys_run step_stop [OF i(1) refl]])
  have node: "sy_nodes test_stopped ! 0 = (sy_nodes test_sys2 ! 0)\<lparr>nd_fe := Frontend_Stop (nd_fe (sy_nodes test_sys2 ! 0))\<rparr>"
    using i(1) by (simp add: test_stopped_def)
  have stopped: "fe_stopped (nd_fe (sy_nodes test_stopped ! 0))" by (simp add: node Frontend_Stop_def)
  have "all_stopped test_stopped"
    using stopped test_nodes by (auto simp: all_stopped_def test_stopped_def in_set_conv_nth)
  moreover have "(active_step ^^ 1) test_stopped test_drained"
    unfolding relpowp_1 active_step_def
  proof (intro exI conjI)
    show "sys_step test_stopped (Drained 0 (length (fe_workCh (nd_fe (sy_nodes test_stopped ! 0))))) test_drained"
      unfolding test_drained_def by (rule step_drain [OF i(2) refl stopped])
    have "fe_workCh (nd_fe (sy_nodes test_stopped ! 0)) \<noteq> []" using test_queue by (simp add: node Frontend_Stop_def)
    moreover have "fe_workCh (nd_fe (sy_nodes test_drained ! 0)) = []" using i(2) by (simp add: test_drained_def drainWorker_def)
    ultimately show "sy_nodes test_drained \<noteq> sy_nodes test_stopped" by metis
  qed
  ultimately show ?thesis by (rule shutdown_terminates [OF test_init run])
qed

end
