(* ===== verification/Conns.thy ===== *)
theory Conns
  imports SystemFacts
begin

text \<open>
  Connection counts.  With session affinity, \<^verbatim>\<open>forward\<close> counts a session at the server it is bound
  to, moves the count when it binds the session to another server, and leaves a callback that
  takes the count back when the session is evicted.  The theorem of this theory is that the
  counts, which \<^verbatim>\<open>least_conn\<close> and the metrics endpoint read, are exact in every reachable state.
\<close>

section \<open>Counting sessions by callback\<close>

definition bound :: "(key \<rightharpoonup> evictCb session) \<Rightarrow> evictCb \<Rightarrow> nat" where
  "bound m cb = card {k. \<exists>s. m k = Some s \<and> callEvict s = Some cb}"

lemma bound_update:
  assumes "finite (dom m)"
  shows "bound (m(k \<mapsto> s)) cb + (if Option.bind (m k) callEvict = Some cb then 1 else 0) =
    bound m cb + (if callEvict s = Some cb then 1 else 0)"
proof -
  let ?S = "\<lambda>m. {k. \<exists>s. m k = Some s \<and> callEvict s = Some cb}"
  define A where "A = ?S m - {k}"
  have fin: "finite A" unfolding A_def by (rule finite_Diff) (rule finite_subset [OF _ assms], auto)
  have kA: "k \<notin> A" by (simp add: A_def)
  have "?S m = (if Option.bind (m k) callEvict = Some cb then insert k A else A)"
    by (cases "m k") (auto simp: A_def)
  then have b: "bound m cb = card (if Option.bind (m k) callEvict = Some cb then insert k A else A)" by (simp only: bound_def)
  have "?S (m(k \<mapsto> s)) = (if callEvict s = Some cb then insert k A else A)" by (auto simp: A_def)
  then have "bound (m(k \<mapsto> s)) cb = card (if callEvict s = Some cb then insert k A else A)" by (simp only: bound_def)
  with b show ?thesis using fin kA by simp
qed

lemma finite_tb_abs: "table_wf t \<Longrightarrow> finite (dom (tb_abs t))"
proof -
  assume "table_wf t"
  then have "dom (Get t) = dom (map_of (tb_entries t))" by (intro arg_cong [where f = dom] ext) (rule Get_entries)
  then show ?thesis by (simp add: dom_tb_abs finite_dom_map_of)
qed

definition conns :: "shared \<Rightarrow> nat \<Rightarrow> nat \<Rightarrow> 64 word" where
  "conns sh j i = srv_connCount (p_servers (ss_pools sh ! j) ! i)"

definition exact_conns :: "shared \<Rightarrow> bool" where
  "exact_conns sh \<longleftrightarrow> (\<forall>j < length (ss_pools sh). \<forall>i < length (p_servers (ss_pools sh ! j)).
     conns sh j i = of_nat (bound (tb_abs (ss_sessions sh)) (j, i)))"

text \<open>Operations that neither count nor change a callback.\<close>

lemma exact_conns_cong:
  assumes "exact_conns sh" "length (ss_pools sh') = length (ss_pools sh)"
    "\<And>j. length (p_servers (ss_pools sh' ! j)) = length (p_servers (ss_pools sh ! j))"
    "\<And>j i. i < length (p_servers (ss_pools sh ! j)) \<Longrightarrow> conns sh' j i = conns sh j i"
    "\<And>cb. bound (tb_abs (ss_sessions sh')) cb = bound (tb_abs (ss_sessions sh)) cb"
  shows "exact_conns sh'"
  using assms by (simp add: exact_conns_def)

lemma bound_update_same:
  assumes "finite (dom m)" "m k = Some s" "callEvict s' = callEvict s"
  shows "bound (m(k \<mapsto> s')) cb = bound m cb"
  using bound_update [OF assms(1), of k s' cb] assms(2,3) by simp

lemma exact_conns_setSession:
  assumes "exact_conns sh" "table_wf (ss_sessions sh)" "Get (ss_sessions sh) k = Some r"
    "callEvict (g (sessionAt sh r)) = callEvict (sessionAt sh r)"
  shows "exact_conns (setSession r g sh)"
proof (rule exact_conns_cong [OF assms(1)])
  fix cb
  have "tb_abs (ss_sessions sh) k = Some (sessionAt sh r)" using assms(3) by (simp add: tb_abs_def)
  from bound_update_same [OF finite_tb_abs [OF assms(2)] this assms(4)]
  show "bound (tb_abs (ss_sessions (setSession r g sh))) cb = bound (tb_abs (ss_sessions sh)) cb"
    by (simp add: tb_abs_updateSession [OF assms(2,3)])
qed (simp_all add: conns_def)

lemma exact_conns_setPool:
  assumes "exact_conns sh" "p_servers p = p_servers (poolOf f sh)"
  shows "exact_conns (setPool f p sh)"
  by (rule exact_conns_cong [OF assms(1)]; cases "fe_pool f < length (ss_pools sh)")
    (auto simp: conns_def nth_list_update list_update_beyond assms(2) not_less)

text \<open>Binding a session to a server, taking it off the server it was counted at.\<close>

definition rebind :: "frontend \<Rightarrow> nat \<Rightarrow> nat option \<Rightarrow> nat \<Rightarrow> shared \<Rightarrow> shared" where
  "rebind f r old i s =
     bindServer f r i (case old of None \<Rightarrow> s | Some j \<Rightarrow> setPool f (DecrConns j (poolOf f s)) s)"

lemma conns_update:
  "i < length (p_servers p) \<Longrightarrow> srv_connCount (p_servers (IncrConns j p) ! i) =
     srv_connCount (p_servers p ! i) + (if i = j then 1 else 0)"
  "i < length (p_servers p) \<Longrightarrow> srv_connCount (p_servers (DecrConns j p) ! i) =
     srv_connCount (p_servers p ! i) - (if i = j then 1 else 0)"
  by (cases "j = i"; simp add: IncrConns_def DecrConns_def update_server_def)+

lemma exact_conns_rebind:
  assumes "exact_conns sh" "table_wf (ss_sessions sh)" "Get (ss_sessions sh) k = Some r"
    "callEvict (sessionAt sh r) = map_option (Pair (fe_pool f)) old" "fe_pool f < length (ss_pools sh)"
  shows "exact_conns (rebind f r old i sh)"
proof -
  let ?P = "fe_pool f" and ?m = "tb_abs (ss_sessions sh)"
  define p where "p = (case old of None \<Rightarrow> poolOf f sh | Some j \<Rightarrow> DecrConns j (poolOf f sh))"
  define sh' where "sh' = rebind f r old i sh"
  define a where "a = srv_Address (p_servers p ! i)"
  have pools: "ss_pools sh' = (ss_pools sh)[?P := IncrConns i p]"
    using assms(5) by (cases old) (simp_all add: sh'_def rebind_def p_def)
  have sess: "ss_sessions sh' = updateSession r (UpdateServer a (Some (?P, i))) (ss_sessions sh)"
    using assms(5) by (cases old) (simp_all add: sh'_def rebind_def p_def a_def)
  have len: "length (p_servers (ss_pools sh' ! j)) = length (p_servers (ss_pools sh ! j))" for j
    using assms(5) like_length [OF like_conns(1)] like_length [OF like_conns(2)]
    by (cases "j = ?P"; cases old) (simp_all add: pools p_def)
  have k: "?m k = Some (sessionAt sh r)" using assms(3) by (simp add: tb_abs_def)
  have ce: "callEvict (UpdateServer a (Some cb) s) = Some cb" for cb and s :: "evictCb session"
    by (simp add: callEvict_def UpdateServer_def)
  have upd: "bound (tb_abs (ss_sessions sh')) cb + (if map_option (Pair ?P) old = Some cb then 1 else 0) =
      bound ?m cb + (if (?P, i) = cb then 1 else 0)" for cb
    using bound_update [OF finite_tb_abs [OF assms(2)], of k "UpdateServer a (Some (?P, i)) (sessionAt sh r)" cb]
    by (simp add: sess tb_abs_updateSession [OF assms(2,3)] k ce assms(4))
  have "conns sh' j x = of_nat (bound (tb_abs (ss_sessions sh')) (j, x))"
    if jx: "j < length (ss_pools sh)" "x < length (p_servers (ss_pools sh ! j))" for j x
  proof (cases "j = ?P")
    case True
    have px: "x < length (p_servers p)" using jx True like_length [OF like_conns(2)] by (cases old) (simp_all add: p_def)
    have "conns sh' j x = conns sh j x - (if old = Some x then 1 else 0) + (if x = i then 1 else 0)"
      using conns_update(1) [OF px] conns_update(2) [of x "poolOf f sh"] assms(5) True jx
      by (cases old) (auto simp: conns_def pools p_def)
    moreover have "conns sh j x = of_nat (bound ?m (j, x))" using assms(1) jx by (simp add: exact_conns_def)
    moreover have "of_nat (bound (tb_abs (ss_sessions sh')) (j, x)) + (if old = Some x then 1 else 0) =
        (of_nat (bound ?m (j, x)) + (if x = i then 1 else 0) :: 64 word)"
      using arg_cong [OF upd [of "(j, x)"], of "of_nat :: nat \<Rightarrow> 64 word"] True by (cases old) auto
    ultimately have "conns sh' j x + (if old = Some x then 1 else 0) =
        of_nat (bound (tb_abs (ss_sessions sh')) (j, x)) + (if old = Some x then 1 else 0)" by (simp only: diff_add_eq diff_add_cancel add_diff_cancel_right')
    then show ?thesis by (simp only: add_right_cancel)
  next
    case False
    then have "bound (tb_abs (ss_sessions sh')) (j, x) = bound ?m (j, x)"
      using upd [of "(j, x)"] by (cases old) auto
    then show ?thesis using assms(1) jx False by (simp add: exact_conns_def conns_def pools)
  qed
  then show ?thesis using len by (simp add: exact_conns_def flip: sh'_def) (simp add: pools)
qed

section \<open>Sessions are bound as their frontend binds them\<close>

text \<open>What a frontend's name in a session key stands for: its configuration and its pool.\<close>

type_synonym site = "frontendConfig \<times> nat"

definition site :: "frontend \<Rightarrow> site" where
  "site f = (fe_cfg f, fe_pool f)"

definition session_ok :: "pool list \<Rightarrow> site \<Rightarrow> evictCb session \<Rightarrow> bool" where
  "session_ok ps st s \<longleftrightarrow>
     (if fc_SessionAffinity (fst st)
      then \<exists>i. ServerByAddr (ps ! snd st) (BackendAddr s) = Some i \<and> callEvict s = Some (snd st, i)
      else callEvict s = None)"

definition conn_ok :: "site list \<Rightarrow> shared \<Rightarrow> bool" where
  "conn_ok sites sh \<longleftrightarrow> table_wf (ss_sessions sh) \<and> exact_conns sh \<and>
     (\<forall>k s. tb_abs (ss_sessions sh) k = Some s \<longrightarrow>
        (\<exists>st \<in> set sites. fc_Name (fst st) = k_FrontendName k \<and> session_ok (ss_pools sh) st s))"

text \<open>A state whose sessions are all fine but perhaps the one of key \<open>k\<close>.\<close>

definition conn_ok_but :: "key \<Rightarrow> site list \<Rightarrow> shared \<Rightarrow> bool" where
  "conn_ok_but k sites sh \<longleftrightarrow> table_wf (ss_sessions sh) \<and> exact_conns sh \<and>
     (\<forall>k' s. k' \<noteq> k \<longrightarrow> tb_abs (ss_sessions sh) k' = Some s \<longrightarrow>
        (\<exists>st \<in> set sites. fc_Name (fst st) = k_FrontendName k' \<and> session_ok (ss_pools sh) st s))"

lemma conn_ok_but: "conn_ok sites sh \<Longrightarrow> conn_ok_but k sites sh"
  by (simp add: conn_ok_def conn_ok_but_def)

lemma conn_ok_close:
  assumes "conn_ok_but k sites sh" "st \<in> set sites" "fc_Name (fst st) = k_FrontendName k"
    "\<And>s. tb_abs (ss_sessions sh) k = Some s \<Longrightarrow> session_ok (ss_pools sh) st s"
  shows "conn_ok sites sh"
  unfolding conn_ok_def
proof (intro conjI allI impI)
  fix k' s
  assume s: "tb_abs (ss_sessions sh) k' = Some s"
  show "\<exists>st \<in> set sites. fc_Name (fst st) = k_FrontendName k' \<and> session_ok (ss_pools sh) st s"
  proof (cases "k' = k")
    case True
    then show ?thesis using assms(2,3) assms(4) s by blast
  next
    case False
    then show ?thesis using assms(1) s by (simp add: conn_ok_but_def)
  qed
qed (use assms(1) in \<open>simp_all add: conn_ok_but_def\<close>)

definition same_maps :: "shared \<Rightarrow> shared \<Rightarrow> bool" where
  "same_maps sh sh' \<longleftrightarrow> (\<forall>j. p_serverMap (ss_pools sh' ! j) = p_serverMap (ss_pools sh ! j))"

lemma session_ok_maps: "same_maps sh sh' \<Longrightarrow> session_ok (ss_pools sh') = session_ok (ss_pools sh)"
  by (simp add: fun_eq_iff session_ok_def same_maps_def ServerByAddr_def)

lemma pools_like_maps: "pools_like sh sh' \<Longrightarrow> same_maps sh sh'"
  by (simp add: pools_like_def same_maps_def like_def)

text \<open>The other sessions do not notice a change of pools and of one session.\<close>

lemma conn_ok_but_step:
  assumes "conn_ok_but k sites sh" "table_wf (ss_sessions sh')" "exact_conns sh'" "same_maps sh sh'"
    "\<And>k'. k' \<noteq> k \<Longrightarrow> tb_abs (ss_sessions sh') k' = tb_abs (ss_sessions sh) k'"
  shows "conn_ok_but k sites sh'"
  using assms by (simp add: conn_ok_but_def session_ok_maps)

lemma setSession_other:
  assumes "table_wf (ss_sessions sh)" "Get (ss_sessions sh) k = Some r"
  shows "tb_abs (ss_sessions (setSession r g sh)) = (tb_abs (ss_sessions sh))(k \<mapsto> g (sessionAt sh r))"
    "table_wf (ss_sessions (setSession r g sh))" "Get (ss_sessions (setSession r g sh)) = Get (ss_sessions sh)"
  using assms by (simp_all add: tb_abs_updateSession updateSession_wf)

lemma conn_ok_but_setSession:
  assumes "conn_ok_but k sites sh" "Get (ss_sessions sh) k = Some r"
    "callEvict (g (sessionAt sh r)) = callEvict (sessionAt sh r)"
  shows "conn_ok_but k sites (setSession r g sh)"
proof -
  have wf: "table_wf (ss_sessions sh)" "exact_conns sh" using assms(1) by (simp_all add: conn_ok_but_def)
  show ?thesis
    by (rule conn_ok_but_step [OF assms(1) _ exact_conns_setSession [where g = g, OF wf(2,1) assms(2,3)]])
      (use setSession_other [OF wf(1) assms(2)] in \<open>simp_all add: same_maps_def\<close>)
qed

lemma rebind_frame:
  "pools_like sh (rebind f r old i sh)"
proof -
  let ?s = "case old of None \<Rightarrow> sh | Some j \<Rightarrow> setPool f (DecrConns j (poolOf f sh)) sh"
  have "pools_like sh ?s" by (cases old) (simp_all only: option.case pools_like_refl pools_like_setPool [OF like_conns(2)])
  then show ?thesis unfolding rebind_def by (rule pools_like_trans [OF _ pools_like_bindServer])
qed

lemma rebind_session:
  assumes "table_wf (ss_sessions sh)" "Get (ss_sessions sh) k = Some r" "fe_pool f < length (ss_pools sh)"
    "i < length (p_servers (poolOf f sh))"
  shows "tb_abs (ss_sessions (rebind f r old i sh)) = (tb_abs (ss_sessions sh))(k \<mapsto>
      UpdateServer (srv_Address (p_servers (poolOf f sh) ! i)) (Some (fe_pool f, i)) (sessionAt sh r))"
    "table_wf (ss_sessions (rebind f r old i sh))" "Get (ss_sessions (rebind f r old i sh)) = Get (ss_sessions sh)"
proof -
  let ?s = "case old of None \<Rightarrow> sh | Some j \<Rightarrow> setPool f (DecrConns j (poolOf f sh)) sh"
  have sess: "ss_sessions ?s = ss_sessions sh" by (cases old) simp_all
  have addr: "srv_Address (p_servers (poolOf f ?s) ! i) = srv_Address (p_servers (poolOf f sh) ! i)"
    using assms(3,4) like_nth(1) [OF like_conns(2)] by (cases old) simp_all
  have "ss_sessions (rebind f r old i sh) =
      updateSession r (UpdateServer (srv_Address (p_servers (poolOf f sh) ! i)) (Some (fe_pool f, i))) (ss_sessions sh)"
    unfolding rebind_def bindServer_simps sess addr ..
  then show "tb_abs (ss_sessions (rebind f r old i sh)) = (tb_abs (ss_sessions sh))(k \<mapsto>
      UpdateServer (srv_Address (p_servers (poolOf f sh) ! i)) (Some (fe_pool f, i)) (sessionAt sh r))"
    "table_wf (ss_sessions (rebind f r old i sh))" "Get (ss_sessions (rebind f r old i sh)) = Get (ss_sessions sh)"
    using tb_abs_updateSession [OF assms(1,2)] updateSession_wf [OF assms(1)] by simp_all
qed

lemma conn_ok_rebind:
  assumes "conn_ok_but k sites sh" "Get (ss_sessions sh) k = Some r"
    "callEvict (sessionAt sh r) = map_option (Pair (fe_pool f)) old" "fe_pool f < length (ss_pools sh)"
    "i < length (p_servers (poolOf f sh))" "pool_wf (poolOf f sh)" "distinct (addresses (poolOf f sh))"
    "site f \<in> set sites" "fc_Name (fe_cfg f) = k_FrontendName k" "fc_SessionAffinity (fe_cfg f)"
  shows "conn_ok sites (rebind f r old i sh)"
proof -
  have wf: "table_wf (ss_sessions sh)" "exact_conns sh" using assms(1) by (simp_all add: conn_ok_but_def)
  note rs = rebind_session [OF wf(1) assms(2,4,5), of old]
  note maps = pools_like_maps [OF rebind_frame [of sh f r old i]]
  have but: "conn_ok_but k sites (rebind f r old i sh)"
    by (rule conn_ok_but_step [OF assms(1) rs(2) exact_conns_rebind [OF wf(2,1) assms(2,3,4)] maps]) (simp add: rs(1))
  show ?thesis
  proof (rule conn_ok_close [OF but assms(8)])
    show "fc_Name (fst (site f)) = k_FrontendName k" using assms(9) by (simp add: site_def)
    fix s
    assume "tb_abs (ss_sessions (rebind f r old i sh)) k = Some s"
    then have "BackendAddr s = srv_Address (p_servers (poolOf f sh) ! i)" "callEvict s = Some (fe_pool f, i)"
      by (auto simp: rs(1) BackendAddr_def callEvict_def UpdateServer_def)
    then show "session_ok (ss_pools (rebind f r old i sh)) (site f) s"
      unfolding session_ok_maps [OF maps]
      using pool_wf_lookup [OF assms(6,7,5)] assms(10) by (simp add: session_ok_def site_def ServerByAddr_def)
  qed
qed

section \<open>Routing keeps the counts exact\<close>

text \<open>A frontend of the proxy: it is one of the sites, whose names differ, and the addresses in its pool
  differ.\<close>

definition placed :: "site list \<Rightarrow> frontend \<Rightarrow> shared \<Rightarrow> bool" where
  "placed sites f sh \<longleftrightarrow> site f \<in> set sites \<and> distinct (map (fc_Name \<circ> fst) sites) \<and>
     fe_pool f < length (ss_pools sh) \<and> pool_wf (poolOf f sh) \<and> distinct (addresses (poolOf f sh))"

lemma placed_like: "placed sites f sh \<Longrightarrow> pools_like sh sh' \<Longrightarrow> placed sites f sh'"
  using like_pool_wf [OF pools_like_poolOf] like_addresses [OF pools_like_poolOf]
  by (auto simp: placed_def pools_like_def)

lemma conn_ok_cong:
  assumes "conn_ok sites sh" "exact_conns sh'" "same_maps sh sh'" "ss_sessions sh' = ss_sessions sh"
  shows "conn_ok sites sh'"
  using assms by (simp add: conn_ok_def session_ok_maps)

lemma conn_ok_setPool:
  assumes "conn_ok sites sh" "p_servers p = p_servers (poolOf f sh)" "p_serverMap p = p_serverMap (poolOf f sh)"
  shows "conn_ok sites (setPool f p sh)"
proof (rule conn_ok_cong [OF assms(1)])
  show "exact_conns (setPool f p sh)" using assms(1) by (intro exact_conns_setPool [OF _ assms(2)]) (simp add: conn_ok_def)
  show "same_maps sh (setPool f p sh)"
    by (cases "fe_pool f < length (ss_pools sh)") (auto simp: same_maps_def nth_list_update assms(3) list_update_beyond not_less)
qed simp

lemma site_unique:
  assumes "distinct (map (fc_Name \<circ> fst) sites)" "st \<in> set sites" "st' \<in> set sites" "fc_Name (fst st) = fc_Name (fst st')"
  shows "st = st'"
  using assms by (metis comp_apply distinct_map inj_onD)

lemma placed_session:
  assumes "conn_ok sites sh" "placed sites f sh" "Get (ss_sessions sh) (sessionKey f c) = Some r"
  shows "session_ok (ss_pools sh) (site f) (sessionAt sh r)"
proof -
  have "tb_abs (ss_sessions sh) (sessionKey f c) = Some (sessionAt sh r)" using assms(3) by (simp add: tb_abs_def)
  then obtain st where st: "st \<in> set sites" "fc_Name (fst st) = k_FrontendName (sessionKey f c)"
      "session_ok (ss_pools sh) st (sessionAt sh r)"
    using assms(1) unfolding conn_ok_def by blast
  have "st = site f"
    using assms(2) st(1,2) by (intro site_unique [of sites]) (simp_all add: placed_def site_def sessionKey_def)
  then show ?thesis using st(3) by simp
qed

lemma repick_conn:
  assumes "conn_ok sites sh" "placed sites f sh" "Get (ss_sessions sh) (sessionKey f c) = Some r"
    "callEvict (sessionAt sh r) = map_option (Pair (fe_pool f)) old" "fc_SessionAffinity (fe_cfg f)"
    "repick io f ip r old sh = (res, t)" "res \<noteq> RoutePanic"
  shows "conn_ok sites t" "Get (ss_sessions t) = Get (ss_sessions sh)"
proof -
  let ?k = "sessionKey f c"
  have "conn_ok sites t \<and> Get (ss_sessions t) = Get (ss_sessions sh)"
  proof (cases rule: Pick_cases [of "fw_intn' io" "poolOf f sh" ip])
    case (err p')
    then have "p_servers p' = p_servers (poolOf f sh)" "p_serverMap p' = p_serverMap (poolOf f sh)"
      using Pick_frame [of "fw_intn' io" "poolOf f sh" ip] by simp_all
    then show ?thesis using assms(6) err(1) conn_ok_setPool [OF assms(1)] by (auto simp: repick_def)
  next
    case (panic p')
    then show ?thesis using assms(6,7) by (auto simp: repick_def)
  next
    case (ok i p')
    let ?s = "setPool f p' sh"
    have p': "p_servers p' = p_servers (poolOf f sh)" "p_serverMap p' = p_serverMap (poolOf f sh)"
      using ok(1) Pick_frame [of "fw_intn' io" "poolOf f sh" ip] by simp_all
    have t: "t = rebind f r old i ?s" using assms(6) ok(1) by (simp add: repick_def rebind_def Let_def)
    have ok1: "conn_ok sites ?s" by (rule conn_ok_setPool [OF assms(1) p'])
    have pl: "placed sites f ?s" by (rule placed_like [OF assms(2) pools_like_setPool [OF ok(2)]])
    have i: "i < length (p_servers (poolOf f ?s))"
      using ok(3) assms(2) by (simp add: placed_def p')
    have g: "Get (ss_sessions ?s) ?k = Some r" "callEvict (sessionAt ?s r) = map_option (Pair (fe_pool f)) old"
      using assms(3,4) by simp_all
    have wf: "table_wf (ss_sessions ?s)" using ok1 by (simp add: conn_ok_def)
    have "conn_ok sites (rebind f r old i ?s)"
      by (rule conn_ok_rebind [OF conn_ok_but [OF ok1] g _ i])
        (use pl assms(5) in \<open>auto simp: placed_def sessionKey_def\<close>)
    moreover have "Get (ss_sessions (rebind f r old i ?s)) = Get (ss_sessions sh)"
      using rebind_session(3) [OF wf g(1) _ i, of old] pl by (simp add: placed_def)
    ultimately show ?thesis by (simp add: t)
  qed
  then show "conn_ok sites t" "Get (ss_sessions t) = Get (ss_sessions sh)" by blast+
qed

lemma callEvict_Touch [simp]: "callEvict (Touch n now s) = callEvict s"
  by (simp add: callEvict_def Touch_def)

lemma callEvict_SetConnIndex [simp]: "callEvict (SetConnIndex x s) = callEvict s"
  by (simp add: callEvict_def SetConnIndex_def)

lemma BackendAddr_Touch [simp]: "BackendAddr (Touch n now s) = BackendAddr s"
  by (simp add: BackendAddr_def Touch_def)

lemma BackendAddr_SetConnIndex [simp]: "BackendAddr (SetConnIndex x s) = BackendAddr s"
  by (simp add: BackendAddr_def SetConnIndex_def)

lemma conn_ok_setSession:
  assumes "conn_ok sites sh" "Get (ss_sessions sh) k = Some r" "\<And>s. callEvict (g s) = callEvict s"
    "\<And>s. BackendAddr (g s) = BackendAddr s"
  shows "conn_ok sites (setSession r g sh)"
proof -
  have wf: "table_wf (ss_sessions sh)" using assms(1) by (simp add: conn_ok_def)
  have s: "tb_abs (ss_sessions sh) k = Some (sessionAt sh r)" using assms(2) by (simp add: tb_abs_def)
  then obtain st where st: "st \<in> set sites" "fc_Name (fst st) = k_FrontendName k" "session_ok (ss_pools sh) st (sessionAt sh r)"
    using assms(1) unfolding conn_ok_def by blast
  show ?thesis
    by (rule conn_ok_close [OF conn_ok_but_setSession [where g = g, OF conn_ok_but [OF assms(1)] assms(2,3)] st(1,2)])
      (use setSession_other(1) [OF wf assms(2), of g] st(3) in \<open>auto simp: session_ok_def assms(3,4)\<close>)
qed

text \<open>The part of the affinity mode after the session is known.\<close>

lemma affinity_tail_conn:
  fixes n now
  assumes "conn_ok sites sh" "placed sites f sh" "Get (ss_sessions sh) (sessionKey f c) = Some r"
    "fc_SessionAffinity (fe_cfg f)" "res \<noteq> RoutePanic"
  defines "s3 \<equiv> setSession r (Touch n now) sh"
  assumes "(case ServerByAddr (poolOf f s3) (BackendAddr (sessionAt s3 r)) of
      None \<Rightarrow> repick io f ip r None s3
    | Some i \<Rightarrow> if srv_Healthy (p_servers (poolOf f s3) ! i) then (RouteTo i r, s3) else repick io f ip r (Some i) s3) = (res, t)"
  shows "conn_ok sites t" "Get (ss_sessions t) = Get (ss_sessions sh)"
proof -
  have ok3: "conn_ok sites s3" unfolding s3_def by (rule conn_ok_setSession [OF assms(1,3)]) simp_all
  have pl3: "placed sites f s3" unfolding s3_def by (rule placed_like [OF assms(2) pools_like_setSession(1)])
  have g3: "Get (ss_sessions s3) = Get (ss_sessions sh)" by (simp add: s3_def)
  have r3: "Get (ss_sessions s3) (sessionKey f c) = Some r" using assms(3) by (simp add: g3)
  obtain i where i: "ServerByAddr (poolOf f s3) (BackendAddr (sessionAt s3 r)) = Some i"
      "callEvict (sessionAt s3 r) = map_option (Pair (fe_pool f)) (Some i)"
    using placed_session [OF ok3 pl3 r3] assms(4) by (auto simp: session_ok_def site_def)
  have "conn_ok sites t \<and> Get (ss_sessions t) = Get (ss_sessions s3)"
  proof (cases "srv_Healthy (p_servers (poolOf f s3) ! i)")
    case True
    then show ?thesis using assms(7) ok3 by (simp add: i(1))
  next
    case False
    then have "repick io f ip r (Some i) s3 = (res, t)" using assms(7) by (simp add: i(1))
    from repick_conn [OF ok3 pl3 r3 i(2) assms(4) this assms(5)] show ?thesis by blast
  qed
  then show "conn_ok sites t" "Get (ss_sessions t) = Get (ss_sessions sh)" by (simp_all add: g3)
qed

text \<open>A new session with no callback, under a key that had none.\<close>

lemma conn_ok_create:
  assumes "conn_ok sites sh" "Get (ss_sessions sh) k = None" "insertSession k s (ss_sessions sh) = (r, created, tbl)"
    "callEvict s = None"
  shows "created" "Get tbl = (Get (ss_sessions sh))(k \<mapsto> r)" "tb_heap tbl ! r = s"
    "conn_ok_but k sites (sh\<lparr>ss_sessions := tbl\<rparr>)"
proof -
  have wf: "table_wf (ss_sessions sh)" using assms(1) by (simp add: conn_ok_def)
  obtain t' where t': "insertSession k s (ss_sessions sh) = (length (tb_heap (ss_sessions sh)), True, t')" "table_wf t'"
      "Get t' = (Get (ss_sessions sh))(k \<mapsto> length (tb_heap (ss_sessions sh)))" "tb_heap t' = tb_heap (ss_sessions sh) @ [s]"
    by (rule insertSession_fresh [OF wf assms(2)]) (rule that, assumption+)
  have eq: "r = length (tb_heap (ss_sessions sh))" "tbl = t'" "created" using t'(1) assms(3) by simp_all
  show "created" "Get tbl = (Get (ss_sessions sh))(k \<mapsto> r)" "tb_heap tbl ! r = s" using t' eq by simp_all
  have "tableCreate k s (ss_sessions sh) = t'" using assms(2) t'(1) by (simp add: tableCreate_def GetOrCreate_alone)
  then have abs: "tb_abs tbl = (tb_abs (ss_sessions sh))(k \<mapsto> s)"
    using tableCreate_effect(3) [OF wf, of k s] assms(2) eq(2) by (simp add: tb_abs_def)
  have none: "tb_abs (ss_sessions sh) k = None" using assms(2) by (simp add: tb_abs_def)
  have b: "bound (tb_abs tbl) cb = bound (tb_abs (ss_sessions sh)) cb" for cb
    using bound_update [OF finite_tb_abs [OF wf], of k s cb] assms(4) none by (simp add: abs)
  have ex: "exact_conns (sh\<lparr>ss_sessions := tbl\<rparr>)"
    by (rule exact_conns_cong [of sh]) (use assms(1) in \<open>simp only: conn_ok_def\<close>, simp_all add: conns_def b)
  show "conn_ok_but k sites (sh\<lparr>ss_sessions := tbl\<rparr>)"
    by (rule conn_ok_but_step [OF conn_ok_but [OF assms(1)] _ ex]) (use t'(2) eq(2) abs in \<open>simp_all add: same_maps_def\<close>)
qed

lemma callEvict_NewSession [simp]: "callEvict (NewSession a now) = None"
  by (simp add: callEvict_def NewSession_def)

lemma BackendAddr_NewSession [simp]: "BackendAddr (NewSession a now) = a"
  by (simp add: BackendAddr_def NewSession_def)

lemma routeAffinity_conn:
  assumes "conn_ok sites sh" "placed sites f sh" "fc_SessionAffinity (fe_cfg f)"
    "routeAffinity io p f sh = (res, t)" "res \<noteq> RoutePanic"
  shows "conn_ok sites t" "res = RouteTo i r \<Longrightarrow> Get (ss_sessions t) (sessionKey f (pk_clientAddr p)) = Some r"
proof -
  let ?ip = "addr_string (ap_addr (pk_clientAddr p))" and ?k = "sessionKey f (pk_clientAddr p)"
  have P: "fe_pool f < length (ss_pools sh)" using assms(2) by (simp add: placed_def)
  have tail: "res = NoRoute \<or> res = RoutePanic \<or> (\<exists>i. res = RouteTo i r')"
    if "(case srv of None \<Rightarrow> repick io f ?ip r' None s3
      | Some i \<Rightarrow> if h i then (RouteTo i r', s3) else repick io f ?ip r' (Some i) s3) = (res, t)" for srv h r' s3
    using that by (auto simp: repick_def Let_def split: option.splits if_splits prod.splits pickResult.splits)
  have "conn_ok sites t \<and> (\<forall>i r. res = RouteTo i r \<longrightarrow> Get (ss_sessions t) ?k = Some r)"
  proof (cases "Get (ss_sessions sh) ?k")
    case (Some r')
    have "(setPool f (poolOf f sh) sh)\<lparr>ss_sessions := ss_sessions sh\<rparr> = sh" by (simp add: setPool_def)
    then have run: "(let s3 = setSession r' (Touch (pk_n p) (fw_tTouch io)) sh in
        case ServerByAddr (poolOf f s3) (BackendAddr (sessionAt s3 r')) of
          None \<Rightarrow> repick io f ?ip r' None s3
        | Some i \<Rightarrow> if srv_Healthy (p_servers (poolOf f s3) ! i) then (RouteTo i r', s3) else repick io f ?ip r' (Some i) s3) = (res, t)"
      using assms(4) by (simp add: routeAffinity_def GetOrCreate_alone Some Let_def)
    show ?thesis
      using affinity_tail_conn [OF assms(1,2) Some assms(3,5) run [unfolded Let_def]] tail [OF run [unfolded Let_def]] Some assms(5)
      by auto
  next
    case None
    show ?thesis
    proof (cases rule: Pick_cases [of "fw_intn io" "poolOf f sh" ?ip])
      case (err p')
      have p': "p_servers p' = p_servers (poolOf f sh)" "p_serverMap p' = p_serverMap (poolOf f sh)"
        using err(1) Pick_frame [of "fw_intn io" "poolOf f sh" ?ip] by simp_all
      have "(setPool f p' sh)\<lparr>ss_sessions := ss_sessions sh\<rparr> = setPool f p' sh" by (simp add: setPool_def)
      then have "res = NoRoute" "t = setPool f p' sh"
        using assms(4) None err(1) by (auto simp: routeAffinity_def GetOrCreate_alone pickSession_def Let_def)
      then show ?thesis using conn_ok_setPool [OF assms(1) p'] by simp
    next
      case (panic p')
      then show ?thesis using assms(4,5) None by (auto simp: routeAffinity_def GetOrCreate_alone pickSession_def Let_def)
    next
      case (ok i p')
      let ?a = "srv_Address (p_servers p' ! i)"
      have p': "p_servers p' = p_servers (poolOf f sh)" "p_serverMap p' = p_serverMap (poolOf f sh)"
        using ok(1) Pick_frame [of "fw_intn io" "poolOf f sh" ?ip] by simp_all
      define s0 where "s0 = setPool f p' sh"
      have ok0: "conn_ok sites s0" unfolding s0_def by (rule conn_ok_setPool [OF assms(1) p'])
      have pl0: "placed sites f s0" unfolding s0_def by (rule placed_like [OF assms(2) pools_like_setPool [OF ok(2)]])
      have n0: "Get (ss_sessions s0) ?k = None" "ss_sessions s0 = ss_sessions sh" using None by (simp_all add: s0_def)
      obtain r' created tbl where ins: "insertSession ?k (NewSession ?a (fw_tNew io)) (ss_sessions s0) = (r', created, tbl)"
        by (metis prod.collapse)
      note cr = conn_ok_create [OF ok0 n0(1) ins callEvict_NewSession]
      define s1 where "s1 = s0\<lparr>ss_sessions := tbl\<rparr>"
      have pl1: "placed sites f s1" unfolding s1_def by (rule placed_like [OF pl0 pools_like_setSession(2)])
      have i1: "i < length (p_servers (poolOf f s1))" using ok(3) P by (simp add: s1_def s0_def p')
      have a1: "?a = srv_Address (p_servers (poolOf f s1) ! i)" using P by (simp add: s1_def s0_def)
      have look: "ServerByAddr (poolOf f s1) (BackendAddr (sessionAt s1 r')) = Some i"
        using cr(3) pool_wf_lookup [OF _ _ i1] pl1 by (simp add: s1_def placed_def a1 ServerByAddr_def)
      have g1: "Get (ss_sessions s1) ?k = Some r'" using cr(2) by (simp add: s1_def)
      have none1: "callEvict (sessionAt s1 r') = map_option (Pair (fe_pool f)) None" using cr(3) by (simp add: s1_def)
      have b: "bindServer f r' i s1 = rebind f r' None i s1" by (simp add: rebind_def)
      have ok2: "conn_ok sites (bindServer f r' i s1)" unfolding b
        by (rule conn_ok_rebind [OF cr(4) [folded s1_def] g1 none1 _ i1])
          (use pl1 assms(3) in \<open>auto simp: placed_def sessionKey_def\<close>)
      have pl2: "placed sites f (bindServer f r' i s1)" by (rule placed_like [OF pl1 pools_like_bindServer])
      have g2: "Get (ss_sessions (bindServer f r' i s1)) ?k = Some r'" using g1 by simp
      have s1: "(setPool f p' sh)\<lparr>ss_sessions := tbl\<rparr> = s1" by (simp add: s1_def s0_def)
      have run: "(let s3 = setSession r' (Touch (pk_n p) (fw_tTouch io)) (bindServer f r' i s1) in
        case ServerByAddr (poolOf f s3) (BackendAddr (sessionAt s3 r')) of
          None \<Rightarrow> repick io f ?ip r' None s3
        | Some i \<Rightarrow> if srv_Healthy (p_servers (poolOf f s3) ! i) then (RouteTo i r', s3) else repick io f ?ip r' (Some i) s3) = (res, t)"
        using assms(4) None ok(1) ins cr(1) n0(2) look
        by (simp add: routeAffinity_def GetOrCreate_alone pickSession_def Let_def s1)
      show ?thesis
        using affinity_tail_conn [OF ok2 pl2 g2 assms(3,5) run [unfolded Let_def]] tail [OF run [unfolded Let_def]] g2 assms(5)
        by auto
    qed
  qed
  then show "conn_ok sites t" "res = RouteTo i r \<Longrightarrow> Get (ss_sessions t) (sessionKey f (pk_clientAddr p)) = Some r" by blast+
qed

lemma routeSpread_conn:
  assumes "conn_ok sites sh" "placed sites f sh" "\<not> fc_SessionAffinity (fe_cfg f)"
    "routeSpread io p f sh = (res, t)" "res \<noteq> RoutePanic"
  shows "conn_ok sites t" "res = RouteTo i r \<Longrightarrow> Get (ss_sessions t) (sessionKey f (pk_clientAddr p)) = Some r"
proof -
  let ?ip = "addr_string (ap_addr (pk_clientAddr p))" and ?k = "sessionKey f (pk_clientAddr p)"
  have site: "site f \<in> set sites" "fc_Name (fst (site f)) = k_FrontendName ?k"
    using assms(2) by (simp_all add: placed_def site_def sessionKey_def)
  have free: "session_ok ps (site f) s \<longleftrightarrow> callEvict s = None" for ps s
    using assms(3) by (simp add: session_ok_def site_def)
  have "conn_ok sites t \<and> (\<forall>i r. res = RouteTo i r \<longrightarrow> Get (ss_sessions t) ?k = Some r)"
  proof (cases rule: Pick_cases [of "fw_intn io" "poolOf f sh" ?ip])
    case (err p')
    have "p_servers p' = p_servers (poolOf f sh)" "p_serverMap p' = p_serverMap (poolOf f sh)"
      using err(1) Pick_frame [of "fw_intn io" "poolOf f sh" ?ip] by simp_all
    then show ?thesis using assms(4) err(1) conn_ok_setPool [OF assms(1)] by (auto simp: routeSpread_def)
  next
    case (panic p')
    then show ?thesis using assms(4,5) by (auto simp: routeSpread_def)
  next
    case (ok i p')
    let ?a = "srv_Address (p_servers p' ! i)"
    define s0 where "s0 = setPool f p' sh"
    have p': "p_servers p' = p_servers (poolOf f sh)" "p_serverMap p' = p_serverMap (poolOf f sh)"
      using ok(1) Pick_frame [of "fw_intn io" "poolOf f sh" ?ip] by simp_all
    have ok0: "conn_ok sites s0" unfolding s0_def by (rule conn_ok_setPool [OF assms(1) p'])
    have pl0: "placed sites f s0" unfolding s0_def by (rule placed_like [OF assms(2) pools_like_setPool [OF ok(2)]])
    have touch: "conn_ok sites (setSession r' (Touch (pk_n p) (fw_tTouch io)) s3)"
      if "conn_ok sites s3" "Get (ss_sessions s3) ?k = Some r'" for s3 r'
      by (rule conn_ok_setSession [OF that]) simp_all
    show ?thesis
    proof (cases "Get (ss_sessions s0) ?k")
      case (Some r')
      define s3 where "s3 = (if BackendAddr (sessionAt s0 r') \<noteq> ?a then setSession r' (UpdateServer ?a None) s0 else s0)"
      have same: "(setPool f p' sh)\<lparr>ss_sessions := ss_sessions sh\<rparr> = setPool f p' sh" by (simp add: setPool_def)
      have "Get (ss_sessions sh) ?k = Some r'" using Some by (simp add: s0_def)
      then have run: "res = RouteTo i r'" "t = setSession r' (Touch (pk_n p) (fw_tTouch io)) s3"
        using assms(4) by (auto simp: routeSpread_def ok(1) GetOrCreate_alone Let_def s3_def s0_def same)
      have ce: "callEvict (sessionAt s0 r') = None" using placed_session [OF ok0 pl0 Some] free by simp
      have wf0: "table_wf (ss_sessions s0)" using ok0 by (simp only: conn_ok_def)
      have un: "callEvict (UpdateServer ?a None s) = None" for s :: "evictCb session" by (simp add: callEvict_def UpdateServer_def)
      have "conn_ok sites (setSession r' (UpdateServer ?a None) s0)"
        by (rule conn_ok_close [OF conn_ok_but_setSession [where g = "UpdateServer ?a None", OF conn_ok_but [OF ok0] Some] site])
          (use setSession_other(1) [OF wf0 Some, of "UpdateServer ?a None"] ce in \<open>auto simp: free un\<close>)
      then have ok3: "conn_ok sites s3" using ok0 by (simp add: s3_def)
      have g3: "Get (ss_sessions s3) ?k = Some r'" using Some by (simp add: s3_def)
      show ?thesis using touch [OF ok3 g3] g3 by (simp add: run)
    next
      case None
      obtain r' created tbl where ins: "insertSession ?k (NewSession ?a (fw_tNew io)) (ss_sessions s0) = (r', created, tbl)"
        by (metis prod.collapse)
      note cr = conn_ok_create [OF ok0 None ins callEvict_NewSession]
      define s1 where "s1 = s0\<lparr>ss_sessions := tbl\<rparr>"
      have "Get (ss_sessions sh) ?k = None" "ss_sessions s0 = ss_sessions sh" using None by (simp_all add: s0_def)
      then have run: "res = RouteTo i r'" "t = setSession r' (Touch (pk_n p) (fw_tTouch io)) s1"
        using assms(4) ins cr(1) by (auto simp: routeSpread_def ok(1) GetOrCreate_alone Let_def s0_def s1_def)
      have g1: "Get (ss_sessions s1) ?k = Some r'" using cr(2) by (simp add: s1_def)
      have "tb_abs (ss_sessions s1) ?k = Some (NewSession ?a (fw_tNew io))" using g1 cr(3) by (simp add: tb_abs_def s1_def)
      then have ok1: "conn_ok sites s1"
        by (intro conn_ok_close [OF cr(4) [folded s1_def] site]) (auto simp: free)
      show ?thesis using touch [OF ok1 g1] g1 by (simp add: run)
    qed
  qed
  then show "conn_ok sites t" "res = RouteTo i r \<Longrightarrow> Get (ss_sessions t) (sessionKey f (pk_clientAddr p)) = Some r" by blast+
qed

lemma forward_conn:
  assumes "conn_ok sites sh" "placed sites f sh" "forward io p (f, sh) = (res, f', sh')" "res \<noteq> Panicked"
  shows "conn_ok sites sh'"
proof -
  have wf: "pool_wf (poolOf f sh)" using assms(2) by (simp add: placed_def)
  have rt: "conn_ok sites t" "rs = RouteTo i r \<Longrightarrow> Get (ss_sessions t) (sessionKey f (pk_clientAddr p)) = Some r"
    if "route io p f sh = (rs, t)" "rs \<noteq> RoutePanic" for rs t i r
    using routeAffinity_conn [OF assms(1,2) _ _ that(2)] routeSpread_conn [OF assms(1,2) _ _ that(2)] that(1)
    by (cases "fc_SessionAffinity (fe_cfg f)"; simp)+
  have same: "conn_ok sites u" if "conn_ok sites t" "ss_pools u = ss_pools t" "ss_sessions u = ss_sessions t" for t u
    using that by (simp add: conn_ok_def exact_conns_def conns_def)
  from wf assms(3) show ?thesis
  proof (cases rule: forward_cases)
    case (panic t)
    then show ?thesis using assms(4) by simp
  next
    case (none t)
    then show ?thesis using rt(1) [OF none(5)] same [of t] by simp
  next
    case (to i r t t')
    have "conn_ok sites t'" unfolding to(4)
      by (rule conn_ok_setSession [OF rt(1) [OF to(1)] rt(2) [OF to(1) _ refl]]) simp_all
    then show ?thesis using same dispatch_effect(2,3) [OF to(6)] by blast
  qed
qed

section \<open>Eviction and health changes\<close>

lemma conns_runCallback:
  assumes "j < length (ss_pools sh)" "i < length (p_servers (ss_pools sh ! j))"
  shows "conns (runCallback cb sh) j i = conns sh j i - (if cb = (j, i) then 1 else 0)"
  using assms conns_update(2) [of i "ss_pools sh ! j" "snd cb"]
  by (cases "fst cb = j") (auto simp: conns_def runCallback_def)

lemma runCallback_length [simp]:
  "length (p_servers (ss_pools (runCallback cb sh) ! j)) = length (p_servers (ss_pools sh ! j))"
  using like_length [OF runCallback_like(2)] .

lemma conns_runCallbacks:
  assumes "j < length (ss_pools sh)" "i < length (p_servers (ss_pools sh ! j))"
  shows "conns (fold runCallback cbs sh) j i = conns sh j i - of_nat (multiset.count (mset cbs) (j, i))"
  using assms
proof (induction cbs arbitrary: sh)
  case Nil
  then show ?case by simp
next
  case (Cons cb cbs)
  have "conns (fold runCallback (cb # cbs) sh) j i = conns (runCallback cb sh) j i - of_nat (multiset.count (mset cbs) (j, i))"
    using Cons.prems runCallback_like(1) [of cb sh] by (simp add: Cons.IH)
  then show ?case using conns_runCallback [OF Cons.prems, of cb] by (cases "cb = (j, i)") simp_all
qed

lemma bound_evict:
  assumes "finite (dom m)" "D \<subseteq> dom m" "m' = (\<lambda>k. if k \<in> D then None else m k)"
    "mset cbs = (\<Sum>k \<in> D. mset (the_callbacks [the (m k)]))"
  shows "bound m' cb + multiset.count (mset cbs) cb = bound m cb"
proof -
  let ?S = "\<lambda>m. {k. \<exists>s. m k = Some s \<and> callEvict s = Some cb}"
  have fin: "finite D" using assms(1,2) finite_subset by blast
  have "multiset.count (mset cbs) cb = (\<Sum>k \<in> D. multiset.count (mset (the_callbacks [the (m k)])) cb)"
    unfolding assms(4) by (rule count_sum)
  also have "\<dots> = (\<Sum>k \<in> D. if k \<in> ?S m then 1 else 0)"
    using assms(2) by (intro sum.cong) (auto split: option.splits)
  also have "\<dots> = card (D \<inter> ?S m)" using fin by (simp add: sum.If_cases)
  finally have c: "multiset.count (mset cbs) cb = card (D \<inter> ?S m)" .
  have "?S m = ?S m' \<union> (D \<inter> ?S m)" "?S m' \<inter> (D \<inter> ?S m) = {}" by (auto simp: assms(3))
  moreover have "finite (?S m')" by (rule finite_subset [OF _ assms(1)]) (auto simp: assms(3) split: if_splits)
  ultimately have "card (?S m) = card (?S m') + card (D \<inter> ?S m)" using fin card_Un_disjoint [of "?S m'" "D \<inter> ?S m"] by simp
  then show ?thesis by (simp add: bound_def c)
qed

lemma evictSweep_conn:
  assumes "conn_ok sites sh"
  shows "conn_ok sites (evictSweep now sh)"
proof -
  have wf: "table_wf (ss_sessions sh)" and ex: "exact_conns sh" using assms by (simp_all only: conn_ok_def)
  obtain t cbs where e: "evictExpired now (ss_sessions sh) = (t, cbs)" by fastforce
  define m where "m = tb_abs (ss_sessions sh)"
  define D where "D = {k. \<exists>s. m k = Some s \<and> s_LastSeen s < t_wall now - tb_timeout (ss_sessions sh)}"
  note ev = evictExpired_abs [OF wf e, folded m_def, folded D_def]
  define sh' where "sh' = fold runCallback cbs (sh\<lparr>ss_sessions := t\<rparr>)"
  have sw: "evictSweep now sh = sh'" by (simp add: evictSweep_def e sh'_def)
  have fr: "length (ss_pools sh') = length (ss_pools sh)" "\<And>j. like (ss_pools sh ! j) (ss_pools sh' ! j)" "ss_sessions sh' = t"
    using runCallbacks_like [of cbs "sh\<lparr>ss_sessions := t\<rparr>"] by (simp_all add: sh'_def)
  have maps: "same_maps sh sh'" using fr(2) by (simp add: same_maps_def like_def)
  have D: "D \<subseteq> dom m" by (auto simp: D_def)
  have b: "bound (tb_abs t) cb + multiset.count (mset cbs) cb = bound m cb" for cb
    by (rule bound_evict [OF _ D]) (use ev finite_tb_abs [OF wf] in \<open>simp_all add: m_def\<close>)
  have "exact_conns sh'"
    unfolding exact_conns_def
  proof (intro allI impI)
    fix j i
    assume "j < length (ss_pools sh')" "i < length (p_servers (ss_pools sh' ! j))"
    then have ji: "j < length (ss_pools sh)" "i < length (p_servers (ss_pools sh ! j))" using fr(1) like_length [OF fr(2)] by simp_all
    have "conns sh' j i = conns sh j i - of_nat (multiset.count (mset cbs) (j, i))"
      using conns_runCallbacks [of j "sh\<lparr>ss_sessions := t\<rparr>" i cbs] ji by (simp add: sh'_def conns_def)
    also have "conns sh j i = of_nat (bound m (j, i))" using ex ji by (simp add: exact_conns_def m_def)
    also have "\<dots> = of_nat (bound (tb_abs t) (j, i)) + of_nat (multiset.count (mset cbs) (j, i))"
      by (simp flip: b [of "(j, i)"])
    finally show "conns sh' j i = of_nat (bound (tb_abs (ss_sessions sh')) (j, i))" by (simp add: fr(3))
  qed
  moreover have "\<exists>st \<in> set sites. fc_Name (fst st) = k_FrontendName k \<and> session_ok (ss_pools sh') st s"
    if "tb_abs t k = Some s" for k s
  proof -
    have "tb_abs (ss_sessions sh) k = Some s" using ev that by (auto simp: m_def split: if_splits)
    then show ?thesis using assms unfolding conn_ok_def session_ok_maps [OF maps] by blast
  qed
  ultimately show ?thesis using ev unfolding sw conn_ok_def fr(3) by blast
qed

lemma setHealth_conn:
  assumes "conn_ok sites sh"
  shows "conn_ok sites (setHealth j a h sh)"
proof (rule conn_ok_cong [OF assms])
  have "srv_connCount (xs[k := (xs ! k)\<lparr>srv_Healthy := h\<rparr>] ! i) = srv_connCount (xs ! i)"
    if "i < length xs" for xs :: "server list" and k i
    using that by (cases "k = i") simp_all
  then have sv: "srv_connCount (p_servers (SetHealthy a h p) ! i) = srv_connCount (p_servers p ! i)"
    if "i < length (p_servers p)" for p i
    using that by (simp add: SetHealthy_def update_server_def split: option.split)
  have len: "length (p_servers (SetHealthy a h p)) = length (p_servers p)" for p
    by (simp add: SetHealthy_def update_server_def split: option.split)
  have ex: "exact_conns sh" using assms by (simp only: conn_ok_def)
  show "exact_conns (setHealth j a h sh)"
  proof (rule exact_conns_cong [OF ex])
    show "length (p_servers (ss_pools (setHealth j a h sh) ! j')) = length (p_servers (ss_pools sh ! j'))" for j'
      by (cases "j' = j"; cases "j < length (ss_pools sh)") (simp_all add: setHealth_def len list_update_beyond)
    show "conns (setHealth j a h sh) j' i = conns sh j' i" if "i < length (p_servers (ss_pools sh ! j'))" for j' i
      using that sv by (cases "j' = j"; cases "j < length (ss_pools sh)") (simp_all add: setHealth_def conns_def list_update_beyond)
  qed (simp_all add: setHealth_def)
  show "same_maps sh (setHealth j a h sh)"
    unfolding same_maps_def
  proof
    fix j'
    show "p_serverMap (ss_pools (setHealth j a h sh) ! j') = p_serverMap (ss_pools sh ! j')"
      by (cases "j' = j"; cases "j < length (ss_pools sh)")
        (simp_all add: setHealth_def list_update_beyond SetHealthy_def update_server_def split: option.split)
  qed
qed (simp add: setHealth_def)

section \<open>Runs of the proxy\<close>

abbreviation sites :: "sys \<Rightarrow> site list" where
  "sites s \<equiv> map (site \<circ> nd_fe) (sy_nodes s)"

definition counts_ok :: "sys \<Rightarrow> bool" where
  "counts_ok s \<longleftrightarrow> sys_ok s \<and> distinct (map (fc_Name \<circ> fst) (sites s)) \<and>
     (\<forall>p \<in> set (ss_pools (sy_sh s)). distinct (addresses p)) \<and> conn_ok (sites s) (sy_sh s)"

lemma counts_ok_placed:
  assumes "counts_ok s" "i < length (sy_nodes s)" "site f = site (nd_fe (sy_nodes s ! i))"
  shows "placed (sites s) f (sy_sh s)"
proof -
  have "site f \<in> set (sites s)" using nth_mem [OF assms(2)] assms(3) by simp
  moreover have "fe_pool f = fe_pool (nd_fe (sy_nodes s ! i))" using assms(3) by (simp add: site_def)
  ultimately show ?thesis
    using assms(1) sys_ok_node [OF _ assms(2) refl] by (auto simp: counts_ok_def placed_def pool_ok_def)
qed

lemma sites_putNode:
  assumes "i < length (sy_nodes s)" "site (nd_fe n') = site (nd_fe (sy_nodes s ! i))"
  shows "sites (putNode i n' sh s) = sites s"
  using assms by (simp add: map_update) (metis (no_types, lifting) comp_apply length_map list_update_id nth_map)

lemma distinct_addresses_like:
  assumes "\<forall>p \<in> set ps. distinct (addresses p)" "length qs = length ps" "\<And>j. like (ps ! j) (qs ! j)"
  shows "\<forall>q \<in> set qs. distinct (addresses q)"
proof
  fix q
  assume "q \<in> set qs"
  then obtain j where "j < length qs" "q = qs ! j" by (auto simp: in_set_conv_nth)
  then show "distinct (addresses q)" using assms(1,2) like_addresses [OF assms(3) [of j]] by simp
qed

lemma counts_ok_putNode:
  assumes "counts_ok s" "sys_ok (putNode i n' sh s)" "i < length (sy_nodes s)"
    "site (nd_fe n') = site (nd_fe (sy_nodes s ! i))" "conn_ok (sites s) sh"
    "length (ss_pools sh) = length (ss_pools (sy_sh s))" "\<And>j. like (ss_pools (sy_sh s) ! j) (ss_pools sh ! j)"
  shows "counts_ok (putNode i n' sh s)"
  using assms(1,2,5) distinct_addresses_like [OF _ assms(6,7)] sites_putNode [OF assms(3,4), of sh]
  unfolding counts_ok_def by (simp only: putNode_simps) blast

lemma conn_ok_same:
  "conn_ok st t \<Longrightarrow> ss_pools u = ss_pools t \<Longrightarrow> ss_sessions u = ss_sessions t \<Longrightarrow> conn_ok st u"
  by (simp add: conn_ok_def exact_conns_def conns_def)

lemma counts_ok_step:
  assumes "counts_ok s" "sys_step s e t"
  shows "counts_ok t"
proof -
  have ok: "sys_ok s" and cn: "conn_ok (sites s) (sy_sh s)" using assms(1) by (simp_all only: counts_ok_def)
  have okt: "sys_ok t" by (rule sys_ok_step [OF ok assms(2)])
  have same: "counts_ok t" if "t = putNode i n' sh s" "i < length (sy_nodes s)" "site (nd_fe n') = site (nd_fe (sy_nodes s ! i))"
    "ss_pools sh = ss_pools (sy_sh s)" "ss_sessions sh = ss_sessions (sy_sh s)" for i n' sh
    unfolding that(1)
    by (rule counts_ok_putNode [OF assms(1) okt [unfolded that(1)] that(2,3) conn_ok_same [OF cn that(4,5)]]) (simp_all add: that(4))
  from assms(2) show ?thesis
  proof cases
    case (step_get i n choice b f)
    show ?thesis
      by (rule same [OF step_get(2,3)])
        (use getBuf_effect [OF sys_ok_node(1) [OF ok step_get(3,4)] step_get(6)] step_get(4) in \<open>simp_all add: site_def\<close>)
  next
    case (step_read i n b ci client payload oob now tnow f sh)
    note r = read_effect [OF sys_ok_node(1) [OF ok step_read(3,4)] step_read(5,6)]
    show ?thesis by (rule same [OF step_read(2,3)]) (use r step_read(4) in \<open>simp_all add: site_def\<close>)
  next
    case (step_readFailed i n b ci now tnow f sh)
    show ?thesis by (rule same [OF step_readFailed(2,3)]) (use step_readFailed(4,6) in \<open>auto simp: site_def readLoop_def\<close>)
  next
    case (step_work i n p ps io res f sh)
    note nd = sys_ok_node [OF ok step_work(3,4)]
    note w = work_effect [OF nd(1) step_work(5,6,7) pool_ok_fit(1) [OF nd(2)]]
    obtain u where u: "pools_like (sy_sh s) u" "ss_pools sh = ss_pools u" using w(5) by blast
    obtain g where g: "forward io p ((nd_fe n)\<lparr>fe_workCh := ps\<rparr>, sy_sh s) = (res, g, sh)"
      by (rule forwardWorker_eq [OF step_work(5,6)])
    have "placed (sites s) ((nd_fe n)\<lparr>fe_workCh := ps\<rparr>) (sy_sh s)"
      by (rule counts_ok_placed [OF assms(1) step_work(3)]) (simp add: site_def step_work(4))
    from forward_conn [OF cn this g step_work(7)] show ?thesis unfolding step_work(2)
      by (intro counts_ok_putNode [OF assms(1) okt [unfolded step_work(2)] step_work(3)])
        (use w(3,4) u step_work(4) in \<open>simp_all add: site_def pools_like_def\<close>)
  next
    case (step_respond i n b rd now res f sh)
    note r = respond_effect [OF sys_ok_node(1) [OF ok step_respond(3,4)] step_respond(5,6)]
    have "ss_pools sh = ss_pools (sy_sh s)" "ss_sessions sh = ss_sessions (sy_sh s)"
      using r(5) by (simp_all split: response.splits)
    then show ?thesis by (intro same [OF step_respond(2,3)]) (use r(3,4) step_respond(4) in \<open>simp_all add: site_def\<close>)
  next
    case (step_evict now)
    show ?thesis
      using assms(1) okt evictSweep_conn [OF cn] distinct_addresses_like [OF _ evictSweep_frame(1,2)]
      unfolding step_evict(2) counts_ok_def by simp blast
  next
    case (step_health j a h)
    have "\<forall>p \<in> set (ss_pools (setHealth j a h (sy_sh s))). distinct (addresses p)"
      using assms(1) set_update_subset_insert [of "ss_pools (sy_sh s)" j "SetHealthy a h (ss_pools (sy_sh s) ! j)"]
      by (cases "j < length (ss_pools (sy_sh s))")
        (auto simp: counts_ok_def setHealth_def list_update_beyond not_less dest!: subsetD)
    then show ?thesis using assms(1) okt setHealth_conn [OF cn] unfolding step_health(2) counts_ok_def by simp
  next
    case (step_stop i n)
    show ?thesis by (rule same [OF step_stop(2,3)]) (use step_stop(4) in \<open>simp_all add: site_def Frontend_Stop_def\<close>)
  next
    case (step_drain i n)
    show ?thesis by (rule same [OF step_drain(2,3)]) (use step_drain(4) in \<open>simp_all add: site_def drainWorker_def\<close>)
  qed
qed

interpretation countsOk: traced sys_step "\<lambda>_. counts_ok"
  by unfold_locales (rule counts_ok_step)

text \<open>The sessions that the affinity frontends of a pool have bound to a server.\<close>

definition bound_sessions :: "sys \<Rightarrow> nat \<Rightarrow> nat \<Rightarrow> key set" where
  "bound_sessions s j i = {k. \<exists>ss n. tb_abs (ss_sessions (sy_sh s)) k = Some ss \<and> n \<in> set (sy_nodes s) \<and>
     fc_Name (fe_cfg (nd_fe n)) = k_FrontendName k \<and> fc_SessionAffinity (fe_cfg (nd_fe n)) \<and> fe_pool (nd_fe n) = j \<and>
     BackendAddr ss = srv_Address (p_servers (ss_pools (sy_sh s) ! j) ! i)}"

lemma bound_sessions_callbacks:
  assumes "counts_ok s" "j < length (ss_pools (sy_sh s))" "i < length (p_servers (ss_pools (sy_sh s) ! j))"
  shows "{k. \<exists>ss. tb_abs (ss_sessions (sy_sh s)) k = Some ss \<and> callEvict ss = Some (j, i)} = bound_sessions s j i"
proof (rule set_eqI)
  fix k
  let ?sh = "sy_sh s"
  have wf: "pool_wf (ss_pools ?sh ! j)" and dist: "distinct (addresses (ss_pools ?sh ! j))"
    using assms(1,2) nth_mem [OF assms(2)] by (auto simp: counts_ok_def sys_ok_def pool_ok_def)
  have look: "ServerByAddr (ss_pools ?sh ! j) a = Some i \<longleftrightarrow> a = srv_Address (p_servers (ss_pools ?sh ! j) ! i)" for a
  proof
    assume "ServerByAddr (ss_pools ?sh ! j) a = Some i"
    then show "a = srv_Address (p_servers (ss_pools ?sh ! j) ! i)" using wf unfolding ServerByAddr_def pool_wf_def by blast
  next
    assume "a = srv_Address (p_servers (ss_pools ?sh ! j) ! i)"
    then show "ServerByAddr (ss_pools ?sh ! j) a = Some i" using pool_wf_lookup [OF wf dist assms(3)] by (simp add: ServerByAddr_def)
  qed
  have bound: "\<exists>n \<in> set (sy_nodes s). fc_Name (fe_cfg (nd_fe n)) = k_FrontendName k \<and> session_ok (ss_pools ?sh) (site (nd_fe n)) ss"
    if some: "tb_abs (ss_sessions ?sh) k = Some ss" for ss
  proof -
    obtain st where st: "st \<in> set (sites s)" "fc_Name (fst st) = k_FrontendName k" "session_ok (ss_pools ?sh) st ss"
      using assms(1) some unfolding counts_ok_def conn_ok_def by blast
    from st(1) obtain n where n: "n \<in> set (sy_nodes s)" "st = site (nd_fe n)" by auto
    have "fc_Name (fe_cfg (nd_fe n)) = k_FrontendName k" using st(2) n(2) by (simp add: site_def)
    then show ?thesis using st(3) n by blast
  qed
  have uniq: "session_ok (ss_pools ?sh) (site (nd_fe n)) ss"
    if n: "n \<in> set (sy_nodes s)" "fc_Name (fe_cfg (nd_fe n)) = k_FrontendName k" "tb_abs (ss_sessions ?sh) k = Some ss" for n ss
  proof -
    obtain n' where n': "n' \<in> set (sy_nodes s)" "fc_Name (fe_cfg (nd_fe n')) = k_FrontendName k"
        "session_ok (ss_pools ?sh) (site (nd_fe n')) ss" using bound [OF n(3)] by blast
    have "site (nd_fe n') = site (nd_fe n)"
      by (rule site_unique [of "sites s"]) (use assms(1) n n' in \<open>auto simp: counts_ok_def site_def\<close>)
    then show ?thesis using n'(3) by simp
  qed
  show "k \<in> {k. \<exists>ss. tb_abs (ss_sessions ?sh) k = Some ss \<and> callEvict ss = Some (j, i)} \<longleftrightarrow> k \<in> bound_sessions s j i"
  proof
    assume "k \<in> {k. \<exists>ss. tb_abs (ss_sessions ?sh) k = Some ss \<and> callEvict ss = Some (j, i)}"
    then obtain ss where ss: "tb_abs (ss_sessions ?sh) k = Some ss" "callEvict ss = Some (j, i)" by blast
    then obtain n where n: "n \<in> set (sy_nodes s)" "fc_Name (fe_cfg (nd_fe n)) = k_FrontendName k"
        "session_ok (ss_pools ?sh) (site (nd_fe n)) ss" using bound by blast
    then have "fc_SessionAffinity (fe_cfg (nd_fe n))" "fe_pool (nd_fe n) = j" "ServerByAddr (ss_pools ?sh ! j) (BackendAddr ss) = Some i"
      using ss(2) by (auto simp: session_ok_def site_def split: if_splits)
    then show "k \<in> bound_sessions s j i" using ss(1) n(1,2) look unfolding bound_sessions_def by blast
  next
    assume "k \<in> bound_sessions s j i"
    then obtain ss n where ss: "tb_abs (ss_sessions ?sh) k = Some ss" "n \<in> set (sy_nodes s)"
        "fc_Name (fe_cfg (nd_fe n)) = k_FrontendName k" "fc_SessionAffinity (fe_cfg (nd_fe n))" "fe_pool (nd_fe n) = j"
        "BackendAddr ss = srv_Address (p_servers (ss_pools ?sh ! j) ! i)" by (auto simp: bound_sessions_def)
    then obtain i' where i': "ServerByAddr (ss_pools ?sh ! j) (BackendAddr ss) = Some i'" "callEvict ss = Some (j, i')"
      using uniq [OF ss(2,3,1)] by (auto simp: session_ok_def site_def)
    have "i' = i" using i'(1) look [THEN iffD2, OF ss(6)] by simp
    then show "k \<in> {k. \<exists>ss. tb_abs (ss_sessions ?sh) k = Some ss \<and> callEvict ss = Some (j, i)}" using ss(1) i'(2) by blast
  qed
qed

definition conns_init :: "sys \<Rightarrow> bool" where
  "conns_init s \<longleftrightarrow> sys_init s \<and> distinct (map (\<lambda>n. fc_Name (fe_cfg (nd_fe n))) (sy_nodes s)) \<and>
     (\<forall>p \<in> set (ss_pools (sy_sh s)). distinct (addresses p) \<and> (\<forall>srv \<in> set (p_servers p). srv_connCount srv = 0)) \<and>
     (\<exists>d c. ss_sessions (sy_sh s) = NewTable d c)"

lemma tb_abs_NewTable: "tb_abs (NewTable d c) = Map.empty"
  by (auto simp: tb_abs_def Get_def NewTable_def fun_eq_iff shardFor_bound)

lemma conns_init_ok:
  assumes "conns_init s"
  shows "counts_ok s"
proof -
  obtain d c where tb: "ss_sessions (sy_sh s) = NewTable d c" using assms by (auto simp: conns_init_def)
  have "srv_connCount (p_servers (ss_pools (sy_sh s) ! j) ! i) = 0"
    if "j < length (ss_pools (sy_sh s))" "i < length (p_servers (ss_pools (sy_sh s) ! j))" for j i
    using assms nth_mem [OF that(1)] nth_mem [OF that(2)] unfolding conns_init_def by blast
  then have "conn_ok (sites s) (sy_sh s)"
    by (simp add: conn_ok_def tb NewTable_wf tb_abs_NewTable exact_conns_def conns_def bound_def)
  then show ?thesis using assms sys_init_ok [of s] by (simp add: counts_ok_def conns_init_def site_def comp_def)
qed

lemma counts_ok_conns:
  assumes "counts_ok s" "j < length (ss_pools (sy_sh s))" "i < length (p_servers (ss_pools (sy_sh s) ! j))"
  shows "srv_connCount (p_servers (ss_pools (sy_sh s) ! j) ! i) = of_nat (card (bound_sessions s j i))"
proof -
  have "conns (sy_sh s) j i = of_nat (bound (tb_abs (ss_sessions (sy_sh s))) (j, i))"
    using assms by (simp add: counts_ok_def conn_ok_def exact_conns_def)
  then show ?thesis by (simp add: conns_def bound_def bound_sessions_callbacks [OF assms])
qed

text \<open>C5: connection counts are exact when iterations do not overlap.  With different frontend names, different
  server addresses in every pool and weights that fit, and with every iteration of a goroutine
  taken as one step, in every state reachable from the start the connection count of a server is
  the number of live sessions that frontends with session affinity have bound to it (modulo
  \<open>2^64\<close>), through creation, fail-over, eviction and health changes.  Two fail-overs of one
  session that overlap inside \<^verbatim>\<open>forward\<close> do make the counts drift (theory \<open>Overlap\<close>,
  \<open>failovers_drift\<close>).\<close>

theorem connections_exact:
  assumes "conns_init s0" and "run_of sys_step s0 tr s"
    and "j < length (ss_pools (sy_sh s))" and "i < length (p_servers (ss_pools (sy_sh s) ! j))"
  shows "srv_connCount (p_servers (ss_pools (sy_sh s) ! j) ! i) = of_nat (card (bound_sessions s j i))"
  by (rule counts_ok_conns [OF countsOk.run_keeps [OF assms(2) conns_init_ok [OF assms(1)]] assms(3,4)])

lemma test_conns_init: "conns_init test_sys"
proof -
  have "distinct (addresses (test_pool ''hash''))" by (rule test_pool_wf)
  then show ?thesis
    using test_init by (auto simp: conns_init_def test_sys_def test_shared_def test_pool_defs)
qed

theorem connections_exact_witness:
  "srv_connCount (p_servers (ss_pools (sy_sh test_sys2) ! 0) ! 0) = of_nat (card (bound_sessions test_sys2 0 0))"
proof -
  have "ss_pools (sy_sh test_sys2) = [test_pool ''hash'']"
    by (simp add: test_sys2_def Let_def readLoop_def fillBuf_def admit_def allowShaped_def Allow_opt_def Allow_client_def
        allowAbuse_def overSessionCap_def test_frontend_def test_shared_def Frontend_New_def)
  then show ?thesis by (intro connections_exact [OF test_conns_init test_sys_run]) (simp_all add: test_pool_def)
qed

end
