(* ===== verification/Sockets.thy ===== *)
theory Sockets
  imports Frontend
begin

text \<open>
  The \<^verbatim>\<open>newListenConfig\<close> hooks of \<^verbatim>\<open>src/internal/frontend/socket_linux.go\<close>,
  \<^verbatim>\<open>socket_other.go\<close> and \<^verbatim>\<open>socket_windows.go\<close>: which options are set on a socket before it is
  bound, and which error the hook reports.  What the kernel answers to \<^verbatim>\<open>setsockopt\<close> is an
  argument.
\<close>

datatype sockOpt = SO_RCVBUF | SO_SNDBUF | SO_REUSEPORT

text \<open>The options set so far, in order, and \<^verbatim>\<open>lastErr\<close> (the option whose call failed last).\<close>

type_synonym hookState = "(sockOpt \<times> int) list \<times> sockOpt option"

definition setsockopt :: "(sockOpt \<Rightarrow> int \<Rightarrow> bool) \<Rightarrow> bool \<Rightarrow> sockOpt \<Rightarrow> int \<Rightarrow> hookState \<Rightarrow> hookState" where
  "setsockopt accept wanted opt v h =
     (if wanted then (fst h @ [(opt, v)], if accept opt v then snd h else Some opt) else h)"

definition control_linux :: "(sockOpt \<Rightarrow> int \<Rightarrow> bool) \<Rightarrow> socketConfig \<Rightarrow> hookState" where
  "control_linux accept sc =
     setsockopt accept (so_ReusePort sc) SO_REUSEPORT 1
       (setsockopt accept (so_SndBuf sc > 0) SO_SNDBUF (so_SndBuf sc)
         (setsockopt accept (so_RcvBuf sc > 0) SO_RCVBUF (so_RcvBuf sc) ([], None)))"

definition control_other :: "(sockOpt \<Rightarrow> int \<Rightarrow> bool) \<Rightarrow> socketConfig \<Rightarrow> hookState" where
  "control_other accept sc =
     setsockopt accept (so_SndBuf sc > 0) SO_SNDBUF (so_SndBuf sc)
       (setsockopt accept (so_RcvBuf sc > 0) SO_RCVBUF (so_RcvBuf sc) ([], None))"

definition control_windows :: "(sockOpt \<Rightarrow> int \<Rightarrow> bool) \<Rightarrow> socketConfig \<Rightarrow> hookState" where
  "control_windows accept sc =
     setsockopt accept (so_SndBuf sc > 0) SO_SNDBUF (so_SndBuf sc)
       (setsockopt accept (so_RcvBuf sc > 0) SO_RCVBUF (so_RcvBuf sc) ([], None))"

text \<open>\<^verbatim>\<open>ListenPacket\<close> runs the hook on the new socket and binds it only if the hook reports no error;
  whether the kernel then lets socket \<open>i\<close> bind depends on the options it got.\<close>

definition ListenPacket ::
  "(socketConfig \<Rightarrow> hookState) \<Rightarrow> (nat \<Rightarrow> (sockOpt \<times> int) list \<Rightarrow> bool) \<Rightarrow> socketConfig \<Rightarrow> nat \<Rightarrow> bool" where
  "ListenPacket control bindOk sc i = (let (opts, err) = control sc in err = None \<and> bindOk i opts)"

lemma setsockopt_simps:
  "fst (setsockopt accept w opt v h) = fst h @ (if w then [(opt, v)] else [])"
  "snd (setsockopt accept w opt v h) = None \<longleftrightarrow> snd h = None \<and> (w \<longrightarrow> accept opt v)"
  by (auto simp: setsockopt_def)

text \<open>The options a configuration asks for.\<close>

definition wanted_options :: "socketConfig \<Rightarrow> (sockOpt \<times> int) list" where
  "wanted_options sc = (if so_RcvBuf sc > 0 then [(SO_RCVBUF, so_RcvBuf sc)] else []) @
     (if so_SndBuf sc > 0 then [(SO_SNDBUF, so_SndBuf sc)] else []) @
     (if so_ReusePort sc then [(SO_REUSEPORT, 1)] else [])"

lemma control_linux_exact:
  "fst (control_linux accept sc) = wanted_options sc"
  "snd (control_linux accept sc) = None \<longleftrightarrow> list_all (\<lambda>(opt, v). accept opt v) (wanted_options sc)"
  by (auto simp: control_linux_def setsockopt_simps wanted_options_def)

lemma control_other_exact:
  "fst (control_other accept sc) = filter (\<lambda>(opt, _). opt \<noteq> SO_REUSEPORT) (wanted_options sc)"
  "snd (control_other accept sc) = None \<longleftrightarrow>
     list_all (\<lambda>(opt, v). accept opt v) (filter (\<lambda>(opt, _). opt \<noteq> SO_REUSEPORT) (wanted_options sc))"
  "control_windows = control_other"
  by (auto simp: control_other_def control_windows_def setsockopt_simps wanted_options_def fun_eq_iff)

text \<open>The sockets of \<^verbatim>\<open>Start\<close> under a control hook: the listeners, whose binds the kernel judges by \<open>bindOk\<close>, and the send
  socket, which goes through the same hook and asks for any free port.\<close>

definition hooked ::
  "(socketConfig \<Rightarrow> hookState) \<Rightarrow> (nat \<Rightarrow> (sockOpt \<times> int) list \<Rightarrow> bool) \<Rightarrow> ((sockOpt \<times> int) list \<Rightarrow> bool) \<Rightarrow> socketConfig \<Rightarrow> startIO \<Rightarrow> startIO" where
  "hooked control bindOk sendOk sc io =
     io\<lparr>st_listen := ListenPacket control bindOk sc, st_send := ListenPacket control (\<lambda>_. sendOk) sc 0\<rparr>"

text \<open>C40: socket options and listeners under \<^verbatim>\<open>reuse_port\<close> with several workers.  Take a kernel that accepts every
  option and every free send port, and lets a further socket bind the listen port exactly when
  the socket has \<^verbatim>\<open>SO_REUSEPORT\<close>.  On Linux the hook sets exactly the configured options.  With a
  fixed listen port \<^verbatim>\<open>Start\<close> then binds one listener per worker on Linux; on other platforms
  \<^verbatim>\<open>reuse_port\<close> is never applied to the sockets but still makes \<^verbatim>\<open>Start\<close> open one listener per worker,
  so the frontend does not start.  With port 0 every platform refuses to start.\<close>

theorem reuse_port_listeners:
  assumes "so_ReusePort sc" and "workerCount > 1"
    and share: "\<And>i opts. bindOk i opts \<longleftrightarrow> i = 0 \<or> (SO_REUSEPORT, 1) \<in> set opts"
    and accepts: "\<And>opt v. accept opt v" and resolve: "st_resolve io = Some port" and send: "\<And>opts. sendOk opts"
  shows "control_linux accept sc = (wanted_options sc, None) \<and>
    (port \<noteq> 0 \<longrightarrow>
      (\<exists>f' rs. Start (hooked (control_linux accept) bindOk sendOk sc io) workerCount sc f = Inr (f', rs) \<and>
         fe_listenConns f' = nat workerCount) \<and>
      (\<forall>control \<in> {control_other, control_windows}.
         Start (hooked (control accept) bindOk sendOk sc io) workerCount sc f = Inl (ListenError (fc_Name (fe_cfg f))))) \<and>
    (port = 0 \<longrightarrow> (\<forall>control. Start (hooked control bindOk sendOk sc io) workerCount sc f = Inl (EphemeralPort (fc_Name (fe_cfg f)))))"
proof -
  have linux: "ListenPacket (control_linux accept) bindOk sc i" "ListenPacket (control_linux accept) (\<lambda>_. sendOk) sc i" for i
    using assms(1) accepts control_linux_exact [of accept sc] share send
    by (simp_all add: ListenPacket_def split_beta Let_def wanted_options_def list_all_iff)
  have other: "\<not> ListenPacket (control_other accept) bindOk sc 1"
    using control_other_exact(1) [of accept sc] share by (auto simp: ListenPacket_def split_beta Let_def)
  have n: "numListeners workerCount sc = nat workerCount" "1 < nat workerCount"
    using assms(1,2) by (simp_all add: numListeners_def)
  have "\<not> list_all (ListenPacket (control_other accept) bindOk sc) [0..<nat workerCount]"
    using other n(2) by (auto simp: list_all_iff)
  moreover have "control_linux accept sc = (wanted_options sc, None)"
    using control_linux_exact [of accept sc] accepts by (simp add: prod_eq_iff list_all_iff)
  ultimately show ?thesis using assms(2) resolve n linux
    by (simp add: Start_def hooked_def Let_def list_all_iff control_other_exact(3))
qed

theorem reuse_port_listeners_witness:
  "Start (hooked (control_other (\<lambda>_ _. True)) (\<lambda>i opts. i = 0 \<or> (SO_REUSEPORT, 1) \<in> set opts) (\<lambda>_. True)
       \<lparr>so_RcvBuf = 0, so_SndBuf = 0, so_ReusePort = True\<rparr>
       \<lparr>st_resolve = Some 53, st_listen = (\<lambda>_. True), st_enable = (\<lambda>_. True), st_send = True\<rparr>)
     4 \<lparr>so_RcvBuf = 0, so_SndBuf = 0, so_ReusePort = True\<rparr>
     (Frontend_New \<lparr>fc_Name = ''dns'', fc_Listen = '':53'', fc_Backend = ''b'', fc_SessionAffinity = False, fc_MaxSessions = 0,
        fc_MaxPacketSize = 0, fc_Priority = ''normal'', fc_TrafficShaping = \<lparr>ts_Enabled = False, ts_PacketsPerSecond = 0,
        ts_BytesPerSecond = 0, ts_BurstPackets = 0, ts_BurstBytes = 0\<rparr>\<rparr> 0 1500 None False) = Inl (ListenError ''dns'')"
  using reuse_port_listeners [of "\<lparr>so_RcvBuf = 0, so_SndBuf = 0, so_ReusePort = True\<rparr>" 4
      "\<lambda>i opts. i = 0 \<or> (SO_REUSEPORT, 1) \<in> set opts" "\<lambda>_ _. True"
      "\<lparr>st_resolve = Some 53, st_listen = (\<lambda>_. True), st_enable = (\<lambda>_. True), st_send = True\<rparr>" 53 "\<lambda>_. True"]
  by (simp add: Frontend_New_def)

end
