(* ===== verification/Proxy.thy ===== *)
theory Proxy
  imports Conns Sockets "HOL-Library.Sublist"
begin

text \<open>
  \<^verbatim>\<open>src/internal/proxy/proxy.go\<close>, \<^verbatim>\<open>src/pkg/logger/logger.go\<close> and \<^verbatim>\<open>src/cmd/udp-proxy/main.go\<close>: how the
  proxy is put together from a configuration, started, stopped, reloaded and run.  The record
  \<open>proxy\<close> has the fields of the struct; pools are reached by index, so the map \<^verbatim>\<open>backends\<close> leads to
  indices of \<open>px_pools\<close>, and the limiters that \<^verbatim>\<open>start\<close> creates and hands to the frontends are
  \<open>px_limiters\<close>.  Files, resolver, listeners and clocks are arguments.
\<close>

section \<open>Logger\<close>

datatype level = LevelDebug | LevelInfo | LevelWarn | LevelError

definition Logger_New :: "string \<Rightarrow> level" where
  "Logger_New l =
     (let s = ToLower l in
      if s = ''debug'' then LevelDebug
      else if s = ''warn'' \<or> s = ''warning'' then LevelWarn
      else if s = ''error'' then LevelError
      else LevelInfo)"

section \<open>State\<close>

record limiters =
  lm_global :: "bucket option"
  lm_client :: "clientLimiter option"
  lm_abuse :: "protector option"
  lm_backends :: "bucket option list"

record proxy =
  px_configPath :: string
  px_cfg :: config
  px_log :: level
  px_counters :: counters
  px_metrics :: "shared metricsServer option"
  px_frontends :: "frontend list"
  px_backends :: "(string \<times> nat) list"
  px_pools :: "pool list"
  px_sessions :: "evictCb table option"
  px_limiters :: limiters
  px_hcCancel :: bool
  px_checkers :: "nat list"

definition noLimiters :: limiters where
  "noLimiters = \<lparr>lm_global = None, lm_client = None, lm_abuse = None, lm_backends = []\<rparr>"

definition Proxy_New ::
  "(string \<Rightarrow> string + 'data) \<Rightarrow> ('data \<Rightarrow> string + config) \<Rightarrow> string \<Rightarrow> loadError + proxy" where
  "Proxy_New read_file unmarshal path =
     (case Load read_file unmarshal path of
        Inl e \<Rightarrow> Inl e
      | Inr cfg \<Rightarrow> Inr \<lparr>px_configPath = path, px_cfg = cfg, px_log = Logger_New (g_LogLevel (c_Global cfg)),
          px_counters = zeroCounters, px_metrics = None, px_frontends = [], px_backends = [], px_pools = [],
          px_sessions = None, px_limiters = noLimiters, px_hcCancel = False, px_checkers = []\<rparr>)"

section \<open>Starting\<close>

text \<open>What the outside answers to one \<^verbatim>\<open>start\<close>: the resolver, whether the metrics address can be bound,
  the order in which Go's \<^verbatim>\<open>range\<close> visits the map of pools, what the sockets of each frontend do, and
  the clock readings of the new buckets.\<close>

record proxyIO =
  pi_resolver :: resolver
  pi_listen :: "string \<Rightarrow> bool"
  pi_order :: "(string \<times> nat) list \<Rightarrow> (string \<times> nat) list"
  pi_frontend :: "frontendConfig \<Rightarrow> startIO"
  pi_tGlobal :: time
  pi_tBackend :: "nat \<Rightarrow> time"
  pi_tFrontend :: "nat \<Rightarrow> time"

datatype proxyError =
    PoolError poolError
  | MetricsError string
  | PriorityError string string
  | NoSuchBackend string string
  | FrontendError startError

definition limitsFromTrafficConfig :: "trafficShapingConfig \<Rightarrow> limits" where
  "limitsFromTrafficConfig cfg =
     \<lparr>Enabled = ts_Enabled cfg, PacketsPerSecond = ts_PacketsPerSecond cfg, BytesPerSecond = ts_BytesPerSecond cfg,
      BurstPackets = ts_BurstPackets cfg, BurstBytes = ts_BurstBytes cfg\<rparr>"

fun buildPools :: "resolver \<Rightarrow> backendConfig list \<Rightarrow> proxy \<Rightarrow> proxyError option \<times> proxy" where
  "buildPools R [] p = (None, p)"
| "buildPools R (b # bs) p =
     (case NewPool R b of
        Inl e \<Rightarrow> (Some (PoolError e), p)
      | Inr pool \<Rightarrow> buildPools R bs (p\<lparr>px_pools := px_pools p @ [pool],
          px_backends := AList.update (bc_Name b) (length (px_pools p)) (px_backends p)\<rparr>))"

definition startMetrics :: "proxyIO \<Rightarrow> proxy \<Rightarrow> proxyError option \<times> proxy" where
  "startMetrics io p =
     (let m0 = Metrics_New (g_MetricsAddr (c_Global (px_cfg p)));
          m1 = foldl (\<lambda>m (_, i). RegisterBackend (\<lambda>sh. poolStatus (ss_pools sh ! i)) m) m0 (pi_order io (px_backends p));
          m2 = RegisterSessionCount (\<lambda>sh. Table_Count (ss_sessions sh)) m1
      in case Metrics_Start (pi_listen io) m2 of
           Inl e \<Rightarrow> (Some (MetricsError e), p\<lparr>px_metrics := Some m2\<rparr>)
         | Inr m \<Rightarrow> (None, p\<lparr>px_metrics := Some m\<rparr>))"

text \<open>One checker goroutine per configured backend, on the pool the map has under its name.\<close>

definition startCheckers :: "proxy \<Rightarrow> proxy" where
  "startCheckers p = p\<lparr>px_hcCancel := True,
     px_checkers := px_checkers p @ map (\<lambda>b. the (map_of (px_backends p) (bc_Name b))) (c_Backends (px_cfg p))\<rparr>"

definition newLimiters :: "proxyIO \<Rightarrow> config \<Rightarrow> limiters" where
  "newLimiters io cfg =
     (let g = c_Global cfg in
      \<lparr>lm_global = NewBucket (limitsFromTrafficConfig (g_TrafficShaping g)) (pi_tGlobal io),
       lm_client = NewClientLimiter \<lparr>Enabled = False, PacketsPerSecond = cc_PacketsPerSecond (g_ClientLimits g),
         BytesPerSecond = 0, BurstPackets = cc_BurstPackets (g_ClientLimits g), BurstBytes = 0\<rparr> (g_SessionTimeout g),
       lm_abuse = Abuse_New \<lparr>ab_Enabled = ac_Enabled (g_AbuseProtection g),
         ab_MaxPacketsPerSecond = ac_MaxPacketsPerSecondPerIP (g_AbuseProtection g),
         ab_MaxSessionsPerClient = ac_MaxSessionsPerIP (g_AbuseProtection g), ab_SessionTTL = g_SessionTimeout g\<rparr>,
       lm_backends = map (\<lambda>(i, b). NewBucket (limitsFromTrafficConfig (bc_TrafficShaping b)) (pi_tBackend io i))
         (enumerate 0 (c_Backends cfg))\<rparr>)"

fun parsePriorities :: "frontendConfig list \<Rightarrow> proxyError + (frontendConfig \<times> priority) list" where
  "parsePriorities [] = Inr []"
| "parsePriorities (fc # fcs) =
     (case ParsePriority (fc_Priority fc) of
        Inl e \<Rightarrow> Inl (PriorityError (fc_Name fc) e)
      | Inr pv \<Rightarrow> (case parsePriorities fcs of Inl e \<Rightarrow> Inl e | Inr rest \<Rightarrow> Inr ((fc, pv) # rest)))"

text \<open>\<^verbatim>\<open>sort.SliceStable\<close> by descending priority.\<close>

definition orderFrontends :: "(frontendConfig \<times> priority) list \<Rightarrow> (frontendConfig \<times> priority) list" where
  "orderFrontends fs = sort_key (\<lambda>(_, pv). - uint pv) fs"

definition workersFor :: "int \<Rightarrow> priority \<Rightarrow> int" where
  "workersFor threads pv =
     (let w = wrap64 (threads * WorkerMultiplier pv) sdiv WorkerMultiplier PriorityNormal in if w < 1 then 1 else w)"

fun startFrontends :: "proxyIO \<Rightarrow> nat \<Rightarrow> (frontendConfig \<times> priority) list \<Rightarrow> proxy \<Rightarrow> proxyError option \<times> proxy" where
  "startFrontends io k [] p = (None, p)"
| "startFrontends io k ((fc, pv) # rest) p =
     (case map_of (px_backends p) (fc_Backend fc) of
        None \<Rightarrow> (Some (NoSuchBackend (fc_Name fc) (fc_Backend fc)), p)
      | Some i \<Rightarrow>
          (let g = c_Global (px_cfg p);
               fe = Frontend_New fc i (g_MaxPacketSize g)
                      (NewBucket (limitsFromTrafficConfig (fc_TrafficShaping fc)) (pi_tFrontend io k))
                      (fr_DropFragments (g_Fragmentation g))
           in case Start (pi_frontend io fc) (workersFor (g_WorkerThreads g) pv) (g_Socket g) fe of
                Inl e \<Rightarrow> (Some (FrontendError e), p)
              | Inr (fe', readers) \<Rightarrow> startFrontends io (Suc k) rest (p\<lparr>px_frontends := px_frontends p @ [fe']\<rparr>)))"

definition start :: "proxyIO \<Rightarrow> proxy \<Rightarrow> proxyError option \<times> proxy" where
  "start io p =
     (let cfg = px_cfg p in
      case buildPools (pi_resolver io) (c_Backends cfg) p of
        (Some e, p1) \<Rightarrow> (Some e, p1)
      | (None, p1) \<Rightarrow>
          (case startMetrics io (p1\<lparr>px_sessions := Some (NewTable (g_SessionTimeout (c_Global cfg))
                 (g_SessionCleanupInterval (c_Global cfg)))\<rparr>) of
             (Some e, p2) \<Rightarrow> (Some e, p2)
           | (None, p2) \<Rightarrow>
               (let p3 = (startCheckers p2)\<lparr>px_limiters := newLimiters io cfg\<rparr> in
                case parsePriorities (c_Frontends cfg) of
                  Inl e \<Rightarrow> (Some e, p3)
                | Inr fs \<Rightarrow> startFrontends io 0 (orderFrontends fs) p3)))"

section \<open>Stopping, reloading, running\<close>

definition stop :: "proxy \<Rightarrow> proxy" where
  "stop p = p\<lparr>px_frontends := map Frontend_Stop (px_frontends p),
     px_checkers := (if px_hcCancel p then [] else px_checkers p),
     px_metrics := map_option Metrics_Stop (px_metrics p), px_sessions := map_option Stop (px_sessions p)\<rparr>"

datatype reloadError = ReloadLoad loadError | ReloadStart proxyError

definition reload ::
  "(string \<Rightarrow> string + 'data) \<Rightarrow> ('data \<Rightarrow> string + config) \<Rightarrow> proxyIO \<Rightarrow> proxy \<Rightarrow> reloadError option \<times> proxy" where
  "reload read_file unmarshal io p =
     (case Load read_file unmarshal (px_configPath p) of
        Inl e \<Rightarrow> (Some (ReloadLoad e), p)
      | Inr newCfg \<Rightarrow>
          (let p1 = stop p;
               p2 = p1\<lparr>px_cfg := newCfg, px_log := Logger_New (g_LogLevel (c_Global newCfg)), px_frontends := [],
                       px_backends := [], px_pools := [], px_counters := zeroCounters\<rparr>;
               (e, p3) = start io p2
           in (map_option ReloadStart e, p3)))"

text \<open>The signals \<^verbatim>\<open>Run\<close> is notified of; a hang-up comes with the state of the outside its reload
  meets.\<close>

datatype 'data signal = SIGHUP "string \<Rightarrow> string + 'data" proxyIO | SIGINT | SIGTERM

text \<open>The loop over the signal channel: whether a shutdown signal ended it, and the proxy then.\<close>

fun signalLoop :: "('data \<Rightarrow> string + config) \<Rightarrow> 'data signal list \<Rightarrow> proxy \<Rightarrow> bool \<times> proxy" where
  "signalLoop unmarshal [] p = (False, p)"
| "signalLoop unmarshal (SIGHUP read_file io # sigs) p =
     signalLoop unmarshal sigs (snd (reload read_file unmarshal io p))"
| "signalLoop unmarshal (_ # sigs) p = (True, p)"

text \<open>\<^verbatim>\<open>Run\<close>: the error of the first \<^verbatim>\<open>start\<close>, still running after the signals so far, or stopped.\<close>

datatype runResult = RunError proxyError proxy | Running proxy | RunDone proxy

definition Run :: "('data \<Rightarrow> string + config) \<Rightarrow> proxyIO \<Rightarrow> 'data signal list \<Rightarrow> proxy \<Rightarrow> runResult" where
  "Run unmarshal io sigs p =
     (case start io p of
        (Some e, p1) \<Rightarrow> RunError e p1
      | (None, p1) \<Rightarrow>
          (let (shutdown, p2) = signalLoop unmarshal sigs p1 in if shutdown then RunDone (stop p2) else Running p2))"

text \<open>\<^verbatim>\<open>main\<close> after flag parsing: its exit code, or \<^const>\<open>None\<close> while the proxy runs.\<close>

definition main ::
  "(string \<Rightarrow> string + 'data) \<Rightarrow> ('data \<Rightarrow> string + config) \<Rightarrow> proxyIO \<Rightarrow> 'data signal list \<Rightarrow> string \<Rightarrow> bool \<Rightarrow> nat option" where
  "main read_file unmarshal io sigs configPath showVersion =
     (if showVersion then Some 0
      else if configPath = '''' then Some 1
      else case Proxy_New read_file unmarshal configPath of
        Inl e \<Rightarrow> Some 1
      | Inr p \<Rightarrow> (case Run unmarshal io sigs p of RunError _ _ \<Rightarrow> Some 1 | Running _ \<Rightarrow> None | RunDone _ \<Rightarrow> Some 0))"

section \<open>The lifecycle\<close>

text \<open>Nothing of the proxy is at work: its frontends are stopped, its checkers have returned, its metrics
  server is closed and its session reaper has ended.\<close>

definition quiet :: "proxy \<Rightarrow> bool" where
  "quiet p \<longleftrightarrow> list_all fe_stopped (px_frontends p) \<and> px_checkers p = [] \<and>
     (\<forall>m. px_metrics p = Some m \<longrightarrow> \<not> ms_serving m) \<and> (\<forall>t. px_sessions p = Some t \<longrightarrow> tb_stopped t)"

text \<open>Running checkers can be cancelled.\<close>

definition cancellable :: "proxy \<Rightarrow> bool" where
  "cancellable p \<longleftrightarrow> (px_checkers p \<noteq> [] \<longrightarrow> px_hcCancel p)"

lemma buildPools_frame:
  "buildPools R bs p = (e, p') \<Longrightarrow> \<exists>ps bm. p' = p\<lparr>px_pools := ps, px_backends := bm\<rparr>"
proof (induction bs arbitrary: p)
  case Nil
  then have "p' = p\<lparr>px_pools := px_pools p, px_backends := px_backends p\<rparr>" by simp
  then show ?case by blast
next
  case (Cons b bs)
  show ?case
  proof (cases "NewPool R b")
    case (Inl x)
    then have "p' = p\<lparr>px_pools := px_pools p, px_backends := px_backends p\<rparr>" using Cons.prems by simp
    then show ?thesis by blast
  next
    case (Inr pool)
    then show ?thesis using Cons.IH Cons.prems by fastforce
  qed
qed

lemma startFrontends_frame:
  "startFrontends io k fs p = (e, p') \<Longrightarrow> \<exists>new. p' = p\<lparr>px_frontends := px_frontends p @ new\<rparr>"
proof (induction fs arbitrary: p k)
  case Nil
  then have "p' = p\<lparr>px_frontends := px_frontends p @ []\<rparr>" by simp
  then show ?case by blast
next
  case (Cons x fs)
  obtain fc pv where x: "x = (fc, pv)" by fastforce
  have same: "\<exists>new. p' = p\<lparr>px_frontends := px_frontends p @ new\<rparr>" if "p' = p"
    using that by (intro exI [of _ "[]"]) simp
  show ?case
    using Cons.prems same Cons.IH
    by (fastforce simp: x Let_def split: option.splits sum.splits prod.splits)
qed

lemma startFrontends_error: "startFrontends io k fs p = (e, p') \<Longrightarrow> e \<noteq> Some (PoolError x)"
proof (induction fs arbitrary: p k)
  case (Cons y fs)
  obtain fc pv where y: "y = (fc, pv)" by fastforce
  then show ?case using Cons by (auto simp: Let_def split: option.splits sum.splits prod.splits)
qed simp

lemma parsePriorities_error: "parsePriorities fcs \<noteq> Inl (PoolError x)"
  by (induction fcs) (auto split: sum.splits)

text \<open>How far a \<^verbatim>\<open>start\<close> gets.\<close>

lemma start_cases:
  assumes "start io p = (e, p')"
  obtains (pools) x where "buildPools (pi_resolver io) (c_Backends (px_cfg p)) p = (Some x, p')" "e = Some x"
  | (later) ps bm ms q where "buildPools (pi_resolver io) (c_Backends (px_cfg p)) p = (None, p\<lparr>px_pools := ps, px_backends := bm\<rparr>)"
      "q = p\<lparr>px_pools := ps, px_backends := bm, px_sessions := Some (NewTable (g_SessionTimeout (c_Global (px_cfg p)))
         (g_SessionCleanupInterval (c_Global (px_cfg p)))), px_metrics := Some ms\<rparr>"
      "p' = q \<and> (\<exists>y. e = Some (MetricsError y)) \<or>
       (\<exists>y. p' = (startCheckers q)\<lparr>px_limiters := newLimiters io (px_cfg p)\<rparr> \<and> e = Some y \<and>
          parsePriorities (c_Frontends (px_cfg p)) = Inl y) \<or>
       (\<exists>fs. parsePriorities (c_Frontends (px_cfg p)) = Inr fs \<and>
          startFrontends io 0 (orderFrontends fs) ((startCheckers q)\<lparr>px_limiters := newLimiters io (px_cfg p)\<rparr>) = (e, p'))"
proof -
  obtain e1 p1 where b: "buildPools (pi_resolver io) (c_Backends (px_cfg p)) p = (e1, p1)" by fastforce
  obtain ps bm where p1: "p1 = p\<lparr>px_pools := ps, px_backends := bm\<rparr>" using buildPools_frame [OF b] by blast
  define p1' where "p1' = p1\<lparr>px_sessions := Some (NewTable (g_SessionTimeout (c_Global (px_cfg p)))
     (g_SessionCleanupInterval (c_Global (px_cfg p))))\<rparr>"
  obtain e2 p2 where m: "startMetrics io p1' = (e2, p2)" by fastforce
  obtain ms where p2: "p2 = p1'\<lparr>px_metrics := Some ms\<rparr>" and e2: "e2 = None \<or> (\<exists>y. e2 = Some (MetricsError y))"
    using m by (auto simp: startMetrics_def Let_def split: sum.splits)
  note st = assms [unfolded start_def Let_def b split, folded p1'_def]
  show thesis
  proof (cases e1)
    case (Some x)
    then have "e = Some x" "p' = p1" using st by simp_all
    then show thesis using b Some by (intro pools) simp_all
  next
    case None
    note st' = st [unfolded None option.case m split]
    have b': "buildPools (pi_resolver io) (c_Backends (px_cfg p)) p = (None, p\<lparr>px_pools := ps, px_backends := bm\<rparr>)"
      using b None p1 by simp
    have q: "p2 = p\<lparr>px_pools := ps, px_backends := bm, px_sessions := Some (NewTable (g_SessionTimeout (c_Global (px_cfg p)))
         (g_SessionCleanupInterval (c_Global (px_cfg p)))), px_metrics := Some ms\<rparr>"
      by (simp add: p2 p1'_def p1)
    show thesis
      by (rule later [OF b' q]) (use st' e2 in \<open>auto split: option.splits sum.splits\<close>)
  qed
qed

lemma start_frame:
  assumes "start io p = (e, p')"
  shows "px_configPath p' = px_configPath p" "px_cfg p' = px_cfg p" "px_counters p' = px_counters p"
    "cancellable p \<Longrightarrow> cancellable p'"
    "e = Some (PoolError e') \<Longrightarrow> px_frontends p' = px_frontends p \<and> px_checkers p' = px_checkers p \<and>
       px_metrics p' = px_metrics p \<and> px_sessions p' = px_sessions p"
proof -
  have "px_configPath p' = px_configPath p \<and> px_cfg p' = px_cfg p \<and> px_counters p' = px_counters p \<and>
    (cancellable p \<longrightarrow> cancellable p') \<and>
    (e = Some (PoolError e') \<longrightarrow> px_frontends p' = px_frontends p \<and> px_checkers p' = px_checkers p \<and>
       px_metrics p' = px_metrics p \<and> px_sessions p' = px_sessions p)"
    using assms
  proof (cases rule: start_cases)
    case (pools x)
    show ?thesis using buildPools_frame [OF pools(1)] by (auto simp: cancellable_def)
  next
    case (later ps bm ms q)
    have q: "px_configPath q = px_configPath p" "px_cfg q = px_cfg p" "px_counters q = px_counters p"
      "px_checkers q = px_checkers p" "px_hcCancel q = px_hcCancel p" by (simp_all add: later(2))
    have c: "px_configPath (startCheckers q) = px_configPath p" "px_cfg (startCheckers q) = px_cfg p"
      "px_counters (startCheckers q) = px_counters p" "px_hcCancel (startCheckers q)"
      using q by (simp_all add: startCheckers_def)
    from later(3) show ?thesis
    proof (elim disjE exE conjE)
      fix fs
      assume s: "startFrontends io 0 (orderFrontends fs) ((startCheckers q)\<lparr>px_limiters := newLimiters io (px_cfg p)\<rparr>) = (e, p')"
      from startFrontends_frame [OF s] startFrontends_error [OF s, of e'] c show ?thesis by (auto simp: cancellable_def)
    qed (use q c parsePriorities_error in \<open>auto simp: cancellable_def\<close>)
  qed
  then show "px_configPath p' = px_configPath p" "px_cfg p' = px_cfg p" "px_counters p' = px_counters p"
    "cancellable p \<Longrightarrow> cancellable p'"
    "e = Some (PoolError e') \<Longrightarrow> px_frontends p' = px_frontends p \<and> px_checkers p' = px_checkers p \<and>
       px_metrics p' = px_metrics p \<and> px_sessions p' = px_sessions p" by blast+
qed

lemma stop_quiet: "cancellable p \<Longrightarrow> quiet (stop p)"
  by (auto simp: quiet_def stop_def cancellable_def list_all_iff Frontend_Stop_def Metrics_Stop_def Stop_def)

lemma reload_cancellable: "cancellable p \<Longrightarrow> reload rf un io p = (e, p') \<Longrightarrow> cancellable p'"
  using start_frame(4) by (auto simp: reload_def Let_def cancellable_def stop_def split: sum.splits prod.splits)

lemma signalLoop_cancellable:
  "cancellable p \<Longrightarrow> signalLoop un sigs p = (b, p') \<Longrightarrow> cancellable p'"
  by (induction un sigs p rule: signalLoop.induct) (auto intro: reload_cancellable [OF _ surjective_pairing])

lemma signalLoop_ends: "fst (signalLoop un sigs p) \<longleftrightarrow> SIGINT \<in> set sigs \<or> SIGTERM \<in> set sigs"
  by (induction un sigs p rule: signalLoop.induct) auto

text \<open>C10: how \<^verbatim>\<open>Run\<close> ends.  A proxy made from a configuration returns an error from \<^verbatim>\<open>Run\<close> exactly when its
  first start fails; the error is that of the start, and the proxy is left as the failed start
  left it, with nothing stopped.  It returns without an error exactly when its first start
  succeeded and an interrupt or termination signal came, whatever reloads failed before; and then
  all its frontends, health checkers, its metrics server and its session reaper are stopped.
  Otherwise it keeps running.\<close>

theorem Run_stops_everything:
  assumes "Proxy_New read_file unmarshal path = Inr p"
  shows "(\<forall>e q. Run unmarshal io sigs p = RunError e q \<longleftrightarrow> start io p = (Some e, q)) \<and>
    ((\<exists>p'. Run unmarshal io sigs p = RunDone p') \<longleftrightarrow>
      fst (start io p) = None \<and> (SIGINT \<in> set sigs \<or> SIGTERM \<in> set sigs)) \<and>
    (\<forall>p'. Run unmarshal io sigs p = RunDone p' \<longrightarrow> quiet p')"
proof -
  have c: "cancellable p" using assms by (auto simp: Proxy_New_def cancellable_def split: sum.splits)
  obtain e p1 where s: "start io p = (e, p1)" by fastforce
  obtain b p2 where l: "signalLoop unmarshal sigs p1 = (b, p2)" by fastforce
  have "quiet (stop p2)"
    by (rule stop_quiet [OF signalLoop_cancellable [OF start_frame(4) [OF s c] l]])
  moreover have "Run unmarshal io sigs p = (case e of Some x \<Rightarrow> RunError x p1 | None \<Rightarrow> if b then RunDone (stop p2) else Running p2)"
    by (simp add: Run_def s l Let_def split: option.split)
  moreover have "b \<longleftrightarrow> SIGINT \<in> set sigs \<or> SIGTERM \<in> set sigs" using signalLoop_ends [of unmarshal sigs p1] l by simp
  ultimately show ?thesis by (auto simp: s split: option.splits)
qed

text \<open>C12: what a failed reload leaves.  A configuration file that cannot be read, parsed or validated leaves
  the proxy exactly as it was.  But a valid file with a server address that does not resolve
  takes the proxy down: the old components are stopped, no frontend is left and nothing is at
  work.\<close>

theorem reload_failures:
  assumes "cancellable p"
  shows "case Load read_file unmarshal (px_configPath p) of
      Inl e \<Rightarrow> reload read_file unmarshal io p = (Some (ReloadLoad e), p)
    | Inr cfg \<Rightarrow> (\<exists>b \<in> set (c_Backends cfg). \<exists>sc \<in> set (bc_Servers b).
          resolveAddrPort (pi_resolver io) (bc_Name b) (sc_Address sc) \<in> range Inl) \<longrightarrow>
        (let (e, p') = reload read_file unmarshal io p in
         e \<noteq> None \<and> px_cfg p' = cfg \<and> px_frontends p' = [] \<and> quiet p')"
proof (cases "Load read_file unmarshal (px_configPath p)")
  case (Inl e)
  then show ?thesis by (simp add: reload_def)
next
  case (Inr cfg)
  define p2 where "p2 = (stop p)\<lparr>px_cfg := cfg, px_log := Logger_New (g_LogLevel (c_Global cfg)), px_frontends := [],
      px_backends := [], px_pools := [], px_counters := zeroCounters\<rparr>"
  obtain e p3 where s: "start io p2 = (e, p3)" by fastforce
  have q: "quiet p2" using stop_quiet [OF assms] by (simp add: p2_def quiet_def)
  have r: "reload read_file unmarshal io p = (map_option ReloadStart e, p3)"
    unfolding reload_def Inr sum.case Let_def p2_def [symmetric] s by simp
  have fail: "\<exists>x. fst (buildPools R bs q) = Some (PoolError x)" if "\<exists>b \<in> set bs. \<exists>x. NewPool R b = Inl x" for R bs q
    using that by (induction bs arbitrary: q) (auto split: sum.splits)
  have "e \<noteq> None \<and> px_cfg p3 = cfg \<and> px_frontends p3 = [] \<and> quiet p3"
    if bad: "\<exists>b \<in> set (c_Backends cfg). \<exists>sc \<in> set (bc_Servers b).
      resolveAddrPort (pi_resolver io) (bc_Name b) (sc_Address sc) \<in> range Inl"
  proof -
    have "\<exists>b \<in> set (c_Backends cfg). \<exists>x. NewPool (pi_resolver io) b = Inl x"
      using bad NewPool_Inl by fast
    moreover have "c_Backends (px_cfg p2) = c_Backends cfg" by (simp add: p2_def)
    ultimately obtain x where "fst (buildPools (pi_resolver io) (c_Backends (px_cfg p2)) p2) = Some (PoolError x)"
      using fail by metis
    then have e: "e = Some (PoolError x)"
      using s by (cases "buildPools (pi_resolver io) (c_Backends (px_cfg p2)) p2") (auto simp: start_def Let_def)
    have p2: "px_cfg p2 = cfg" "px_frontends p2 = []" by (simp_all add: p2_def)
    have "px_frontends p3 = px_frontends p2" "px_checkers p3 = px_checkers p2" "px_metrics p3 = px_metrics p2"
      "px_sessions p3 = px_sessions p2" using start_frame(5) [OF s e] by blast+
    then show ?thesis using q start_frame(2) [OF s] e p2 by (simp add: quiet_def)
  qed
  then show ?thesis unfolding Inr sum.case r by simp
qed

section \<open>What a start builds\<close>

definition priorityOf :: "frontendConfig \<Rightarrow> priority" where
  "priorityOf fc = (case ParsePriority (fc_Priority fc) of Inr pv \<Rightarrow> pv | Inl _ \<Rightarrow> PriorityNormal)"

text \<open>When the sockets of a frontend come up.\<close>

definition start_ok :: "startIO \<Rightarrow> int \<Rightarrow> socketConfig \<Rightarrow> bool" where
  "start_ok io workers sc \<longleftrightarrow>
     (let n = numListeners (max 1 workers) sc in
      (n > 1 \<longrightarrow> (\<exists>port. st_resolve io = Some port \<and> port \<noteq> 0)) \<and> list_all (st_listen io) [0..<n] \<and> st_send io)"

lemma Start_Inr_iff: "(\<exists>r. Start io w sc f = Inr r) \<longleftrightarrow> start_ok io w sc"
  by (cases "st_resolve io") (auto simp: Start_def start_ok_def Let_def max_def)

lemma Start_frame:
  assumes "Start io w sc f = Inr (f', rs)"
  obtains n a c where "f' = f\<lparr>fe_listenConns := n, fe_fragmentAware := a, fe_workCap := c\<rparr>"
  using assms by (auto simp: Start_def Let_def split: if_splits)

lemma buildPools_None: "fst (buildPools R bs p) = None \<longleftrightarrow> (\<forall>b \<in> set bs. \<exists>pool. NewPool R b = Inr pool)"
  by (induction bs arbitrary: p) (auto split: sum.splits)

lemma buildPools_ok:
  assumes "buildPools R bs p = (None, p')" "distinct (map bc_Name bs)" "bc_Name ` set bs \<inter> fst ` set (px_backends p) = {}"
  shows "px_pools p' = px_pools p @ map (projr \<circ> NewPool R) bs"
    "px_backends p' = px_backends p @ zip (map bc_Name bs) [length (px_pools p)..<length (px_pools p) + length bs]"
  using assms
proof (induction bs arbitrary: p)
  case (Cons b bs)
  case 1
  obtain pool where pool: "NewPool R b = Inr pool" using 1(1) by (cases "NewPool R b") auto
  have fresh: "map_of (px_backends p) (bc_Name b) = None" using 1(3) by (auto simp: map_of_eq_None_iff)
  let ?p = "p\<lparr>px_pools := px_pools p @ [pool], px_backends := px_backends p @ [(bc_Name b, length (px_pools p))]\<rparr>"
  have run: "buildPools R bs ?p = (None, p')" using 1(1) by (simp add: pool update_fresh [OF fresh])
  have d: "distinct (map bc_Name bs)" "bc_Name ` set bs \<inter> fst ` set (px_backends ?p) = {}" using 1(2,3) by auto
  show ?case using Cons.IH(1) [OF run d] by (simp add: pool)
  have "[length (px_pools p)..<length (px_pools p) + length (b # bs)] =
      length (px_pools p) # [Suc (length (px_pools p))..<Suc (length (px_pools p)) + length bs]"
    by (simp add: upt_rec)
  then show "px_backends p' = px_backends p @ zip (map bc_Name (b # bs)) [length (px_pools p)..<length (px_pools p) + length (b # bs)]"
    using Cons.IH(2) [OF run d] by simp
qed simp_all

lemma sort_key_map: "sort_key f (map g xs) = map g (sort_key (f \<circ> g) xs)"
proof -
  have "insort_key f (g x) (map g ys) = map g (insort_key (f \<circ> g) x ys)" for x ys
    by (induction ys) auto
  then show ?thesis by (induction xs) (simp_all add: sort_key_def)
qed

lemma parsePriorities_ok:
  "\<forall>fc \<in> set fcs. \<exists>pv. ParsePriority (fc_Priority fc) = Inr pv \<Longrightarrow>
     parsePriorities fcs = Inr (map (\<lambda>fc. (fc, priorityOf fc)) fcs)"
  by (induction fcs) (auto simp: priorityOf_def)

lemma orderFrontends_map:
  "orderFrontends (map (\<lambda>fc. (fc, priorityOf fc)) fcs) =
     map (\<lambda>fc. (fc, priorityOf fc)) (sort_key (\<lambda>fc. - uint (priorityOf fc)) fcs)"
  by (simp add: orderFrontends_def sort_key_map comp_def)

text \<open>A frontend that \<^verbatim>\<open>start\<close> has just started.\<close>

definition started :: "proxy \<Rightarrow> frontendConfig \<Rightarrow> frontend \<Rightarrow> bool" where
  "started p fc f \<longleftrightarrow> fe_cfg f = fc \<and> map_of (px_backends p) (fc_Backend fc) = Some (fe_pool f) \<and> \<not> fe_stopped f \<and>
     fe_workCh f = [] \<and> fe_free f = [] \<and> fe_mem f = [] \<and> fe_routes f = noRoutes \<and>
     fe_maxPacketSize f = (if fc_MaxPacketSize fc > 0 then fc_MaxPacketSize fc else g_MaxPacketSize (c_Global (px_cfg p)))"

abbreviation starts :: "proxyIO \<Rightarrow> config \<Rightarrow> frontendConfig \<times> priority \<Rightarrow> bool" where
  "starts io cfg x \<equiv> start_ok (pi_frontend io (fst x)) (workersFor (g_WorkerThreads (c_Global cfg)) (snd x)) (g_Socket (c_Global cfg))"

lemma startFrontends_ok:
  assumes "startFrontends io k fs p = (e, p')" "\<forall>x \<in> set fs. fc_Backend (fst x) \<in> dom (map_of (px_backends p))"
  shows "e = None \<longleftrightarrow> list_all (starts io (px_cfg p)) fs" "e = None \<or> (\<exists>x. e = Some (FrontendError x))"
    "e = None \<Longrightarrow> \<exists>new. p' = p\<lparr>px_frontends := px_frontends p @ new\<rparr> \<and> list_all2 (started p) (map fst fs) new"
proof -
  have "(e = None \<longleftrightarrow> list_all (starts io (px_cfg p)) fs) \<and> (e = None \<or> (\<exists>x. e = Some (FrontendError x))) \<and>
    (e = None \<longrightarrow> (\<exists>new. p' = p\<lparr>px_frontends := px_frontends p @ new\<rparr> \<and> list_all2 (started p) (map fst fs) new))"
    using assms
  proof (induction fs arbitrary: p k)
    case Nil
    have "p' = p\<lparr>px_frontends := px_frontends p @ []\<rparr>" using Nil.prems(1) by simp
    then show ?case using Nil.prems(1) by auto
  next
    case (Cons x fs)
    obtain fc pv where x: "x = (fc, pv)" by fastforce
    obtain i where i: "map_of (px_backends p) (fc_Backend fc) = Some i" using Cons.prems(2) x by auto
    define fe where "fe = Frontend_New fc i (g_MaxPacketSize (c_Global (px_cfg p)))
      (NewBucket (limitsFromTrafficConfig (fc_TrafficShaping fc)) (pi_tFrontend io k)) (fr_DropFragments (g_Fragmentation (c_Global (px_cfg p))))"
    let ?st = "Start (pi_frontend io fc) (workersFor (g_WorkerThreads (c_Global (px_cfg p))) pv) (g_Socket (c_Global (px_cfg p))) fe"
    have run: "startFrontends io k (x # fs) p = (case ?st of Inl e \<Rightarrow> (Some (FrontendError e), p)
        | Inr (fe', readers) \<Rightarrow> startFrontends io (Suc k) fs (p\<lparr>px_frontends := px_frontends p @ [fe']\<rparr>))"
      by (simp add: x i fe_def Let_def)
    show ?case
    proof (cases ?st)
      case (Inl y)
      then have "\<not> starts io (px_cfg p) x" using Start_Inr_iff [of "pi_frontend io fc" _ _ fe] x by (auto simp flip: Start_Inr_iff [of _ _ _ fe])
      then show ?thesis using Cons.prems(1) run Inl by auto
    next
      case (Inr r)
      obtain fe' rs where r: "r = (fe', rs)" by fastforce
      let ?p = "p\<lparr>px_frontends := px_frontends p @ [fe']\<rparr>"
      have ok: "starts io (px_cfg p) x" using Inr x by (auto simp flip: Start_Inr_iff [of _ _ _ fe])
      have run': "startFrontends io (Suc k) fs ?p = (e, p')" using Cons.prems(1) run Inr r by simp
      obtain n a c where fe': "fe' = fe\<lparr>fe_listenConns := n, fe_fragmentAware := a, fe_workCap := c\<rparr>"
        by (rule Start_frame [OF Inr [unfolded r]])
      have st: "started p fc fe'" by (simp add: started_def fe' fe_def Frontend_New_def i)
      have sp: "started ?p = started p" by (simp add: started_def fun_eq_iff)
      from Cons.IH [OF run'] Cons.prems(2) have IH: "e = None \<longleftrightarrow> list_all (starts io (px_cfg p)) fs"
        "e = None \<or> (\<exists>x. e = Some (FrontendError x))"
        "e = None \<longrightarrow> (\<exists>new. p' = ?p\<lparr>px_frontends := px_frontends ?p @ new\<rparr> \<and> list_all2 (started p) (map fst fs) new)"
        unfolding sp by auto
      have "\<exists>new. p' = p\<lparr>px_frontends := px_frontends p @ new\<rparr> \<and> list_all2 (started p) (map fst (x # fs)) new" if none: "e = None"
      proof -
        obtain new where "p' = ?p\<lparr>px_frontends := px_frontends ?p @ new\<rparr>" "list_all2 (started p) (map fst fs) new"
          using IH(3) none by blast
        then show ?thesis using st by (intro exI [of _ "fe' # new"]) (simp add: x)
      qed
      then show ?thesis using IH(1,2) ok by auto
    qed
  qed
  then show "e = None \<longleftrightarrow> list_all (starts io (px_cfg p)) fs" "e = None \<or> (\<exists>x. e = Some (FrontendError x))"
    "e = None \<Longrightarrow> \<exists>new. p' = p\<lparr>px_frontends := px_frontends p @ new\<rparr> \<and> list_all2 (started p) (map fst fs) new" by blast+
qed

text \<open>A proxy as \<^verbatim>\<open>New\<close> and \<^verbatim>\<open>reload\<close> hand it to \<^verbatim>\<open>start\<close>.\<close>

definition unstarted :: "proxy \<Rightarrow> bool" where
  "unstarted p \<longleftrightarrow> valid_config (px_cfg p) \<and> px_backends p = [] \<and> px_pools p = [] \<and> px_frontends p = []"

lemma foldl_RegisterBackend:
  "foldl (\<lambda>m (_, i). RegisterBackend (g i) m) m xs = m\<lparr>ms_statusFns := ms_statusFns m @ map (\<lambda>(_, i). g i) xs\<rparr>"
  by (induction xs arbitrary: m) (auto simp: RegisterBackend_def)

text \<open>The metrics server \<^verbatim>\<open>start\<close> builds.\<close>

definition metricsFor :: "proxyIO \<Rightarrow> string \<Rightarrow> (string \<times> nat) list \<Rightarrow> shared metricsServer" where
  "metricsFor io addr bm = \<lparr>ms_addr = addr, ms_statusFns = map (\<lambda>(_, i) sh. poolStatus (ss_pools sh ! i)) (pi_order io bm),
     ms_sessionCountFn = Some (\<lambda>sh. Table_Count (ss_sessions sh)), ms_serving = True\<rparr>"

lemma startMetrics_spec:
  defines "addr q \<equiv> g_MetricsAddr (c_Global (px_cfg q))"
  shows "if pi_listen io (addr p) then startMetrics io p = (None, p\<lparr>px_metrics := Some (metricsFor io (addr p) (px_backends p))\<rparr>)
    else fst (startMetrics io p) = Some (MetricsError (addr p))"
proof -
  have "RegisterSessionCount (\<lambda>sh. Table_Count (ss_sessions sh))
      (foldl (\<lambda>m (_, i). RegisterBackend (\<lambda>sh. poolStatus (ss_pools sh ! i)) m) (Metrics_New (addr p)) (pi_order io (px_backends p))) =
    (metricsFor io (addr p) (px_backends p))\<lparr>ms_serving := False\<rparr>"
    unfolding foldl_RegisterBackend by (simp add: RegisterSessionCount_def Metrics_New_def metricsFor_def)
  then show ?thesis unfolding startMetrics_def addr_def Let_def
    by (simp add: Metrics_Start_def) (simp add: metricsFor_def)
qed

lemma zip_names_lookup:
  assumes "distinct (map f bs)"
  shows "map_of (zip (map f bs) [0..<length bs]) a = Some i \<longleftrightarrow> i < length bs \<and> f (bs ! i) = a"
  using map_of_zip_nth [of "map f bs" "[0..<length bs]"] assms map_of_SomeD [of "zip (map f bs) [0..<length bs]" a i]
  by (auto simp: in_set_zip)

lemma start_success:
  assumes "unstarted p" "start io p = (e, p')"
  defines "bs \<equiv> c_Backends (px_cfg p)" and "fcs \<equiv> c_Frontends (px_cfg p)" and "g \<equiv> c_Global (px_cfg p)"
  shows "e = None \<longleftrightarrow> (\<forall>b \<in> set bs. \<exists>pool. NewPool (pi_resolver io) b = Inr pool) \<and>
      pi_listen io (g_MetricsAddr g) \<and> (\<forall>fc \<in> set fcs. starts io (px_cfg p) (fc, priorityOf fc))" (is ?A)
    "e = None \<or> (\<exists>y. e = Some (PoolError y)) \<or> (\<exists>y. e = Some (MetricsError y)) \<or> (\<exists>y. e = Some (FrontendError y))" (is ?B)
    "e = None \<Longrightarrow> px_cfg p' = px_cfg p \<and> px_counters p' = px_counters p \<and>
       px_pools p' = map (projr \<circ> NewPool (pi_resolver io)) bs \<and>
       px_backends p' = zip (map bc_Name bs) [0..<length bs] \<and> px_limiters p' = newLimiters io (px_cfg p) \<and>
       px_sessions p' = Some (NewTable (g_SessionTimeout g) (g_SessionCleanupInterval g)) \<and>
       px_metrics p' = Some (metricsFor io (g_MetricsAddr g) (zip (map bc_Name bs) [0..<length bs])) \<and>
       list_all2 (started p') (sort_key (\<lambda>fc. - uint (priorityOf fc)) fcs) (px_frontends p')" (is "_ \<Longrightarrow> ?C")
proof -
  let ?R = "pi_resolver io"
  have valid: "distinct (map bc_Name bs)" "\<forall>fc \<in> set fcs. fc_Backend fc \<in> bc_Name ` set bs"
      "\<forall>fc \<in> set fcs. \<exists>pv. ParsePriority (fc_Priority fc) = Inr pv" "px_backends p = []" "px_pools p = []" "px_frontends p = []"
    using assms(1) by (auto simp: unstarted_def valid_config_def frontend_valid_def bs_def fcs_def)
  obtain e1 p1 where b: "buildPools ?R bs p = (e1, p1)" by fastforce
  have e1: "e1 = None \<longleftrightarrow> (\<forall>b \<in> set bs. \<exists>pool. NewPool ?R b = Inr pool)" using buildPools_None [of ?R bs p] b by simp
  have "?A \<and> ?B \<and> (e = None \<longrightarrow> ?C)"
  proof (cases e1)
    case (Some x)
    have "fst (buildPools R cs q) = None \<or> (\<exists>y. fst (buildPools R cs q) = Some (PoolError y))" for R cs q
      by (induction cs arbitrary: q) (auto split: sum.splits)
    from this [of ?R bs p] obtain y where "e1 = Some (PoolError y)" using b Some by auto
    moreover have "e = e1" using assms(2) b Some by (simp add: start_def flip: bs_def)
    ultimately show ?thesis using e1 by auto
  next
    case None
    note ps = buildPools_ok [OF b [unfolded None] valid(1)]
    have pools: "px_pools p1 = map (projr \<circ> NewPool ?R) bs" "px_backends p1 = zip (map bc_Name bs) [0..<length bs]"
      using ps valid(4,5) by simp_all
    define q where "q = p1\<lparr>px_sessions := Some (NewTable (g_SessionTimeout g) (g_SessionCleanupInterval g))\<rparr>"
    have q: "px_cfg q = px_cfg p" "px_backends q = px_backends p1" "px_pools q = px_pools p1" "px_frontends q = []"
        "px_counters q = px_counters p" "px_sessions q = Some (NewTable (g_SessionTimeout g) (g_SessionCleanupInterval g))"
      using buildPools_frame [OF b] valid(6) by (auto simp: q_def)
    show ?thesis
    proof (cases "pi_listen io (g_MetricsAddr g)")
      case False
      then have "fst (startMetrics io q) = Some (MetricsError (g_MetricsAddr g))"
        using startMetrics_spec [of io q] by (simp add: q(1) g_def)
      then have "e = Some (MetricsError (g_MetricsAddr g))"
        using assms(2) b None by (cases "startMetrics io q") (auto simp: start_def Let_def q_def g_def simp flip: bs_def)
      then show ?thesis using False by simp
    next
      case True
      define m where "m = metricsFor io (g_MetricsAddr g) (px_backends p1)"
      define p3 where "p3 = (startCheckers (q\<lparr>px_metrics := Some m\<rparr>))\<lparr>px_limiters := newLimiters io (px_cfg p)\<rparr>"
      have "startMetrics io q = (None, q\<lparr>px_metrics := Some m\<rparr>)"
        using startMetrics_spec [of io q] True by (simp add: q(1,2) m_def flip: g_def)
      then have run: "startFrontends io 0 (orderFrontends (map (\<lambda>fc. (fc, priorityOf fc)) fcs)) p3 = (e, p')"
        using assms(2) unfolding start_def Let_def bs_def [symmetric] b None split option.case g_def [symmetric]
          q_def [symmetric] fcs_def [symmetric] parsePriorities_ok [OF valid(3)] sum.case p3_def
        by simp
      have p3: "px_cfg p3 = px_cfg p" "px_backends p3 = px_backends p1" "px_pools p3 = px_pools p1" "px_frontends p3 = []"
          "px_counters p3 = px_counters p" "px_sessions p3 = px_sessions q" "px_metrics p3 = Some m"
          "px_limiters p3 = newLimiters io (px_cfg p)"
        using q by (simp_all add: p3_def startCheckers_def)
      let ?fs = "map (\<lambda>fc. (fc, priorityOf fc)) (sort_key (\<lambda>fc. - uint (priorityOf fc)) fcs)"
      have dom: "\<forall>x \<in> set ?fs. fc_Backend (fst x) \<in> dom (map_of (px_backends p3))"
        using valid(2) by (auto simp: p3(2) pools(2))
      note sf = startFrontends_ok [OF run [unfolded orderFrontends_map] dom]
      have C: ?C if none: "e = None"
      proof -
        obtain new where new: "p' = p3\<lparr>px_frontends := px_frontends p3 @ new\<rparr>" "list_all2 (started p3) (map fst ?fs) new"
          using sf(3) [OF none] by blast
        have "started p' = started p3" by (simp add: started_def fun_eq_iff new(1))
        then have "list_all2 (started p') (sort_key (\<lambda>fc. - uint (priorityOf fc)) fcs) (px_frontends p')"
          using new by (simp add: p3(4) comp_def)
        then show ?thesis using p3 q(6) pools by (simp add: new(1) m_def)
      qed
      have "list_all (starts io (px_cfg p3)) ?fs \<longleftrightarrow> (\<forall>fc \<in> set fcs. starts io (px_cfg p) (fc, priorityOf fc))"
        by (simp add: list_all_iff p3(1))
      then show ?thesis using C sf(1,2) e1 None True by auto
    qed
  qed
  then show ?A ?B "e = None \<Longrightarrow> ?C" by blast+
qed

lemma Proxy_New_unstarted:
  assumes "Proxy_New read_file unmarshal path = Inr p"
  shows "unstarted p" "defaulted (px_cfg p)" "px_counters p = zeroCounters" "cancellable p"
proof -
  obtain cfg where l: "Load read_file unmarshal path = Inr cfg" and p: "px_cfg p = cfg" "px_backends p = []" "px_pools p = []"
      "px_frontends p = []" "px_counters p = zeroCounters" "px_checkers p = []"
    using assms by (auto simp: Proxy_New_def split: sum.splits)
  from l obtain c0 where "cfg = defaults c0" "validate cfg = Inr ()"
    by (auto simp: Load_def Parse_def Let_def split: sum.splits)
  then show "unstarted p" "defaulted (px_cfg p)" "px_counters p = zeroCounters" "cancellable p"
    using p defaulted_defaults by (simp_all add: unstarted_def validate_iff cancellable_def)
qed

lemma started_pool:
  assumes "unstarted p" "start io p = (None, p')" "f \<in> set (px_frontends p')"
  shows "fe_pool f < length (px_pools p')" "p_name (px_pools p' ! fe_pool f) = fc_Backend (fe_cfg f)"
    "started p' (fe_cfg f) f"
proof -
  let ?bs = "c_Backends (px_cfg p)"
  note ok = start_success(1,3) [OF assms(1,2)]
  have d: "distinct (map bc_Name ?bs)" using assms(1) by (simp add: unstarted_def valid_config_def)
  have all2: "list_all2 (started p') (sort_key (\<lambda>fc. - uint (priorityOf fc)) (c_Frontends (px_cfg p))) (px_frontends p')"
    using ok(2) by blast
  then obtain fc where st: "started p' fc f" using assms(3) by (auto simp: list_all2_conv_all_nth in_set_conv_nth)
  then show "started p' (fe_cfg f) f" by (auto simp: started_def)
  have "map_of (px_backends p') (fc_Backend (fe_cfg f)) = Some (fe_pool f)" using st by (auto simp: started_def)
  then have i: "fe_pool f < length ?bs" "bc_Name (?bs ! fe_pool f) = fc_Backend (fe_cfg f)"
    using ok(2) zip_names_lookup [OF d] by auto
  have pools: "px_pools p' = map (projr \<circ> NewPool (pi_resolver io)) ?bs" using ok(2) by blast
  show "fe_pool f < length (px_pools p')" using i(1) by (simp add: pools)
  have "\<forall>b \<in> set ?bs. \<exists>pool. NewPool (pi_resolver io) b = Inr pool" using ok(1) by blast
  then obtain pool where "NewPool (pi_resolver io) (?bs ! fe_pool f) = Inr pool" using nth_mem [OF i(1)] by blast
  then show "p_name (px_pools p' ! fe_pool f) = fc_Backend (fe_cfg f)"
    using NewPool_Inr(2) i by (simp add: pools)
qed

lemma started_cfgs:
  assumes "unstarted p" "start io p = (None, p')"
  shows "map fe_cfg (px_frontends p') = sort_key (\<lambda>fc. - uint (priorityOf fc)) (c_Frontends (px_cfg p))"
  using start_success(3) [OF assms]
  by (auto intro!: nth_equalityI simp: list_all2_conv_all_nth started_def)

text \<open>C9: what starts.  A proxy made from a configuration file starts exactly when every server address
  resolves, the metrics address can be bound and every frontend's sockets come up for its scaled
  worker count; the checks for unknown priorities and backends never fail after validation.  A
  started proxy has one frontend per configured frontend, in descending priority and else in
  the order of the file, each on the pool of its backend.\<close>

theorem start_exact:
  assumes "Proxy_New read_file unmarshal path = Inr p" and "start io p = (e, p')"
  defines "cfg \<equiv> px_cfg p"
  shows "(e = None \<longleftrightarrow>
      (\<forall>b \<in> set (c_Backends cfg). \<forall>sc \<in> set (bc_Servers b).
         resolveAddrPort (pi_resolver io) (bc_Name b) (sc_Address sc) \<notin> range Inl) \<and>
      pi_listen io (g_MetricsAddr (c_Global cfg)) \<and>
      (\<forall>fc \<in> set (c_Frontends cfg). start_ok (pi_frontend io fc)
         (workersFor (g_WorkerThreads (c_Global cfg)) (priorityOf fc)) (g_Socket (c_Global cfg)))) \<and>
    (\<forall>x y. e \<noteq> Some (PriorityError x y) \<and> e \<noteq> Some (NoSuchBackend x y)) \<and>
    (e = None \<longrightarrow>
      map fe_cfg (px_frontends p') = sort_key (\<lambda>fc. - uint (priorityOf fc)) (c_Frontends cfg) \<and>
      (\<forall>f \<in> set (px_frontends p'). fe_pool f < length (px_pools p') \<and>
         p_name (px_pools p' ! fe_pool f) = fc_Backend (fe_cfg f)))"
proof -
  note un = Proxy_New_unstarted(1) [OF assms(1)]
  note s = start_success [OF un assms(2), folded cfg_def]
  have pools: "(\<exists>pool. NewPool (pi_resolver io) b = Inr pool) \<longleftrightarrow> (\<forall>sc \<in> set (bc_Servers b).
      resolveAddrPort (pi_resolver io) (bc_Name b) (sc_Address sc) \<notin> range Inl)" for b
    using NewPool_Inl [of "pi_resolver io" b] by (cases "NewPool (pi_resolver io) b") auto
  have "map fe_cfg (px_frontends p') = sort_key (\<lambda>fc. - uint (priorityOf fc)) (c_Frontends cfg) \<and>
      (\<forall>f \<in> set (px_frontends p'). fe_pool f < length (px_pools p') \<and> p_name (px_pools p' ! fe_pool f) = fc_Backend (fe_cfg f))"
    if "e = None"
    using started_cfgs [OF un assms(2) [unfolded that]] started_pool [OF un assms(2) [unfolded that]] by (simp add: cfg_def)
  then show ?thesis using s(1,2) unfolding pools fst_conv snd_conv by blast
qed

section \<open>From the configuration to the running system\<close>

definition proxyShared :: "proxy \<Rightarrow> shared" where
  "proxyShared p = \<lparr>ss_pools = px_pools p, ss_sessions = (case px_sessions p of Some t \<Rightarrow> t | None \<Rightarrow> NewTable 0 0),
     ss_counters = px_counters p, ss_globalShaper = lm_global (px_limiters p), ss_backendShapers = lm_backends (px_limiters p),
     ss_clientShaper = lm_client (px_limiters p), ss_abuse = lm_abuse (px_limiters p)\<rparr>"

definition proxySys :: "proxy \<Rightarrow> sys" where
  "proxySys p = \<lparr>sy_nodes = map (\<lambda>f. \<lparr>nd_fe = f, nd_held = []\<rparr>) (px_frontends p), sy_sh = proxyShared p\<rparr>"

text \<open>What the start does not check: the weights of a backend add up to less than \<open>2^63\<close> and its server
  addresses differ.\<close>

definition sound_backends :: "config \<Rightarrow> bool" where
  "sound_backends cfg \<longleftrightarrow> (\<forall>b \<in> set (c_Backends cfg).
     (\<Sum>sc \<leftarrow> bc_Servers b. max 0 (sc_Weight sc)) < 2 ^ 63 \<and> distinct (map sc_Address (bc_Servers b)))"

lemma NewPool_servers:
  assumes "NewPool R b = Inr pool"
  shows "map srv_Weight (p_servers pool) = map sc_Weight (bc_Servers b)" "addresses pool = map sc_Address (bc_Servers b)"
    "\<forall>srv \<in> set (p_servers pool). srv_connCount srv = 0"
proof -
  have a: "list_all2 (fresh_server R (bc_Name b)) (bc_Servers b) (p_servers pool)" by (rule NewPool_Inr(5) [OF assms])
  have n: "srv_Weight (p_servers pool ! i) = sc_Weight (bc_Servers b ! i) \<and> srv_Address (p_servers pool ! i) = sc_Address (bc_Servers b ! i) \<and>
      srv_connCount (p_servers pool ! i) = 0" if "i < length (p_servers pool)" for i
    using a that by (auto simp: list_all2_conv_all_nth fresh_server_def NewServer_def)
  have len: "length (p_servers pool) = length (bc_Servers b)" using list_all2_lengthD [OF a] by simp
  show "map srv_Weight (p_servers pool) = map sc_Weight (bc_Servers b)" "addresses pool = map sc_Address (bc_Servers b)"
    by (rule nth_equalityI; use len n in simp)+
  show "\<forall>srv \<in> set (p_servers pool). srv_connCount srv = 0" using n by (auto simp: in_set_conv_nth)
qed

lemma started_pool_ok:
  assumes "NewPool R b = Inr pool" "(\<Sum>sc \<leftarrow> bc_Servers b. max 0 (sc_Weight sc)) < 2 ^ 63" "distinct (map sc_Address (bc_Servers b))"
  shows "pool_ok pool" "distinct (addresses pool)" "\<forall>srv \<in> set (p_servers pool). srv_connCount srv = 0"
proof -
  note sv = NewPool_servers [OF assms(1)]
  have "weights_total (p_servers pool) = sum_list (map (max 0) (map srv_Weight (p_servers pool)))"
    by (simp add: weights_total_def comp_def)
  also have "\<dots> = (\<Sum>sc \<leftarrow> bc_Servers b. max 0 (sc_Weight sc))" by (simp add: sv(1) comp_def)
  finally show "pool_ok pool" using NewPool_Inr(1) [OF assms(1)] assms(2) by (simp add: pool_ok_def)
  show "distinct (addresses pool)" "\<forall>srv \<in> set (p_servers pool). srv_connCount srv = 0" using sv(2,3) assms(3) by simp_all
qed

lemma started_conns_init:
  assumes "unstarted p" "defaulted (px_cfg p)" "px_counters p = zeroCounters" "start io p = (None, p')" "sound_backends (px_cfg p)"
  shows "conns_init (proxySys p')"
proof -
  let ?bs = "c_Backends (px_cfg p)"
  note ok = start_success(1,3) [OF assms(1,4)]
  have p': "px_cfg p' = px_cfg p" "px_counters p' = zeroCounters"
      "px_pools p' = map (projr \<circ> NewPool (pi_resolver io)) ?bs"
      "px_sessions p' = Some (NewTable (g_SessionTimeout (c_Global (px_cfg p))) (g_SessionCleanupInterval (c_Global (px_cfg p))))"
    using ok(2) assms(3) by simp_all
  have pools: "pool_ok pool \<and> distinct (addresses pool) \<and> (\<forall>srv \<in> set (p_servers pool). srv_connCount srv = 0)"
    if "pool \<in> set (px_pools p')" for pool
  proof -
    obtain b where b: "b \<in> set ?bs" "pool = projr (NewPool (pi_resolver io) b)" using \<open>pool \<in> set (px_pools p')\<close> p'(3) by auto
    then obtain q where q: "NewPool (pi_resolver io) b = Inr q" using ok(1) by blast
    have "(\<Sum>sc \<leftarrow> bc_Servers b. max 0 (sc_Weight sc)) < 2 ^ 63" "distinct (map sc_Address (bc_Servers b))"
      using assms(5) b(1) by (simp_all add: sound_backends_def)
    from started_pool_ok [OF q this] show ?thesis by (simp add: b(2) q)
  qed
  have nodes: "fresh_node \<lparr>nd_fe = f, nd_held = []\<rparr> \<and> fe_pool f < length (px_pools p')" if "f \<in> set (px_frontends p')" for f
  proof -
    have "0 < g_MaxPacketSize (c_Global (px_cfg p))" using assms(2) by (simp add: defaulted_def Let_def)
    then show ?thesis using started_pool(1,3) [OF assms(1,4) that] by (auto simp: fresh_node_def started_def p'(1))
  qed
  have "distinct (map fc_Name (map fe_cfg (px_frontends p')))"
    unfolding started_cfgs [OF assms(1,4)]
    using assms(1) distinct_map_mset [of "sort_key (\<lambda>fc. - uint (priorityOf fc)) (c_Frontends (px_cfg p))" "c_Frontends (px_cfg p)" fc_Name]
    by (simp add: unstarted_def valid_config_def)
  then show ?thesis
    using nodes pools p'(2,4)
    by (auto simp: conns_init_def sys_init_def proxySys_def proxyShared_def comp_def)
qed

text \<open>C8: a started proxy is in an initial state of the system.  Started from a configuration file whose
  backends have different addresses and no excessive weights, the proxy satisfies the
  hypotheses of the theorems about runs: no worker ever panics, buffers have one owner,
  datagrams are not forged, responses are bounded by requests, packets are conserved and
  connection counts are exact from then on.\<close>

theorem start_establishes_invariants:
  assumes "Proxy_New read_file unmarshal path = Inr p" and "start io p = (None, p')" and "sound_backends (px_cfg p)"
  shows "conns_init (proxySys p')"
proof -
  note un = Proxy_New_unstarted [OF assms(1)]
  show ?thesis by (rule started_conns_init [OF un(1-3) assms(2,3)])
qed

section \<open>Scaling workers by priority\<close>

text \<open>Worker counts.  While the product fits an \<^verbatim>\<open>int64\<close>, every frontend gets at least one worker, a
  frontend of normal priority exactly the configured number, and a higher priority never fewer
  workers than a lower one nor more than five thirds of the configured number.\<close>

theorem workersFor_scaling:
  assumes "0 < threads" and "threads * 5 < 2 ^ 63" and "valid_priority pv" and "valid_priority pv'" and "pv \<le> pv'"
  shows "1 \<le> workersFor threads pv \<and> workersFor threads PriorityNormal = threads \<and>
    workersFor threads pv \<le> workersFor threads pv' \<and> 3 * workersFor threads pv' \<le> max 3 (5 * threads)"
proof -
  have w: "workersFor threads q = max 1 (threads * WorkerMultiplier q div 3)" for q
  proof -
    have "0 \<le> threads * WorkerMultiplier q" "threads * WorkerMultiplier q \<le> threads * 5"
      using WorkerMultiplier_bounds [of q] assms(1) by (simp_all add: mult_left_mono)
    moreover have "a sdiv 3 = a div 3" if "0 \<le> a" for a :: int
      using that by (cases "a = 0") (simp_all add: signed_divide_int_def)
    ultimately have "wrap64 (threads * WorkerMultiplier q) = threads * WorkerMultiplier q"
      "(threads * WorkerMultiplier q) sdiv 3 = threads * WorkerMultiplier q div 3"
      using assms(2) by (simp_all add: in_int64_def)
    moreover have "WorkerMultiplier PriorityNormal = 3" by (simp add: WorkerMultiplier_def priority_defs)
    ultimately show ?thesis by (simp add: workersFor_def Let_def max_def)
  qed
  have "threads * WorkerMultiplier pv \<le> threads * WorkerMultiplier pv'"
    using WorkerMultiplier_mono [OF assms(3-5)] assms(1) by simp
  moreover have "threads * WorkerMultiplier pv' \<le> threads * 5" using WorkerMultiplier_bounds(2) [of pv'] assms(1) by simp
  ultimately show ?thesis using assms(1) unfolding w
    by (auto simp: WorkerMultiplier_def priority_defs max_def zdiv_mono1)
qed

section \<open>The metrics endpoint\<close>

definition poolsCount :: "nat \<Rightarrow> sys \<Rightarrow> bool" where
  "poolsCount k s \<longleftrightarrow> sys_ok s \<and> length (ss_pools (sy_sh s)) = k"

lemma poolsCount_step:
  assumes "poolsCount k s" "sys_step s e t"
  shows "poolsCount k t"
proof -
  have ok: "sys_ok s" using assms(1) by (simp add: poolsCount_def)
  have "length (ss_pools (sy_sh t)) = length (ss_pools (sy_sh s))"
    using assms(2)
  proof cases
    case (step_read i n b ci client payload oob now tnow f sh)
    then show ?thesis using read_effect(5) [OF sys_ok_node(1) [OF ok step_read(3,4)] step_read(5,6)] by simp
  next
    case (step_work i n p ps io res f sh)
    note n = sys_ok_node [OF ok step_work(3,4)]
    show ?thesis using work_effect(5) [OF n(1) step_work(5,6,7) pool_ok_fit(1) [OF n(2)]] step_work(2)
      by (auto simp: pools_like_def)
  next
    case (step_respond i n b rd now res f sh)
    then show ?thesis using respond_effect(5) [OF sys_ok_node(1) [OF ok step_respond(3,4)] step_respond(5,6)]
      by (simp split: response.splits)
  qed (auto simp: readLoop_def evictSweep_frame(1) setHealth_def)
  then show ?thesis using assms(1) sys_ok_step [OF ok assms(2)] by (simp add: poolsCount_def)
qed

interpretation poolsCount: traced sys_step "\<lambda>_. poolsCount k" for k
  by unfold_locales (rule poolsCount_step)

lemma countEvents_le: "(\<And>e. w e \<le> 1) \<Longrightarrow> countEvents w tr \<le> length tr"
  unfolding countEvents_def using sum_list_mono [of tr w "\<lambda>_. 1"] by (simp add: sum_list_triv)

lemma isReceived_le: "isReceived e \<le> 1" "isForwarded e \<le> 1"
  by (cases e; simp)+

lemma mset_concat_permuted:
  "mset xs = mset ys \<Longrightarrow> mset (concat (map g xs)) = mset (concat (map g ys))"
  by (simp add: mset_concat flip: sum_mset_sum_list)

lemma poolStatus_all:
  assumes "mset order = mset (zip names [0..<length ps])" "length names = length ps"
  shows "mset (concat (map (\<lambda>x. poolStatus (ps ! snd x)) order)) = mset (concat (map poolStatus ps))"
proof -
  have "map (\<lambda>x. poolStatus (ps ! snd x)) (zip names [0..<length ps]) = map poolStatus ps"
    by (rule nth_equalityI) (use assms(2) in simp_all)
  then show ?thesis using mset_concat_permuted [OF assms(1), of "\<lambda>x. poolStatus (ps ! snd x)"] by (simp only:)
qed

text \<open>C13: the metrics endpoint tells the truth when iterations do not overlap.  Take a proxy that started from a
  configuration in which the server addresses of every backend differ and its weights add up to
  less than \<open>2^63\<close>, and take every iteration of a goroutine as one step.  In every state it reaches
  in fewer than \<open>2^63\<close> steps, with fewer than \<open>2^63\<close> sessions, the response of \<^verbatim>\<open>/metrics\<close> has the number
  of datagrams received and forwarded, the number of live sessions, and for every server of
  every pool its address, health and the number of sessions that affinity frontends have bound
  to it, whatever order Go's map iteration registered the pools in.  The last number can
  drift when fail-overs of one session overlap (theory \<open>Overlap\<close>, \<open>failovers_drift\<close>).\<close>

theorem metrics_truthful:
  assumes "Proxy_New read_file unmarshal path = Inr p" and "start io p = (None, p')" and "sound_backends (px_cfg p)"
    and "px_metrics p' = Some m" and "\<And>bm. mset (pi_order io bm) = mset bm"
    and "run_of sys_step (proxySys p') tr s" and "length tr < 2 ^ 63" and "card (dom (tb_abs (ss_sessions (sy_sh s)))) < 2 ^ 63"
  defines "resp \<equiv> handleMetrics m (ss_counters (sy_sh s)) (sy_sh s)"
  shows "mr_PacketsReceived resp = int (countEvents isReceived tr) \<and> mr_PacketsForwarded resp = int (countEvents isForwarded tr) \<and>
    mr_ActiveSessions resp = int (card (dom (tb_abs (ss_sessions (sy_sh s))))) \<and>
    mset (mr_Backends resp) = mset (concat (map (\<lambda>j. map (\<lambda>i. let srv = p_servers (ss_pools (sy_sh s) ! j) ! i in
        \<lparr>bs_Address = srv_Address srv, bs_Healthy = srv_Healthy srv, bs_Conns = int (card (bound_sessions s j i))\<rparr>)
        [0..<length (p_servers (ss_pools (sy_sh s) ! j))]) [0..<length (ss_pools (sy_sh s))]))"
proof -
  note un = Proxy_New_unstarted [OF assms(1)]
  note init = started_conns_init [OF un(1-3) assms(2,3)]
  have sinit: "sys_init (proxySys p')" using init by (simp add: conns_init_def)
  have ok: "counts_ok s" by (rule countsOk.run_keeps [OF assms(6) conns_init_ok [OF init]])
  let ?sh = "sy_sh s" and ?bs = "c_Backends (px_cfg p)"
  have m: "m = metricsFor io (g_MetricsAddr (c_Global (px_cfg p))) (zip (map bc_Name ?bs) [0..<length ?bs])"
    using start_success(3) [OF un(1) assms(2)] assms(4) by simp
  have "balanced tr s" by (rule balanced.run_keeps [OF assms(6) balanced_init [OF sinit]])
  then have cnt: "PacketsReceived (ss_counters ?sh) = of_nat (countEvents isReceived tr)"
      "PacketsForwarded (ss_counters ?sh) = of_nat (countEvents isForwarded tr)"
    by (simp_all add: balanced_def Let_def)
  have small: "countEvents isReceived tr < 2 ^ 63" "countEvents isForwarded tr < 2 ^ 63"
    using countEvents_le [of isReceived tr] countEvents_le [of isForwarded tr] isReceived_le assms(7) by auto
  have wf: "table_wf (ss_sessions ?sh)" using ok by (simp only: counts_ok_def conn_ok_def)
  have len: "length (ss_pools ?sh) = length ?bs"
  proof -
    have "poolsCount (length ?bs) (proxySys p')"
      using sys_init_ok [OF sinit] start_success(3) [OF un(1) assms(2)] by (simp add: poolsCount_def proxySys_def proxyShared_def)
    then show ?thesis using poolsCount.run_keeps [OF assms(6)] by (simp add: poolsCount_def)
  qed
  have status: "poolStatus (ss_pools ?sh ! j) = map (\<lambda>i. let srv = p_servers (ss_pools ?sh ! j) ! i in
      \<lparr>bs_Address = srv_Address srv, bs_Healthy = srv_Healthy srv, bs_Conns = int (card (bound_sessions s j i))\<rparr>)
      [0..<length (p_servers (ss_pools ?sh ! j))]" if j: "j < length (ss_pools ?sh)" for j
  proof (rule nth_equalityI)
    fix i
    assume "i < length (poolStatus (ss_pools ?sh ! j))"
    then have i: "i < length (p_servers (ss_pools ?sh ! j))" by (simp add: poolStatus_def)
    have "card (bound_sessions s j i) \<le> card (dom (tb_abs (ss_sessions ?sh)))"
      by (rule card_mono [OF finite_tb_abs [OF wf]]) (auto simp: bound_sessions_def)
    then have "ConnCount (p_servers (ss_pools ?sh ! j) ! i) = int (card (bound_sessions s j i))"
      using assms(8) by (simp add: ConnCount_def counts_ok_conns [OF ok j i] sint_of_nat)
    then show "poolStatus (ss_pools ?sh ! j) ! i = map (\<lambda>i. let srv = p_servers (ss_pools ?sh ! j) ! i in
      \<lparr>bs_Address = srv_Address srv, bs_Healthy = srv_Healthy srv, bs_Conns = int (card (bound_sessions s j i))\<rparr>)
      [0..<length (p_servers (ss_pools ?sh ! j))] ! i" using i by (simp add: poolStatus_def Let_def)
  qed (simp add: poolStatus_def)
  have "mset (mr_Backends resp) = mset (concat (map poolStatus (ss_pools ?sh)))"
    using poolStatus_all [of "pi_order io (zip (map bc_Name ?bs) [0..<length ?bs])" "map bc_Name ?bs" "ss_pools ?sh"] assms(5) len
    by (simp add: resp_def handleMetrics_def m metricsFor_def comp_def split_beta)
  also have "map poolStatus (ss_pools ?sh) = map (\<lambda>j. poolStatus (ss_pools ?sh ! j)) [0..<length (ss_pools ?sh)]"
    by (rule nth_equalityI) simp_all
  also have "\<dots> = map (\<lambda>j. map (\<lambda>i. let srv = p_servers (ss_pools ?sh ! j) ! i in
      \<lparr>bs_Address = srv_Address srv, bs_Healthy = srv_Healthy srv, bs_Conns = int (card (bound_sessions s j i))\<rparr>)
      [0..<length (p_servers (ss_pools ?sh ! j))]) [0..<length (ss_pools ?sh)]"
    using status by (intro map_cong) simp_all
  finally show ?thesis
    using cnt small Len_dom [OF wf] assms(8)
    by (simp add: resp_def handleMetrics_def m metricsFor_def sint_of_nat Table_Count_def Len_def dom_tb_abs)
qed

section \<open>A concrete proxy\<close>

definition test_read :: "string \<Rightarrow> string + config" where
  "test_read path = Inr test_config"

definition test_proxyIO :: proxyIO where
  "test_proxyIO = \<lparr>pi_resolver = test_resolver, pi_listen = (\<lambda>_. True), pi_order = (\<lambda>bm. bm),
     pi_frontend = (\<lambda>_. \<lparr>st_resolve = Some 27015, st_listen = (\<lambda>_. True), st_enable = (\<lambda>_. True), st_send = True\<rparr>),
     pi_tGlobal = test_time 0, pi_tBackend = (\<lambda>_. test_time 0), pi_tFrontend = (\<lambda>_. test_time 0)\<rparr>"

definition test_proxy :: proxy where
  "test_proxy = projr (Proxy_New test_read Inr ''config.yaml'')"

lemma test_Proxy_New: "Proxy_New test_read Inr ''config.yaml'' = Inr test_proxy"
  by (simp add: test_proxy_def Proxy_New_def Load_def test_read_def test_config_Parse)

lemma test_proxy_cfg: "px_cfg test_proxy = defaults test_config"
  by (simp add: test_proxy_def Proxy_New_def Load_def test_read_def test_config_Parse)

lemma test_start: "fst (start test_proxyIO test_proxy) = None"
proof -
  obtain e p' where s: "start test_proxyIO test_proxy = (e, p')" by fastforce
  have "e = None"
    unfolding start_success(1) [OF Proxy_New_unstarted(1) [OF test_Proxy_New] s] test_proxy_cfg
    by (simp add: test_config_def defaults_def defaults_backend_def defaults_server_def test_proxyIO_def NewPool_def resolveAddrPort_def
        test_resolver_def start_ok_def numListeners_def Let_def) (simp add: defaults_global_def)
  then show ?thesis by (simp add: s)
qed

lemma test_started: "start test_proxyIO test_proxy = (None, snd (start test_proxyIO test_proxy))"
  using test_start by (metis prod.collapse)

lemma test_sound: "sound_backends (px_cfg test_proxy)"
  by (simp add: test_proxy_cfg sound_backends_def test_config_def defaults_def defaults_backend_def defaults_server_def)

theorem Run_stops_everything_witness: "\<exists>p'. Run Inr test_proxyIO [SIGTERM] test_proxy = RunDone p' \<and> quiet p'"
  using Run_stops_everything [OF test_Proxy_New, of test_proxyIO "[SIGTERM]"] test_start by auto

theorem reload_failures_witness:
  "quiet (snd (reload test_read Inr (test_proxyIO\<lparr>pi_resolver := \<lparr>parseAddrPort = (\<lambda>_. None), resolveUDPAddr = (\<lambda>_. None)\<rparr>\<rparr>) test_proxy))"
proof -
  have l: "Load test_read Inr (px_configPath test_proxy) = Inr (defaults test_config)"
    by (simp add: Load_def test_read_def test_config_Parse)
  have "\<exists>b \<in> set (c_Backends (defaults test_config)). \<exists>sc \<in> set (bc_Servers b).
      resolveAddrPort \<lparr>parseAddrPort = (\<lambda>_. None), resolveUDPAddr = (\<lambda>_. None)\<rparr> (bc_Name b) (sc_Address sc) \<in> range Inl"
    by (auto simp: test_config_def defaults_def defaults_backend_def resolveAddrPort_def)
  then show ?thesis
    using reload_failures [OF Proxy_New_unstarted(4) [OF test_Proxy_New], of test_read Inr
        "test_proxyIO\<lparr>pi_resolver := \<lparr>parseAddrPort = (\<lambda>_. None), resolveUDPAddr = (\<lambda>_. None)\<rparr>\<rparr>"]
    by (simp add: l split_beta)
qed

theorem start_exact_witness: "map fe_cfg (px_frontends (snd (start test_proxyIO test_proxy))) = c_Frontends (px_cfg test_proxy)"
  using start_exact [OF test_Proxy_New test_started]
  by (simp add: test_proxy_cfg) (simp add: test_config_def defaults_def sort_key_def)

theorem start_establishes_invariants_witness: "conns_init (proxySys (snd (start test_proxyIO test_proxy)))"
  by (rule start_establishes_invariants [OF test_Proxy_New test_started test_sound])

lemma one_datagram:
  assumes "sys_ok s" "i < length (sy_nodes s)" "\<not> fe_stopped (nd_fe (sy_nodes s ! i))"
  shows "\<exists>t. run_of sys_step s [Internal, Received i c data] t \<and> ss_sessions (sy_sh t) = ss_sessions (sy_sh s)"
proof -
  let ?n = "sy_nodes s ! i"
  obtain b f where get: "getBuf None (nd_fe ?n) = (b, f)" by fastforce
  let ?m = "\<lparr>nd_fe = f, nd_held = b # nd_held ?n\<rparr>"
  let ?u = "putNode i ?m (sy_sh s) s"
  have u: "sys_step s Internal ?u" by (rule step_get [OF assms(2) refl assms(3) get])
  have m: "i < length (sy_nodes ?u)" "?m = sy_nodes ?u ! i" using assms(2) by simp_all
  obtain g sh where read: "readLoop 0 b (Datagram c data []) (test_time 0) (test_time 0) (nd_fe ?m, sy_sh ?u) = (g, sh)" by fastforce
  have b: "b \<in> set (nd_held ?m)" by simp
  note node = sys_ok_node(1) [OF sys_ok_step [OF assms(1) u] m]
  have "run_of sys_step s ([Internal] @ [Received i c data]) (putNode i \<lparr>nd_fe = g, nd_held = remove1 b (nd_held ?m)\<rparr> sh ?u)"
    by (rule run_snoc [of sys_step, OF run_one [of sys_step, OF u] step_read [OF m b read]])
  moreover have "ss_sessions sh = ss_sessions (sy_sh s)" using read_effect(6) [OF node b read] by simp
  ultimately show ?thesis by fastforce
qed

theorem metrics_truthful_witness:
  "\<exists>s. run_of sys_step (proxySys (snd (start test_proxyIO test_proxy))) [Internal, Received 0 test_client [1, 2, 3]] s \<and>
     mr_PacketsReceived (handleMetrics (the (px_metrics (snd (start test_proxyIO test_proxy)))) (ss_counters (sy_sh s)) (sy_sh s)) = 1"
proof -
  let ?p = "snd (start test_proxyIO test_proxy)"
  note new = start_success(3) [OF Proxy_New_unstarted(1) [OF test_Proxy_New] test_started refl]
  have m: "px_metrics ?p = Some (the (px_metrics ?p))" using new by simp
  have ok: "sys_ok (proxySys ?p)"
    using started_conns_init [OF Proxy_New_unstarted(1-3) [OF test_Proxy_New] test_started test_sound]
    by (simp add: conns_init_def sys_init_ok)
  have fes: "list_all2 (started ?p) (sort_key (\<lambda>fc. - uint (priorityOf fc)) (c_Frontends (px_cfg test_proxy))) (px_frontends ?p)"
    using new by blast
  moreover have "length (c_Frontends (px_cfg test_proxy)) = 1" by (simp add: test_proxy_cfg test_config_def defaults_def)
  ultimately have "length (sy_nodes (proxySys ?p)) = 1" using list_all2_lengthD [OF fes] by (simp add: proxySys_def)
  moreover from this have "\<not> fe_stopped (nd_fe (sy_nodes (proxySys ?p) ! 0))"
    using list_all2_nthD2 [OF fes, of 0] by (simp add: proxySys_def started_def)
  ultimately obtain s where s: "run_of sys_step (proxySys ?p) [Internal, Received 0 test_client [1, 2, 3]] s"
      "ss_sessions (sy_sh s) = ss_sessions (sy_sh (proxySys ?p))"
    using one_datagram [OF ok, of 0] by auto
  have "tb_abs (ss_sessions (sy_sh s)) = Map.empty" using new s(2) by (simp add: proxySys_def proxyShared_def tb_abs_NewTable)
  then have "mr_PacketsReceived (handleMetrics (the (px_metrics ?p)) (ss_counters (sy_sh s)) (sy_sh s)) = 1"
    using metrics_truthful [OF test_Proxy_New test_started test_sound m _ s(1)] by (simp add: test_proxyIO_def countEvents_def)
  then show ?thesis using s(1) by blast
qed

end
