(* ===== verification/Affinity.thy ===== *)
theory Affinity
  imports Conns
begin

text \<open>
  Session affinity.  Once a frontend with session affinity has sent a client's datagram to a server,
  the client's later datagrams go to the same server for as long as the server is healthy and
  the session is not evicted, whatever the other goroutines do in between.
\<close>

section \<open>Routing touches one session\<close>

definition touches :: "key \<Rightarrow> shared \<Rightarrow> shared \<Rightarrow> bool" where
  "touches k sh sh' \<longleftrightarrow> table_wf (ss_sessions sh') \<and>
     (\<forall>k'. k' \<noteq> k \<longrightarrow> tb_abs (ss_sessions sh') k' = tb_abs (ss_sessions sh) k')"

lemma touches_same:
  "table_wf (ss_sessions sh) \<Longrightarrow> ss_sessions sh' = ss_sessions sh \<Longrightarrow> touches k sh sh'"
  by (simp add: touches_def)

lemma touches_trans: "touches k s t \<Longrightarrow> touches k t u \<Longrightarrow> touches k s u"
  by (simp add: touches_def)

lemma touches_update:
  assumes "table_wf (ss_sessions sh)" "Get (ss_sessions sh) k = Some r"
    "ss_sessions sh' = updateSession r g (ss_sessions sh)"
  shows "touches k sh sh'"
  using assms by (simp add: touches_def tb_abs_updateSession updateSession_wf)

lemma GetOrCreate_touches:
  assumes "table_wf (ss_sessions sh)" "GetOrCreate newFn k (ss_sessions sh) w = (res, created, t, w')" "ss_sessions sh' = t"
  shows "touches k sh sh'" "res = Some r \<Longrightarrow> Get t k = Some r"
proof -
  have "touches k sh sh' \<and> (\<forall>r. res = Some r \<longrightarrow> Get t k = Some r)"
  proof (cases "Get (ss_sessions sh) k")
    case (Some r)
    then show ?thesis using assms by (auto simp: GetOrCreate_alone intro: touches_same)
  next
    case None
    show ?thesis
    proof (cases "fst (newFn w)")
      case None
      then show ?thesis using assms \<open>Get (ss_sessions sh) k = None\<close>
        by (auto simp: GetOrCreate_alone split: prod.splits intro!: touches_same)
    next
      case (Some s)
      obtain t' where t': "insertSession k s (ss_sessions sh) = (length (tb_heap (ss_sessions sh)), True, t')" "table_wf t'"
          "Get t' = (Get (ss_sessions sh))(k \<mapsto> length (tb_heap (ss_sessions sh)))" "tb_heap t' = tb_heap (ss_sessions sh) @ [s]"
        by (rule insertSession_fresh [OF assms(1) None]) (rule that, assumption+)
      have res: "res = Some (length (tb_heap (ss_sessions sh)))" "t = t'"
        using assms(2) None Some t'(1) by (auto simp: GetOrCreate_alone split: prod.splits)
      have "tableCreate k s (ss_sessions sh) = t'" using None t'(1) by (simp add: tableCreate_def GetOrCreate_alone)
      then have "tb_abs t' k' = tb_abs (ss_sessions sh) k'" if "k' \<noteq> k" for k'
        using tableCreate_effect(3) [OF assms(1), of k s] that by (auto split: if_splits)
      then show ?thesis using t'(2,3) res assms(3) by (simp add: touches_def)
    qed
  qed
  then show "touches k sh sh'" "res = Some r \<Longrightarrow> Get t k = Some r" by blast+
qed

text \<open>A packet is routed to the server its session is bound to afterwards.\<close>

definition bound_to :: "key \<Rightarrow> frontend \<Rightarrow> nat \<Rightarrow> nat \<Rightarrow> shared \<Rightarrow> bool" where
  "bound_to k f j r sh \<longleftrightarrow> Get (ss_sessions sh) k = Some r \<and>
     BackendAddr (sessionAt sh r) = srv_Address (p_servers (poolOf f sh) ! j)"

lemma repick_touches:
  assumes "placed sts f sh" "table_wf (ss_sessions sh)" "Get (ss_sessions sh) k = Some r"
    "repick io f ip r old sh = (res, t)"
  shows "touches k sh t" "res = RouteTo j r' \<Longrightarrow> bound_to k f j r' t"
proof -
  have "touches k sh t \<and> (\<forall>j r'. res = RouteTo j r' \<longrightarrow> bound_to k f j r' t)"
  proof (cases rule: Pick_cases [of "fw_intn' io" "poolOf f sh" ip])
    case (err p')
    then show ?thesis using assms(2,4) by (auto simp: repick_def intro: touches_same)
  next
    case (panic p')
    then show ?thesis using assms(2,4) by (auto simp: repick_def intro: touches_same)
  next
    case (ok i p')
    let ?s = "setPool f p' sh"
    have t: "t = rebind f r old i ?s" "res = RouteTo i r" using assms(4) ok(1) by (simp_all add: repick_def rebind_def Let_def)
    have pl: "placed sts f ?s" by (rule placed_like [OF assms(1) pools_like_setPool [OF ok(2)]])
    have i: "i < length (p_servers (poolOf f ?s))"
      using ok(3) like_length [OF pools_like_poolOf [OF pools_like_setPool [OF ok(2)]], of f] by simp
    have g: "table_wf (ss_sessions ?s)" "Get (ss_sessions ?s) k = Some r" using assms(2,3) by simp_all
    have P: "fe_pool f < length (ss_pools ?s)" using pl by (simp add: placed_def)
    note rs = rebind_session [OF g P i, of old]
    let ?a = "srv_Address (p_servers (poolOf f ?s) ! i)"
    have "srv_Address (p_servers (poolOf f t) ! i) = ?a"
      unfolding t(1) by (rule like_nth(1) [OF pools_like_poolOf [OF rebind_frame] i])
    moreover have gt: "Get (ss_sessions t) k = Some r" using rs(3) g(2) by (simp add: t(1))
    moreover have "sessionAt t r = UpdateServer ?a (Some (fe_pool f, i)) (sessionAt ?s r)"
      using gt fun_cong [OF rs(1), of k] unfolding t(1) tb_abs_def by simp
    ultimately have "bound_to k f i r t" by (simp add: bound_to_def BackendAddr_def UpdateServer_def)
    moreover have "touches k sh t" using rs(1,2) by (simp add: touches_def t(1))
    ultimately show ?thesis using t(2) by simp
  qed
  then show "touches k sh t" "res = RouteTo j r' \<Longrightarrow> bound_to k f j r' t" by blast+
qed

text \<open>The affinity mode from the moment the session is known.\<close>

lemma affinity_tail:
  fixes n now
  assumes "placed sts f sh" "table_wf (ss_sessions sh)" "Get (ss_sessions sh) k = Some r"
  defines "s3 \<equiv> setSession r (Touch n now) sh"
  assumes "(case ServerByAddr (poolOf f s3) (BackendAddr (sessionAt s3 r)) of
      None \<Rightarrow> repick io f ip r None s3
    | Some i \<Rightarrow> if srv_Healthy (p_servers (poolOf f s3) ! i) then (RouteTo i r, s3) else repick io f ip r (Some i) s3) = (res, t)"
  shows "touches k sh t" "res = RouteTo j r' \<Longrightarrow> bound_to k f j r' t"
    "tb_abs (ss_sessions sh) k = Some ss \<Longrightarrow> ServerByAddr (poolOf f sh) (BackendAddr ss) = Some i \<Longrightarrow>
      srv_Healthy (p_servers (poolOf f sh) ! i) \<Longrightarrow> res = RouteTo i r"
proof -
  have t3: "touches k sh s3" by (rule touches_update [OF assms(2,3)]) (simp add: s3_def)
  then have wf3: "table_wf (ss_sessions s3)" by (simp add: touches_def)
  have r3: "Get (ss_sessions s3) k = Some r" using assms(3) by (simp add: s3_def)
  have abs3: "tb_abs (ss_sessions s3) k = Some (sessionAt s3 r)" using r3 by (simp add: tb_abs_def)
  have pl3: "placed sts f s3" unfolding s3_def by (rule placed_like [OF assms(1) pools_like_setSession(1)])
  have addr: "srv_Address (p_servers (poolOf f s3) ! i) = a" if "ServerByAddr (poolOf f s3) a = Some i" for a i
    using pl3 that unfolding placed_def ServerByAddr_def pool_wf_def by blast
  show "touches k sh t" "res = RouteTo j r' \<Longrightarrow> bound_to k f j r' t"
    using assms(5) t3 repick_touches [OF pl3 wf3 r3] addr r3
    by (auto simp: bound_to_def split: option.splits if_splits intro: touches_trans)
  assume ss: "tb_abs (ss_sessions sh) k = Some ss" "ServerByAddr (poolOf f sh) (BackendAddr ss) = Some i"
    "srv_Healthy (p_servers (poolOf f sh) ! i)"
  have "sessionAt s3 r = Touch n now ss"
    using ss(1) abs3 tb_abs_updateSession [OF assms(2,3), of "Touch n now"] assms(3)
    by (simp add: s3_def tb_abs_def)
  then have "BackendAddr (sessionAt s3 r) = BackendAddr ss" by simp
  then show "res = RouteTo i r" using ss(2,3) assms(5) by (simp add: s3_def)
qed

lemma routeAffinity_shape:
  assumes "table_wf (ss_sessions sh)" "routeAffinity io p f sh = (res, t)" "res \<noteq> RoutePanic"
  defines "k \<equiv> sessionKey f (pk_clientAddr p)" and "ip \<equiv> addr_string (ap_addr (pk_clientAddr p))"
  obtains (none) "res = NoRoute" "touches k sh t" "Get (ss_sessions sh) k = None"
  | (some) s2 r where "touches k sh s2" "pools_like sh s2" "Get (ss_sessions s2) k = Some r"
      "Get (ss_sessions sh) k \<noteq> None \<Longrightarrow> s2 = sh"
      "(let s3 = setSession r (Touch (pk_n p) (fw_tTouch io)) s2 in
        case ServerByAddr (poolOf f s3) (BackendAddr (sessionAt s3 r)) of
          None \<Rightarrow> repick io f ip r None s3
        | Some i \<Rightarrow> if srv_Healthy (p_servers (poolOf f s3) ! i) then (RouteTo i r, s3) else repick io f ip r (Some i) s3) = (res, t)"
proof -
  obtain ref created tbl pool panicked where g: "GetOrCreate (pickSession (fw_intn io) ip (fw_tNew io)) k (ss_sessions sh)
      (poolOf f sh, False) = (ref, created, tbl, pool, panicked)" by (metis prod.collapse)
  define s1 where "s1 = (setPool f pool sh)\<lparr>ss_sessions := tbl\<rparr>"
  have "like (poolOf f sh) pool"
    using GetOrCreate_world [OF g] pickSession_world(1) by (metis like_refl prod.collapse prod.inject)
  then have l1: "pools_like sh s1" unfolding s1_def
    by (intro pools_like_trans [OF pools_like_setPool pools_like_setSession(2)])
  have tbl: "ss_sessions s1 = tbl" by (simp add: s1_def)
  note goc = GetOrCreate_touches [OF assms(1) g tbl]
  have np: "\<not> panicked" using assms(2,3) by (auto simp: routeAffinity_def g [unfolded k_def ip_def] Let_def)
  show thesis
  proof (cases ref)
    case None
    then have "Get (ss_sessions sh) k = None" using g by (auto simp: GetOrCreate_alone split: option.splits)
    moreover have "res = NoRoute" "t = s1"
      using assms(2) np None by (simp_all add: routeAffinity_def g [unfolded k_def ip_def] Let_def s1_def)
    ultimately show thesis using none goc(1) by simp
  next
    case (Some r)
    define s2 where "s2 = (if created then (case ServerByAddr (poolOf f s1) (BackendAddr (sessionAt s1 r)) of
        None \<Rightarrow> s1 | Some i \<Rightarrow> bindServer f r i s1) else s1)"
    have g1: "Get (ss_sessions s1) k = Some r" using goc(2) Some by (simp add: s1_def)
    have wf1: "table_wf (ss_sessions s1)" using goc(1) by (simp add: touches_def)
    have "touches k s1 (bindServer f r i s1)" for i by (rule touches_update [OF wf1 g1]) simp
    then have t2: "touches k s1 s2" by (simp add: s2_def touches_same [OF wf1] split: option.split)
    have l2: "pools_like s1 s2" by (simp add: s2_def pools_like_bindServer split: option.split)
    have g2: "Get (ss_sessions s2) k = Some r" using g1 by (simp add: s2_def split: option.split)
    have old: "s2 = sh" if "Get (ss_sessions sh) k \<noteq> None"
      using that g by (auto simp: GetOrCreate_alone s2_def s1_def setPool_def)
    have "routeAffinity io p f sh = (let s3 = setSession r (Touch (pk_n p) (fw_tTouch io)) s2 in
        case ServerByAddr (poolOf f s3) (BackendAddr (sessionAt s3 r)) of
          None \<Rightarrow> repick io f ip r None s3
        | Some i \<Rightarrow> if srv_Healthy (p_servers (poolOf f s3) ! i) then (RouteTo i r, s3) else repick io f ip r (Some i) s3)"
      by (simp only: routeAffinity_def Let_def g [unfolded k_def ip_def] split Some np if_False option.case s1_def s2_def ip_def)
    then show thesis
      using some [OF touches_trans [OF goc(1) t2] pools_like_trans [OF l1 l2] g2 old] assms(2) by simp
  qed
qed

lemma routeSpread_touches:
  assumes "table_wf (ss_sessions sh)" "routeSpread io p f sh = (res, t)" "res \<noteq> RoutePanic"
  shows "touches (sessionKey f (pk_clientAddr p)) sh t"
    "res = RouteTo i r \<Longrightarrow> Get (ss_sessions t) (sessionKey f (pk_clientAddr p)) = Some r"
proof -
  let ?k = "sessionKey f (pk_clientAddr p)" and ?ip = "addr_string (ap_addr (pk_clientAddr p))"
  have "touches ?k sh t \<and> (\<forall>i r. res = RouteTo i r \<longrightarrow> Get (ss_sessions t) ?k = Some r)"
  proof (cases rule: Pick_cases [of "fw_intn io" "poolOf f sh" ?ip])
    case (err p')
    then show ?thesis using assms(1,2) by (auto simp: routeSpread_def intro: touches_same)
  next
    case (panic p')
    then show ?thesis using assms(2,3) by (auto simp: routeSpread_def)
  next
    case (ok i p')
    let ?a = "srv_Address (p_servers p' ! i)"
    define s1 where "s1 = setPool f p' sh"
    obtain ref created tbl u where g: "GetOrCreate (\<lambda>u. (Some (NewSession ?a (fw_tNew io)), u)) ?k (ss_sessions s1) () = (ref, created, tbl, u)"
      by (cases "GetOrCreate (\<lambda>u. (Some (NewSession ?a (fw_tNew io)), u)) ?k (ss_sessions s1) ()") blast
    define s2 where "s2 = s1\<lparr>ss_sessions := tbl\<rparr>"
    have wf1: "table_wf (ss_sessions s1)" "touches ?k sh s1" using assms(1) by (simp_all add: s1_def touches_same)
    note goc = GetOrCreate_touches [OF wf1(1) g, of s2]
    have t2: "touches ?k sh s2" by (rule touches_trans [OF wf1(2) goc(1)]) (simp add: s2_def)
    then have wf2: "table_wf (ss_sessions s2)" by (simp add: touches_def)
    show ?thesis
    proof (cases ref)
      case None
      then show ?thesis using assms(2) t2 g by (auto simp: routeSpread_def ok(1) Let_def s1_def s2_def)
    next
      case (Some r)
      define s3 where "s3 = (if \<not> created \<and> BackendAddr (sessionAt s2 r) \<noteq> ?a then setSession r (UpdateServer ?a None) s2 else s2)"
      have g2: "Get (ss_sessions s2) ?k = Some r" using goc(2) Some by (simp add: s2_def)
      have t3: "touches ?k s2 s3" unfolding s3_def
        by (simp add: touches_same [OF wf2] touches_update [OF wf2 g2])
      have g3: "Get (ss_sessions s3) ?k = Some r" "table_wf (ss_sessions s3)" using g2 t3 by (simp_all add: s3_def touches_def)
      have "res = RouteTo i r" "t = setSession r (Touch (pk_n p) (fw_tTouch io)) s3"
        using assms(2) g Some by (auto simp: routeSpread_def ok(1) Let_def s1_def s2_def s3_def)
      moreover have "touches ?k s3 (setSession r (Touch (pk_n p) (fw_tTouch io)) s3)"
        by (rule touches_update [OF g3(2,1)]) simp
      ultimately show ?thesis using touches_trans [OF touches_trans [OF t2 t3]] g3(1) by simp
    qed
  qed
  then show "touches ?k sh t" "res = RouteTo i r \<Longrightarrow> Get (ss_sessions t) ?k = Some r" by blast+
qed

lemma routeAffinity_touches:
  assumes "placed sts f sh" "table_wf (ss_sessions sh)" "routeAffinity io p f sh = (res, t)" "res \<noteq> RoutePanic"
  defines "k \<equiv> sessionKey f (pk_clientAddr p)"
  shows "touches k sh t" "res = RouteTo j r \<Longrightarrow> bound_to k f j r t"
    "tb_abs (ss_sessions sh) k = Some ss \<Longrightarrow> ServerByAddr (poolOf f sh) (BackendAddr ss) = Some i \<Longrightarrow>
      srv_Healthy (p_servers (poolOf f sh) ! i) \<Longrightarrow> \<exists>r. res = RouteTo i r"
proof -
  have "touches k sh t \<and> (\<forall>j r. res = RouteTo j r \<longrightarrow> bound_to k f j r t) \<and>
    (\<forall>ss i. tb_abs (ss_sessions sh) k = Some ss \<longrightarrow> ServerByAddr (poolOf f sh) (BackendAddr ss) = Some i \<longrightarrow>
      srv_Healthy (p_servers (poolOf f sh) ! i) \<longrightarrow> (\<exists>r. res = RouteTo i r))"
    using assms(2-4)
  proof (cases rule: routeAffinity_shape)
    case none
    then show ?thesis by (simp add: k_def tb_abs_def)
  next
    case (some s2 r')
    have pl: "placed sts f s2" by (rule placed_like [OF assms(1) some(2)])
    have wf: "table_wf (ss_sessions s2)" using some(1) by (simp add: touches_def)
    note tail = affinity_tail [OF pl wf some(3) some(5) [unfolded Let_def]]
    have "touches k sh t" unfolding k_def by (rule touches_trans [OF some(1) tail(1)])
    moreover have "bound_to k f j r t" if "res = RouteTo j r" for j r unfolding k_def by (rule tail(2) [OF that])
    moreover have "\<exists>r. res = RouteTo i r"
      if ss: "tb_abs (ss_sessions sh) k = Some ss" "ServerByAddr (poolOf f sh) (BackendAddr ss) = Some i"
        "srv_Healthy (p_servers (poolOf f sh) ! i)" for ss i
    proof -
      have "Get (ss_sessions sh) k \<noteq> None" using ss(1) by (auto simp: tb_abs_def)
      then have "s2 = sh" using some(4) by (simp add: k_def)
      then show ?thesis using tail(3) ss unfolding k_def by blast
    qed
    ultimately show ?thesis by blast
  qed
  then show "touches k sh t" "res = RouteTo j r \<Longrightarrow> bound_to k f j r t"
    "tb_abs (ss_sessions sh) k = Some ss \<Longrightarrow> ServerByAddr (poolOf f sh) (BackendAddr ss) = Some i \<Longrightarrow>
      srv_Healthy (p_servers (poolOf f sh) ! i) \<Longrightarrow> \<exists>r. res = RouteTo i r" by blast+
qed

section \<open>Forwarding\<close>

text \<open>The session of a client is bound to the server with address \<open>a\<close>.\<close>

definition session_at :: "frontend \<Rightarrow> addrport \<Rightarrow> string \<Rightarrow> shared \<Rightarrow> bool" where
  "session_at f c a sh \<longleftrightarrow>
     (case tb_abs (ss_sessions sh) (sessionKey f c) of None \<Rightarrow> False | Some ss \<Rightarrow> BackendAddr ss = a)"

definition healthy_at :: "frontend \<Rightarrow> string \<Rightarrow> shared \<Rightarrow> bool" where
  "healthy_at f a sh \<longleftrightarrow>
     (case ServerByAddr (poolOf f sh) a of None \<Rightarrow> False | Some j \<Rightarrow> srv_Healthy (p_servers (poolOf f sh) ! j))"

lemma session_at_iff:
  "session_at f c a sh \<longleftrightarrow> (\<exists>ss. tb_abs (ss_sessions sh) (sessionKey f c) = Some ss \<and> BackendAddr ss = a)"
  by (simp add: session_at_def split: option.split)

lemma healthy_at_iff:
  "healthy_at f a sh \<longleftrightarrow> (\<exists>j. ServerByAddr (poolOf f sh) a = Some j \<and> srv_Healthy (p_servers (poolOf f sh) ! j))"
  by (simp add: healthy_at_def split: option.split)

lemma bound_to_session_at:
  "bound_to (sessionKey f c) f j r sh \<Longrightarrow> session_at f c (srv_Address (p_servers (poolOf f sh) ! j)) sh"
  by (simp add: bound_to_def session_at_iff tb_abs_def)

lemma route_touches:
  assumes "placed sts f sh" "table_wf (ss_sessions sh)" "route io p f sh = (res, t)" "res \<noteq> RoutePanic"
  shows "touches (sessionKey f (pk_clientAddr p)) sh t"
    "res = RouteTo i r \<Longrightarrow> Get (ss_sessions t) (sessionKey f (pk_clientAddr p)) = Some r"
proof -
  let ?k = "sessionKey f (pk_clientAddr p)"
  have "touches ?k sh t \<and> (res = RouteTo i r \<longrightarrow> Get (ss_sessions t) ?k = Some r)"
  proof (cases "fc_SessionAffinity (fe_cfg f)")
    case True
    then have "routeAffinity io p f sh = (res, t)" using assms(3) by simp
    from routeAffinity_touches(1,2) [OF assms(1,2) this assms(4)] show ?thesis by (simp add: bound_to_def)
  next
    case False
    then have "routeSpread io p f sh = (res, t)" using assms(3) by simp
    from routeSpread_touches [OF assms(2) this assms(4)] show ?thesis by simp
  qed
  then show "touches ?k sh t" "res = RouteTo i r \<Longrightarrow> Get (ss_sessions t) ?k = Some r" by blast+
qed

text \<open>With affinity, the server of a routed packet is the one the session is bound to afterwards, and the one
  it was bound to before if that was healthy.\<close>

lemma routeAffinity_sticky:
  assumes "placed sts f sh" "table_wf (ss_sessions sh)" "routeAffinity io p f sh = (RouteTo i r, t)"
  defines "a \<equiv> srv_Address (p_servers (poolOf f t) ! i)"
  shows "session_at f (pk_clientAddr p) a t" "healthy_at f a t"
    "session_at f (pk_clientAddr p) b sh \<Longrightarrow> healthy_at f b sh \<Longrightarrow> b = a"
proof -
  have pwf: "pool_wf (poolOf f sh)" using assms(1) by (simp add: placed_def)
  note ra = routeAffinity_touches [OF assms(1,2,3)]
  have ok: "pools_like sh t" "i < length (p_servers (poolOf f sh))" "srv_Healthy (p_servers (poolOf f sh) ! i)"
    using routeAffinity_ok [OF assms(3) pwf] by (simp_all add: route_ok_def)
  note nth = like_nth [OF pools_like_poolOf [OF ok(1), of f] ok(2)]
  show "session_at f (pk_clientAddr p) a t" unfolding a_def by (rule bound_to_session_at [OF ra(2)]) simp_all
  have "pool_wf (poolOf f t)" "distinct (addresses (poolOf f t))" "i < length (p_servers (poolOf f t))"
    using placed_like [OF assms(1) ok(1)] like_length [OF pools_like_poolOf [OF ok(1), of f]] ok(2)
    by (simp_all add: placed_def)
  from pool_wf_lookup [OF this] show "healthy_at f a t"
    using nth(2) ok(3) by (simp add: healthy_at_iff ServerByAddr_def a_def)
  assume "session_at f (pk_clientAddr p) b sh" "healthy_at f b sh"
  then obtain ss j where ss: "tb_abs (ss_sessions sh) (sessionKey f (pk_clientAddr p)) = Some ss" "BackendAddr ss = b"
      "ServerByAddr (poolOf f sh) b = Some j" "srv_Healthy (p_servers (poolOf f sh) ! j)"
    by (auto simp: session_at_iff healthy_at_iff)
  then have "i = j" using ra(3) [of ss j] by simp
  moreover have "srv_Address (p_servers (poolOf f sh) ! j) = b" using pwf ss(3) unfolding pool_wf_def ServerByAddr_def by blast
  ultimately show "b = a" using nth(1) by (simp add: a_def)
qed

lemma forward_touches:
  assumes "placed sts f sh" "table_wf (ss_sessions sh)" "forward io p (f, sh) = (res, f', sh')" "res \<noteq> Panicked"
  shows "touches (sessionKey f (pk_clientAddr p)) sh sh'"
    "fc_SessionAffinity (fe_cfg f) \<Longrightarrow> res = Sent a dst data \<Longrightarrow> session_at f (pk_clientAddr p) a sh' \<and> healthy_at f a sh'"
    "fc_SessionAffinity (fe_cfg f) \<Longrightarrow> session_at f (pk_clientAddr p) b sh \<Longrightarrow> healthy_at f b sh \<Longrightarrow>
       session_at f (pk_clientAddr p) b sh' \<and> (\<forall>a dst data. res = Sent a dst data \<longrightarrow> a = b)"
proof -
  let ?k = "sessionKey f (pk_clientAddr p)"
  have pwf: "pool_wf (poolOf f sh)" using assms(1) by (simp add: placed_def)
  have "touches ?k sh sh' \<and> (fc_SessionAffinity (fe_cfg f) \<longrightarrow>
     (\<forall>a dst data. res = Sent a dst data \<longrightarrow> session_at f (pk_clientAddr p) a sh' \<and> healthy_at f a sh') \<and>
     (\<forall>b. session_at f (pk_clientAddr p) b sh \<longrightarrow> healthy_at f b sh \<longrightarrow>
       session_at f (pk_clientAddr p) b sh' \<and> (\<forall>a dst data. res = Sent a dst data \<longrightarrow> a = b)))"
    using pwf assms(3)
  proof (cases rule: forward_cases)
    case (panic t)
    then show ?thesis using assms(4) by simp
  next
    case (none t)
    have "touches ?k sh sh'" using route_touches(1) [OF assms(1,2) none(5)] by (simp add: touches_def none(3))
    moreover have "\<not> (session_at f (pk_clientAddr p) b sh \<and> healthy_at f b sh)" if "fc_SessionAffinity (fe_cfg f)" for b
      using routeAffinity_touches(3) [OF assms(1,2), of io p NoRoute t] none(5) that
      by (auto simp: session_at_iff healthy_at_iff)
    ultimately show ?thesis using none(1) by blast
  next
    case (to i r t t')
    note d = dispatch_effect [OF to(6)]
    note rt = route_touches [OF assms(1,2) to(1)]
    have g: "table_wf (ss_sessions t)" "Get (ss_sessions t) ?k = Some r" using rt by (simp_all add: touches_def)
    have "touches ?k t t'" by (rule touches_update [OF g]) (simp add: to(4))
    then have "touches ?k sh sh'" using rt(1) d(3) by (simp add: touches_def)
    moreover have "session_at f (pk_clientAddr p) b sh' \<longleftrightarrow> session_at f (pk_clientAddr p) b t"
        "healthy_at f b sh' \<longleftrightarrow> healthy_at f b t" for b
      using g(2) tb_abs_updateSession [OF g, of "SetConnIndex (word_of_int (int (pk_connIndex p)))"]
      by (simp_all add: session_at_iff healthy_at_iff d(2,3) to(4)) (simp add: tb_abs_def)
    moreover have "a = srv_Address (p_servers (poolOf f t) ! i)" if "res = Sent a dst data" for a dst data
      using d(6) [OF that] by (simp add: to(4))
    ultimately show ?thesis using routeAffinity_sticky [OF assms(1,2), of io p i r t] to(1) by (auto split: if_splits)
  qed
  then show "touches ?k sh sh'"
    "fc_SessionAffinity (fe_cfg f) \<Longrightarrow> res = Sent a dst data \<Longrightarrow> session_at f (pk_clientAddr p) a sh' \<and> healthy_at f a sh'"
    "fc_SessionAffinity (fe_cfg f) \<Longrightarrow> session_at f (pk_clientAddr p) b sh \<Longrightarrow> healthy_at f b sh \<Longrightarrow>
       session_at f (pk_clientAddr p) b sh' \<and> (\<forall>a dst data. res = Sent a dst data \<longrightarrow> a = b)" by blast+
qed

section \<open>Runs\<close>

text \<open>Where the session of client \<open>c\<close> at frontend \<open>i\<close> is bound, and that it lives and the server with
  address \<open>a\<close> is healthy.\<close>

definition sticks :: "nat \<Rightarrow> addrport \<Rightarrow> string \<Rightarrow> sys \<Rightarrow> bool" where
  "sticks i c a s \<longleftrightarrow> session_at (nd_fe (sy_nodes s ! i)) c a (sy_sh s)"

definition lives :: "nat \<Rightarrow> addrport \<Rightarrow> string \<Rightarrow> sys \<Rightarrow> bool" where
  "lives i c a s \<longleftrightarrow> tb_abs (ss_sessions (sy_sh s)) (sessionKey (nd_fe (sy_nodes s ! i)) c) \<noteq> None \<and>
     healthy_at (nd_fe (sy_nodes s ! i)) a (sy_sh s)"

lemma session_at_cong:
  "site f = site g \<Longrightarrow> tb_abs (ss_sessions sh') (sessionKey f c) = tb_abs (ss_sessions sh) (sessionKey f c) \<Longrightarrow>
     session_at g c a sh' = session_at f c a sh"
  by (simp add: session_at_iff site_def sessionKey_def)

lemma sites_step:
  assumes "sys_ok s" "sys_step s e t"
  shows "sites t = sites s"
  using assms(2)
proof cases
  case (step_get i n choice b f)
  show ?thesis unfolding step_get(2)
    by (rule sites_putNode [OF step_get(3)])
      (use getBuf_effect [OF sys_ok_node(1) [OF assms(1) step_get(3,4)] step_get(6)] step_get(4) in \<open>simp add: site_def\<close>)
next
  case (step_read i n b ci client payload oob now tnow f sh)
  show ?thesis unfolding step_read(2)
    by (rule sites_putNode [OF step_read(3)])
      (use read_effect(3,4) [OF sys_ok_node(1) [OF assms(1) step_read(3,4)] step_read(5,6)] step_read(4) in \<open>simp add: site_def\<close>)
next
  case (step_readFailed i n b ci now tnow f sh)
  show ?thesis unfolding step_readFailed(2)
    by (rule sites_putNode [OF step_readFailed(3)]) (use step_readFailed(4,6) in \<open>auto simp: site_def readLoop_def\<close>)
next
  case (step_work i n p ps io res f sh)
  note nd = sys_ok_node [OF assms(1) step_work(3,4)]
  show ?thesis unfolding step_work(2)
    by (rule sites_putNode [OF step_work(3)])
      (use work_effect(3,4) [OF nd(1) step_work(5,6,7) pool_ok_fit(1) [OF nd(2)]] step_work(4) in \<open>simp add: site_def\<close>)
next
  case (step_respond i n b rd now res f sh)
  show ?thesis unfolding step_respond(2)
    by (rule sites_putNode [OF step_respond(3)])
      (use respond_effect(3,4) [OF sys_ok_node(1) [OF assms(1) step_respond(3,4)] step_respond(5,6)] step_respond(4) in \<open>simp add: site_def\<close>)
next
  case (step_stop i n)
  show ?thesis unfolding step_stop(2)
    by (rule sites_putNode [OF step_stop(3)]) (simp add: site_def step_stop(4) Frontend_Stop_def)
next
  case (step_drain i n)
  show ?thesis unfolding step_drain(2)
    by (rule sites_putNode [OF step_drain(3)]) (simp add: site_def step_drain(4) drainWorker_def)
qed simp_all

text \<open>What a step does to the sessions.\<close>

lemma sessions_step:
  assumes "counts_ok s" "sys_step s e t"
  obtains (same) "tb_abs (ss_sessions (sy_sh t)) = tb_abs (ss_sessions (sy_sh s))" "\<And>i c a dst data. e \<noteq> Forwarded i c a dst data"
  | (evict) "\<And>k. tb_abs (ss_sessions (sy_sh t)) k = None \<or> tb_abs (ss_sessions (sy_sh t)) k = tb_abs (ss_sessions (sy_sh s)) k"
      "e = Internal"
  | (work) i f io p res f' where "i < length (sy_nodes s)" "site f = site (nd_fe (sy_nodes s ! i))"
      "forward io p (f, sy_sh s) = (res, f', sy_sh t)" "res \<noteq> Panicked" "e = workEvent i p res"
proof -
  have ok: "sys_ok s" and wf: "table_wf (ss_sessions (sy_sh s))" using assms(1) by (simp_all add: counts_ok_def conn_ok_def)
  from assms(2) show thesis
  proof cases
    case (step_get i n choice b f)
    then show thesis by (intro same) simp_all
  next
    case (step_read i n b ci client payload oob now tnow f sh)
    note r = read_effect [OF sys_ok_node(1) [OF ok step_read(3,4)] step_read(5,6)]
    show thesis by (rule same) (use r(6) step_read(1,2) in simp_all)
  next
    case (step_readFailed i n b ci now tnow f sh)
    then show thesis by (intro same) (auto simp: readLoop_def)
  next
    case (step_work i n p ps io res f sh)
    obtain g where g: "forward io p ((nd_fe n)\<lparr>fe_workCh := ps\<rparr>, sy_sh s) = (res, g, sh)"
      by (rule forwardWorker_eq [OF step_work(5,6)])
    show thesis
      by (rule work [of i "(nd_fe n)\<lparr>fe_workCh := ps\<rparr>" io p res g])
        (use step_work g in \<open>simp_all add: site_def\<close>)
  next
    case (step_respond i n b rd now res f sh)
    note r = respond_effect [OF sys_ok_node(1) [OF ok step_respond(3,4)] step_respond(5,6)]
    show thesis
      by (rule same) (use r(5) step_respond(1,2) in \<open>simp_all add: responseEvent_def split: response.splits\<close>)
  next
    case (step_evict now)
    obtain t' cbs where e: "evictExpired now (ss_sessions (sy_sh s)) = (t', cbs)" by fastforce
    have sess: "ss_sessions (sy_sh t) = t'" using evictSweep_frame(4) [of now "sy_sh s"] by (simp add: step_evict(2) e)
    show thesis
    proof (rule evict [OF _ step_evict(1)])
      show "tb_abs (ss_sessions (sy_sh t)) k = None \<or> tb_abs (ss_sessions (sy_sh t)) k = tb_abs (ss_sessions (sy_sh s)) k" for k
        using evictExpired_abs [OF wf e] by (simp add: sess)
    qed
  next
    case (step_health j a h)
    then show thesis by (intro same) (simp_all add: setHealth_def)
  next
    case (step_stop i n)
    then show thesis by (intro same) simp_all
  next
    case (step_drain i n)
    then show thesis by (intro same) simp_all
  qed
qed

lemma site_key:
  assumes "counts_ok s" "i < length (sy_nodes s)" "j < length (sy_nodes s)" "site f = site (nd_fe (sy_nodes s ! j))"
    "sessionKey f c = sessionKey (nd_fe (sy_nodes s ! i)) c'"
  shows "j = i \<and> c = c'"
proof -
  have "distinct (map (fc_Name \<circ> fst) (sites s))" using assms(1) by (simp add: counts_ok_def)
  moreover have "map (fc_Name \<circ> fst) (sites s) ! j = map (fc_Name \<circ> fst) (sites s) ! i" "c = c'"
    using assms(2-5) by (simp_all add: site_def sessionKey_def)
  ultimately show ?thesis using assms(2,3) nth_eq_iff_index_eq [of "map (fc_Name \<circ> fst) (sites s)" j i] by simp
qed

lemma sticks_step:
  assumes "counts_ok s" "sys_step s e t" "i < length (sy_nodes s)" "fc_SessionAffinity (fe_cfg (nd_fe (sy_nodes s ! i)))"
    "sticks i c a s" "healthy_at (nd_fe (sy_nodes s ! i)) a (sy_sh s)" "lives i c a t"
  shows "sticks i c a t" "e = Forwarded i c a' dst data \<Longrightarrow> a' = a"
proof -
  let ?f = "nd_fe (sy_nodes s ! i)" and ?g = "nd_fe (sy_nodes t ! i)"
  have st: "sites t = sites s" by (rule sites_step [OF _ assms(2)]) (use assms(1) in \<open>simp add: counts_ok_def\<close>)
  then have "length (sy_nodes t) = length (sy_nodes s)" by (metis length_map)
  then have fg: "site ?f = site ?g" using st assms(3) by (metis comp_apply nth_map)
  then have key: "sessionKey ?g c = sessionKey ?f c" by (simp add: site_def sessionKey_def)
  have keep: "sticks i c a t" if "tb_abs (ss_sessions (sy_sh t)) (sessionKey ?f c) = tb_abs (ss_sessions (sy_sh s)) (sessionKey ?f c)"
    using assms(5) session_at_cong [OF fg that] by (simp add: sticks_def)
  have "sticks i c a t \<and> (\<forall>a' dst data. e = Forwarded i c a' dst data \<longrightarrow> a' = a)"
    using assms(1,2)
  proof (cases rule: sessions_step)
    case same
    then show ?thesis using keep by simp
  next
    case evict
    have "tb_abs (ss_sessions (sy_sh t)) (sessionKey ?f c) \<noteq> None" using assms(7) by (simp add: lives_def key)
    then have "sticks i c a t" using evict(1) [of "sessionKey ?f c"] keep by argo
    then show ?thesis using evict(2) by simp
  next
    case (work j f io p res f')
    have pl: "placed (sites s) f (sy_sh s)" by (rule counts_ok_placed [OF assms(1) work(1,2)])
    have wf: "table_wf (ss_sessions (sy_sh s))" using assms(1) by (simp add: counts_ok_def conn_ok_def)
    note ft = forward_touches [OF pl wf work(3,4)]
    show ?thesis
    proof (cases "sessionKey f (pk_clientAddr p) = sessionKey ?f c")
      case True
      then have j: "j = i" "pk_clientAddr p = c" using site_key [OF assms(1,3) work(1,2)] by blast+
      have ff: "fe_cfg f = fe_cfg ?f" "fe_pool f = fe_pool ?f" using work(2) by (simp_all add: j site_def)
      have "session_at f c a (sy_sh s)" "healthy_at f a (sy_sh s)"
        using assms(5,6) by (simp_all add: sticks_def session_at_iff healthy_at_iff sessionKey_def ff)
      then have "session_at f c a (sy_sh t)" "\<forall>a' dst data. res = Sent a' dst data \<longrightarrow> a' = a"
        using ft(3) [of a] assms(4) by (simp_all add: ff j(2))
      then show ?thesis
        using fg by (auto simp: sticks_def session_at_iff sessionKey_def site_def ff work(5) workEvent_def split: fwdResult.splits)
    next
      case False
      then have "sticks i c a t" using ft(1) by (intro keep) (simp add: touches_def)
      moreover have "e \<noteq> Forwarded i c a' dst data" for a' dst data
      proof
        assume "e = Forwarded i c a' dst data"
        then have "j = i" "pk_clientAddr p = c" by (simp_all add: work(5) workEvent_def split: fwdResult.splits)
        then show False using False work(2) by (simp add: site_def sessionKey_def)
      qed
      ultimately show ?thesis by simp
    qed
  qed
  then show "sticks i c a t" "e = Forwarded i c a' dst data \<Longrightarrow> a' = a" by blast+
qed

text \<open>The session after a datagram was forwarded.\<close>

lemma forwarded_sticks:
  assumes "counts_ok s" "sys_step s (Forwarded i c a dst data) t" "fc_SessionAffinity (fe_cfg (nd_fe (sy_nodes t ! i)))"
  shows "i < length (sy_nodes t)" "sticks i c a t" "lives i c a t"
proof -
  let ?f = "nd_fe (sy_nodes s ! i)" and ?g = "nd_fe (sy_nodes t ! i)"
  have st: "sites t = sites s" by (rule sites_step [OF _ assms(2)]) (use assms(1) in \<open>simp add: counts_ok_def\<close>)
  then have len: "length (sy_nodes t) = length (sy_nodes s)" by (metis length_map)
  have wf: "table_wf (ss_sessions (sy_sh s))" using assms(1) by (simp add: counts_ok_def conn_ok_def)
  have "i < length (sy_nodes t) \<and> sticks i c a t \<and> lives i c a t"
    using assms(1,2)
  proof (cases rule: sessions_step)
    case same
    then show ?thesis by blast
  next
    case (work j f io p res f')
    have e: "j = i" "pk_clientAddr p = c" "res = Sent a dst data"
      using work(5) by (simp_all add: workEvent_def split: fwdResult.splits)
    have i: "i < length (sy_nodes t)" using work(1) by (simp add: e(1) len)
    then have "site ?f = site ?g" using st len by (metis comp_apply nth_map)
    then have f: "fe_cfg f = fe_cfg ?g" "fe_pool f = fe_pool ?g" using work(2) by (simp_all add: e(1) site_def)
    have "session_at f c a (sy_sh t) \<and> healthy_at f a (sy_sh t)"
      using forward_touches(2) [OF counts_ok_placed [OF assms(1) work(1,2)] wf work(3,4) _ e(3)] assms(3) by (simp add: f e(2))
    then show ?thesis using i
      by (auto simp: sticks_def lives_def session_at_iff healthy_at_iff sessionKey_def f)
  qed simp
  then show "i < length (sy_nodes t)" "sticks i c a t" "lives i c a t" by blast+
qed

text \<open>The events of a run in which the session lives and its server is healthy after every step.\<close>

definition sticky :: "nat \<Rightarrow> addrport \<Rightarrow> string \<Rightarrow> event list \<Rightarrow> sys \<Rightarrow> bool" where
  "sticky i c a tr s \<longleftrightarrow> counts_ok s \<and> i < length (sy_nodes s) \<and> fc_SessionAffinity (fe_cfg (nd_fe (sy_nodes s ! i))) \<and>
     sticks i c a s \<and> lives i c a s \<and> (\<forall>a' dst data. Forwarded i c a' dst data \<in> set tr \<longrightarrow> a' = a)"

definition living_step :: "nat \<Rightarrow> addrport \<Rightarrow> string \<Rightarrow> sys \<Rightarrow> event \<Rightarrow> sys \<Rightarrow> bool" where
  "living_step i c a s e t \<longleftrightarrow> sys_step s e t \<and> lives i c a t"

interpretation sticky: traced "living_step i c a" "sticky i c a" for i c a
proof unfold_locales
  fix tr s e t
  assume s: "sticky i c a tr s" and "living_step i c a s e t"
  then have t: "sys_step s e t" "lives i c a t" by (simp_all add: living_step_def)
  have ok: "counts_ok s" "i < length (sy_nodes s)" "fc_SessionAffinity (fe_cfg (nd_fe (sy_nodes s ! i)))" "sticks i c a s"
      "healthy_at (nd_fe (sy_nodes s ! i)) a (sy_sh s)" using s by (simp_all add: sticky_def lives_def)
  have st: "sites t = sites s" by (rule sites_step [OF _ t(1)]) (use ok(1) in \<open>simp add: counts_ok_def\<close>)
  then have len: "length (sy_nodes t) = length (sy_nodes s)" by (metis length_map)
  then have "site (nd_fe (sy_nodes t ! i)) = site (nd_fe (sy_nodes s ! i))" using st ok(2) by (metis comp_apply nth_map)
  then have "fc_SessionAffinity (fe_cfg (nd_fe (sy_nodes t ! i)))" using ok(3) by (simp add: site_def)
  moreover note sticks_step [OF ok(1) t(1) ok(2-5) t(2)] counts_ok_step [OF ok(1) t(1)]
  moreover have "\<forall>a' dst data. Forwarded i c a' dst data \<in> set tr \<longrightarrow> a' = a" using s unfolding sticky_def by blast
  ultimately show "sticky i c a (tr @ [e]) t" unfolding sticky_def using t(2) ok(2) len
    by (metis Un_iff append_is_Nil_conv list.set_intros(1) set_append set_ConsD empty_iff list.set(1))
qed

text \<open>C7: session affinity when iterations do not overlap.  With different frontend names, different server
  addresses in every pool and weights that fit, and with every iteration of a goroutine taken as
  one step: when a frontend with session affinity has sent a datagram of a client to a server,
  every further datagram of that client that it forwards goes to the same server, for as long
  as the client's session is not evicted and the server is healthy, in whatever order whole
  iterations of all goroutines follow each other.  It says nothing of a worker that read the
  binding before the server recovered and re-binds the session after another worker has sent to
  the recovered server.\<close>

theorem affinity_sticky:
  assumes "conns_init s0" and "run_of sys_step s0 tr0 u" and "sys_step u (Forwarded i c a dst data) s"
    and "fc_SessionAffinity (fe_cfg (nd_fe (sy_nodes s ! i)))"
    and "run_of (living_step i c a) s tr t" and "Forwarded i c a' dst' data' \<in> set tr"
  shows "a' = a"
proof -
  have u: "counts_ok u" by (rule countsOk.run_keeps [OF assms(2) conns_init_ok [OF assms(1)]])
  have "sticky i c a [] s"
    using forwarded_sticks [OF u assms(3,4)] counts_ok_step [OF u assms(3)] assms(4) by (simp add: sticky_def)
  from sticky.run_keeps [OF assms(5) this] show ?thesis using assms(6) by (auto simp: sticky_def)
qed

section \<open>A concrete run\<close>

text \<open>Single steps of the first frontend on a state: a worker's, taking a buffer, reading a datagram.\<close>

definition test_work :: "sys \<Rightarrow> fwdResult \<times> sys" where
  "test_work s = (case forwardWorker test_io (nd_fe (sy_nodes s ! 0), sy_sh s) of
     (res, f, sh) \<Rightarrow> (res, putNode 0 \<lparr>nd_fe = f, nd_held = nd_held (sy_nodes s ! 0)\<rparr> sh s))"

definition test_get :: "sys \<Rightarrow> sys" where
  "test_get s = (case getBuf (Some 0) (nd_fe (sy_nodes s ! 0)) of
     (b, f) \<Rightarrow> putNode 0 \<lparr>nd_fe = f, nd_held = b # nd_held (sy_nodes s ! 0)\<rparr> (sy_sh s) s)"

definition test_read :: "byte list \<Rightarrow> sys \<Rightarrow> sys" where
  "test_read payload s = (case readLoop 0 0 (Datagram test_client payload []) (test_time 6) (test_time 6)
       (nd_fe (sy_nodes s ! 0), sy_sh s) of
     (f, sh) \<Rightarrow> putNode 0 \<lparr>nd_fe = f, nd_held = remove1 0 (nd_held (sy_nodes s ! 0))\<rparr> sh s)"

lemma test_work_step:
  assumes "fst (test_work s) = Sent a dst data" "0 < length (sy_nodes s)" "fe_workCh (nd_fe (sy_nodes s ! 0)) \<noteq> []"
  shows "sys_step s (Forwarded 0 (pk_clientAddr (hd (fe_workCh (nd_fe (sy_nodes s ! 0))))) a dst data) (snd (test_work s))"
proof -
  obtain res f sh where fw: "forwardWorker test_io (nd_fe (sy_nodes s ! 0), sy_sh s) = (res, f, sh)" by (metis prod.collapse)
  obtain p ps where w: "fe_workCh (nd_fe (sy_nodes s ! 0)) = p # ps" using assms(3) by (auto simp: neq_Nil_conv)
  have "res = Sent a dst data" using assms(1) by (simp add: test_work_def fw)
  then show ?thesis
    using step_work [OF assms(2) refl w fw] by (simp add: test_work_def fw w workEvent_def)
qed

lemma test_get_step:
  assumes "0 < length (sy_nodes s)" "\<not> fe_stopped (nd_fe (sy_nodes s ! 0))"
  shows "sys_step s Internal (test_get s)"
  using step_get [OF assms(1) refl assms(2)] by (simp add: test_get_def split: prod.split)

lemma test_read_step:
  assumes "0 < length (sy_nodes s)" "0 \<in> set (nd_held (sy_nodes s ! 0))"
  shows "sys_step s (Received 0 test_client payload) (test_read payload s)"
  using step_read [OF assms(1) refl assms(2)] by (simp add: test_read_def split: prod.split)

definition test_sys3 :: sys where "test_sys3 = snd (test_work test_sys2)"

definition test_sys4 :: sys where "test_sys4 = test_get test_sys3"

definition test_sys5 :: sys where "test_sys5 = test_read [4, 5] test_sys4"

definition test_sys6 :: sys where "test_sys6 = snd (test_work test_sys5)"

text \<open>The side conditions of these steps, evaluated.\<close>

definition test_state :: "sys \<Rightarrow> bool" where
  "test_state s \<longleftrightarrow> lives 0 test_client ''127.0.0.1:5001'' s \<and> 0 < length (sy_nodes s) \<and>
     fc_SessionAffinity (fe_cfg (nd_fe (sy_nodes s ! 0))) \<and> \<not> fe_stopped (nd_fe (sy_nodes s ! 0))"

definition test_queued :: "sys \<Rightarrow> bool" where
  "test_queued s \<longleftrightarrow> map pk_clientAddr (fe_workCh (nd_fe (sy_nodes s ! 0))) = [test_client]"

lemma test_state3: "fst (test_work test_sys2) = Sent ''127.0.0.1:5001'' (test_addrport 5001) [1, 2, 3]" "test_queued test_sys2"
  "test_state test_sys3"
  by code_simp+

lemma test_state4: "test_state test_sys4" "nd_held (sy_nodes test_sys4 ! 0) = [0]"
  by code_simp+

lemma test_state5: "test_state test_sys5" "test_queued test_sys5"
  by code_simp+

lemma test_state6: "fst (test_work test_sys5) = Sent ''127.0.0.1:5001'' (test_addrport 5001) [4, 5]" "test_state test_sys6"
  by code_simp+

lemma test_living_run:
  "run_of (living_step 0 test_client ''127.0.0.1:5001'') test_sys3
     ([Internal, Received 0 test_client [4, 5], Forwarded 0 test_client ''127.0.0.1:5001'' (test_addrport 5001) [4, 5]]) test_sys6"
proof -
  let ?step = "living_step 0 test_client ''127.0.0.1:5001''"
  have "hd (map pk_clientAddr (fe_workCh (nd_fe (sy_nodes test_sys5 ! 0)))) = test_client" "fe_workCh (nd_fe (sy_nodes test_sys5 ! 0)) \<noteq> []"
    using test_state5(2) by (auto simp: test_queued_def)
  then have client: "pk_clientAddr (hd (fe_workCh (nd_fe (sy_nodes test_sys5 ! 0)))) = test_client"
      "fe_workCh (nd_fe (sy_nodes test_sys5 ! 0)) \<noteq> []" by (simp_all add: hd_map)
  have "?step test_sys3 Internal test_sys4"
    using test_get_step [of test_sys3] test_state3(3) test_state4(1) by (simp add: living_step_def test_state_def test_sys4_def)
  moreover have "?step test_sys4 (Received 0 test_client [4, 5]) test_sys5"
    using test_read_step [of test_sys4 "[4, 5]"] test_state4 test_state5(1) by (simp add: living_step_def test_state_def test_sys5_def)
  moreover have "?step test_sys5 (Forwarded 0 test_client ''127.0.0.1:5001'' (test_addrport 5001) [4, 5]) test_sys6"
    using test_work_step [OF test_state6(1) _ client(2)] test_state5(1) test_state6(2)
    by (simp add: living_step_def test_state_def test_sys6_def client(1))
  ultimately have "run_of ?step test_sys3 ((([] @ [Internal]) @ [Received 0 test_client [4, 5]]) @
      [Forwarded 0 test_client ''127.0.0.1:5001'' (test_addrport 5001) [4, 5]]) test_sys6"
    by (intro run_snoc [OF run_snoc [OF run_snoc [OF run_Nil]]])
  then show ?thesis by simp
qed

theorem affinity_sticky_witness:
  "\<exists>tr a' dst' data'. run_of (living_step 0 test_client ''127.0.0.1:5001'') test_sys3 tr test_sys6 \<and>
     Forwarded 0 test_client a' dst' data' \<in> set tr \<and> a' = ''127.0.0.1:5001''"
proof -
  have q: "map pk_clientAddr (fe_workCh (nd_fe (sy_nodes test_sys2 ! 0))) = [test_client]"
    using test_state3(2) by (simp add: test_queued_def)
  then have "pk_clientAddr (hd (fe_workCh (nd_fe (sy_nodes test_sys2 ! 0)))) = test_client" by (cases "fe_workCh (nd_fe (sy_nodes test_sys2 ! 0))") simp_all
  then have step: "sys_step test_sys2 (Forwarded 0 test_client ''127.0.0.1:5001'' (test_addrport 5001) [1, 2, 3]) test_sys3"
    using test_work_step [OF test_state3(1) _ test_queue] by (simp add: test_nodes test_sys3_def)
  have aff: "fc_SessionAffinity (fe_cfg (nd_fe (sy_nodes test_sys3 ! 0)))" using test_state3(3) by (simp add: test_state_def)
  show ?thesis
    by (intro exI conjI, rule test_living_run, (rule list.set_intros)+,
        rule affinity_sticky [OF test_conns_init test_sys_run step aff test_living_run], (rule list.set_intros)+)
qed

end
