(* ===== verification/Overlap.thy ===== *)
theory Overlap
  imports Conns
begin

text \<open>
  Iterations that overlap.  In \<open>System\<close> an iteration of a goroutine is one step.  This theory takes the
  dispatch of a packet apart at the points where \<^verbatim>\<open>forward\<close> holds no lock: queueing the response
  route is one step, and shaping, sending and cancelling another, with responses, other
  workers and everything else of the proxy in between.  It also shows what two overlapping
  fail-overs of one session do to the connection counts.
\<close>

section \<open>Dispatches in flight\<close>

text \<open>A packet whose response route is queued and which its worker has not sent yet: the packet, its server
  and the number of its route.\<close>

record flight =
  fl_pkt :: pkt
  fl_srv :: nat
  fl_rid :: "64 word"

record ostate =
  os_fe :: frontend
  os_sh :: shared
  os_flight :: "flight list"

text \<open>What an observer sees for a server and a client: a datagram sent, a response answered, and a dispatch
  that failed when its route was already gone.\<close>

datatype oevent =
    Quiet
  | Sending string addrport
  | Answered string addrport
  | Overtaken string addrport

abbreviation serverOf :: "frontend \<Rightarrow> shared \<Rightarrow> nat \<Rightarrow> string" where
  "serverOf f s i \<equiv> srv_Address (p_servers (poolOf f s) ! i)"

definition finishEvent :: "frontend \<Rightarrow> shared \<Rightarrow> flight \<Rightarrow> fwdResult \<Rightarrow> oevent" where
  "finishEvent f s x res =
     (let a = serverOf f s (fl_srv x); c = pk_clientAddr (fl_pkt x) in
      case res of Sent _ _ _ \<Rightarrow> Sending a c
      | _ \<Rightarrow> if fl_rid x \<in> rt_id ` set (queueOf (fe_routes f) a) then Quiet else Overtaken a c)"

definition answerEvent :: "response \<Rightarrow> oevent" where
  "answerEvent res = (case res of Reply a _ c _ \<Rightarrow> Answered a c | _ \<Rightarrow> Quiet)"

text \<open>The last rule is everything else the proxy does: it may change anything but the routes of this frontend,
  which only \<^verbatim>\<open>forward\<close> and \<^verbatim>\<open>backendReadLoop\<close> touch, and the addresses of its servers, which
  nothing changes.\<close>

inductive overlap_step :: "ostate \<Rightarrow> oevent \<Rightarrow> ostate \<Rightarrow> bool" where
  overlap_begin: "i < length (p_servers (poolOf f s)) \<Longrightarrow> dispatchEnqueue io p i (f, s) = ((rid, True), f') \<Longrightarrow>
     overlap_step \<lparr>os_fe = f, os_sh = s, os_flight = xs\<rparr> Quiet
       \<lparr>os_fe = f', os_sh = s, os_flight = \<lparr>fl_pkt = p, fl_srv = i, fl_rid = rid\<rparr> # xs\<rparr>"
| overlap_refuse: "dispatchEnqueue io p i (f, s) = ((rid, False), f') \<Longrightarrow>
     overlap_step \<lparr>os_fe = f, os_sh = s, os_flight = xs\<rparr> Quiet
       \<lparr>os_fe = f', os_sh = count countDropped s, os_flight = xs\<rparr>"
| overlap_finish: "x \<in> set xs \<Longrightarrow> dispatchSend io (fl_pkt x) (fl_srv x) (fl_rid x) (f, s) = (res, f', s') \<Longrightarrow>
     overlap_step \<lparr>os_fe = f, os_sh = s, os_flight = xs\<rparr> (finishEvent f s x res)
       \<lparr>os_fe = f', os_sh = s', os_flight = remove1 x xs\<rparr>"
| overlap_respond: "backendReadLoop b rd now (f, s) = (res, f', s') \<Longrightarrow>
     overlap_step \<lparr>os_fe = f, os_sh = s, os_flight = xs\<rparr> (answerEvent res)
       \<lparr>os_fe = f', os_sh = s', os_flight = xs\<rparr>"
| overlap_other: "fe_routes f' = fe_routes f \<Longrightarrow> addresses (poolOf f' s') = addresses (poolOf f s) \<Longrightarrow>
     overlap_step \<lparr>os_fe = f, os_sh = s, os_flight = xs\<rparr> Quiet \<lparr>os_fe = f', os_sh = s', os_flight = xs\<rparr>"

section \<open>Responses are bounded by dispatches\<close>

definition inFlight :: "string \<Rightarrow> addrport \<Rightarrow> ostate \<Rightarrow> nat" where
  "inFlight a c st = length (filter (\<lambda>x. serverOf (os_fe st) (os_sh st) (fl_srv x) = a \<and> pk_clientAddr (fl_pkt x) = c) (os_flight st))"

text \<open>A flight knows its route: the number was given out, and a queued route with it belongs to its client.\<close>

definition flight_ok :: "nat \<Rightarrow> frontend \<Rightarrow> shared \<Rightarrow> flight \<Rightarrow> bool" where
  "flight_ok k f s x \<longleftrightarrow> fl_srv x < length (p_servers (poolOf f s)) \<and> (\<exists>m \<le> k. fl_rid x = of_nat m) \<and>
     (\<forall>r \<in> set (queueOf (fe_routes f) (serverOf f s (fl_srv x))). rt_id r = fl_rid x \<longrightarrow> rt_clientAddr r = pk_clientAddr (fl_pkt x))"

definition flights_ok :: "nat \<Rightarrow> ostate \<Rightarrow> bool" where
  "flights_ok k st \<longleftrightarrow> routes_wf k (fe_routes (os_fe st)) \<and> (\<forall>x \<in> set (os_flight st). flight_ok k (os_fe st) (os_sh st) x)"

lemma serverOf_cong:
  assumes "addresses (poolOf f' s') = addresses (poolOf f s)"
  shows "length (p_servers (poolOf f' s')) = length (p_servers (poolOf f s))"
    "i < length (p_servers (poolOf f s)) \<Longrightarrow> serverOf f' s' i = serverOf f s i"
  using assms by (metis length_map, metis length_map nth_map)

lemma flight_ok_shrink:
  assumes "flight_ok k f s x" "addresses (poolOf f' s') = addresses (poolOf f s)"
    "\<And>b. set (queueOf (fe_routes f') b) \<subseteq> set (queueOf (fe_routes f) b)"
  shows "flight_ok k f' s' x" "serverOf f' s' (fl_srv x) = serverOf f s (fl_srv x)"
proof -
  show same: "serverOf f' s' (fl_srv x) = serverOf f s (fl_srv x)"
    using assms(1) serverOf_cong(2) [OF assms(2)] by (simp add: flight_ok_def)
  show "flight_ok k f' s' x"
    using assms(1,3) unfolding flight_ok_def same serverOf_cong(1) [OF assms(2)] by blast
qed

lemma flights_ok_shrink:
  assumes "flights_ok k \<lparr>os_fe = f, os_sh = s, os_flight = xs\<rparr>" "routes_wf k (fe_routes f')"
    "addresses (poolOf f' s') = addresses (poolOf f s)" "\<And>b. set (queueOf (fe_routes f') b) \<subseteq> set (queueOf (fe_routes f) b)"
    "set ys \<subseteq> set xs"
  shows "flights_ok k \<lparr>os_fe = f', os_sh = s', os_flight = ys\<rparr>"
    "inFlight a c \<lparr>os_fe = f', os_sh = s', os_flight = xs\<rparr> = inFlight a c \<lparr>os_fe = f, os_sh = s, os_flight = xs\<rparr>"
proof -
  have ok: "flight_ok k f s x" if "x \<in> set xs" for x using assms(1) that by (simp add: flights_ok_def)
  note sh = flight_ok_shrink [OF ok assms(3,4)]
  show "flights_ok k \<lparr>os_fe = f', os_sh = s', os_flight = ys\<rparr>" using sh(1) assms(2,5) by (auto simp: flights_ok_def)
  show "inFlight a c \<lparr>os_fe = f', os_sh = s', os_flight = xs\<rparr> = inFlight a c \<lparr>os_fe = f, os_sh = s, os_flight = xs\<rparr>"
    using sh(2) by (auto simp: inFlight_def intro!: arg_cong [where f = length] filter_cong)
qed

lemma inFlight_remove1:
  assumes "x \<in> set xs"
  shows "inFlight a c \<lparr>os_fe = f, os_sh = s, os_flight = xs\<rparr> =
    inFlight a c \<lparr>os_fe = f, os_sh = s, os_flight = remove1 x xs\<rparr> +
      (if serverOf f s (fl_srv x) = a \<and> pk_clientAddr (fl_pkt x) = c then 1 else 0)"
  using assms by (induction xs) (auto simp: inFlight_def)

lemma queue_subset:
  "set (pruneExpiredRoutes queue now) \<subseteq> set queue" "set (removeRoute i (pruneExpiredRoutes queue now)) \<subseteq> set queue"
  by (rule subseq_parts(2) [OF subseq_prune], rule subseq_parts(2) [OF subseq_removeRoute_prune])

text \<open>Cancelling a route that is still queued takes it away.\<close>

lemma pendingFor_cancel:
  "pendingFor (cancelPendingRoute b i now q) a c \<le> pendingFor q a c"
  "r \<in> set (queueOf q b) \<Longrightarrow> rt_id r = i \<Longrightarrow> rt_clientAddr r = c \<Longrightarrow> distinct (map rt_id (queueOf q b)) \<Longrightarrow>
     pendingFor (cancelPendingRoute b i now q) b c + 1 \<le> pendingFor q b c"
proof -
  show "pendingFor (cancelPendingRoute b i now q) a c \<le> pendingFor q a c"
    by (rule pendingFor_subseq) (simp add: queueOf_cancel subseq_removeRoute_prune)
  assume r: "r \<in> set (queueOf q b)" "rt_id r = i" "rt_clientAddr r = c" and d: "distinct (map rt_id (queueOf q b))"
  let ?P = "\<lambda>r. rt_clientAddr r = c" and ?q = "queueOf q b"
  have d': "distinct (map rt_id (pruneExpiredRoutes ?q now))" using subseq_parts(3) [OF subseq_prune] d by blast
  have "length (filter ?P (filter (\<lambda>r. rt_id r \<noteq> i) (pruneExpiredRoutes ?q now))) \<le> length (filter ?P (filter (\<lambda>r. rt_id r \<noteq> i) ?q))"
    by (rule list_emb_length [OF subseq_filter [OF subseq_filter [OF subseq_prune]]])
  also have "filter ?P (filter (\<lambda>r. rt_id r \<noteq> i) ?q) = filter (\<lambda>r. rt_id r \<noteq> i) (filter ?P ?q)"
    by (simp add: conj_commute)
  also have "length \<dots> < length (filter ?P ?q)" by (rule length_filter_less [of r]) (use r in auto)
  finally show "pendingFor (cancelPendingRoute b i now q) b c + 1 \<le> pendingFor q b c"
    by (simp add: pendingFor_def queueOf_cancel removeRoute_filter [OF d'])
qed

lemma enqueue_seq:
  assumes "routes_wf k q" "Suc k < 2 ^ 64" "enqueuePendingRoute b client conn now q = ((i, True), q')"
  shows "routes_wf (Suc k) q'" "i = of_nat (Suc k)"
proof -
  have seq: "rq_seq q' = of_nat (Suc k)" "i = rq_seq q'"
    using queueOf_enqueue(3,4) [OF assms(3)] assms(1) by (simp_all add: routes_wf_def)
  obtain k' where k': "k' \<le> Suc k" "routes_wf k' q'" using routes_wf_enqueue [OF assms] by blast
  then have "(of_nat k' :: 64 word) = of_nat (Suc k)" using seq(1) by (simp add: routes_wf_def)
  then have "k' = Suc k" using word64_of_nat_eq [of k' "Suc k"] k'(1) assms(2) by simp
  then show "routes_wf (Suc k) q'" "i = of_nat (Suc k)" using k'(2) seq by simp_all
qed

lemma flight_ok_enqueue:
  assumes "routes_wf k (fe_routes f)" "Suc k < 2 ^ 64"
    "enqueuePendingRoute b client conn now (fe_routes f) = ((rid, True), q)" "flight_ok k f s x"
  shows "flight_ok (Suc k) (f\<lparr>fe_routes := q\<rparr>) s x"
proof -
  let ?a = "serverOf f s (fl_srv x)"
  obtain m where m: "m \<le> k" "fl_rid x = of_nat m" using assms(4) by (auto simp: flight_ok_def)
  have "rid \<noteq> fl_rid x"
    using word64_of_nat_eq [of m "Suc k"] m assms(2) enqueue_seq(2) [OF assms(1-3)] by auto
  moreover have "set (queueOf q ?a) \<subseteq> insert \<lparr>rt_id = rid, rt_clientAddr = client, rt_connIndex = conn, rt_queuedAt = now\<rparr>
      (set (queueOf (fe_routes f) ?a))"
    using queueOf_enqueue(2) [OF assms(3), of ?a] queue_subset(1) [of "queueOf (fe_routes f) b" now] by auto
  ultimately have "rt_clientAddr r = pk_clientAddr (fl_pkt x)" if "r \<in> set (queueOf q ?a)" "rt_id r = fl_rid x" for r
    using assms(4) that by (auto simp: flight_ok_def)
  then show ?thesis using assms(4) m unfolding flight_ok_def by (auto intro: le_SucI)
qed

lemma flight_ok_new:
  assumes "routes_wf k (fe_routes f)" "Suc k < 2 ^ 64" "i < length (p_servers (poolOf f s))"
    "enqueuePendingRoute (serverOf f s i) (pk_clientAddr p) conn now (fe_routes f) = ((rid, True), q)"
  shows "flight_ok (Suc k) (f\<lparr>fe_routes := q\<rparr>) s \<lparr>fl_pkt = p, fl_srv = i, fl_rid = rid\<rparr>"
proof -
  note rid = enqueue_seq(2) [OF assms(1,2,4)]
  have old: "rt_id r \<noteq> rid" if r: "r \<in> set (pruneExpiredRoutes (queueOf (fe_routes f) (serverOf f s i)) now)" for r
  proof -
    have "r \<in> set (queueOf (fe_routes f) (serverOf f s i))" using r queue_subset(1) by blast
    then obtain m where "m \<le> k" "rt_id r = of_nat m" using assms(1) unfolding routes_wf_def by blast
    then show ?thesis using word64_of_nat_eq [of m "Suc k"] assms(2) rid by auto
  qed
  have "rt_clientAddr r = pk_clientAddr p" if r: "r \<in> set (queueOf q (serverOf f s i))" "rt_id r = rid" for r
  proof -
    have "r = \<lparr>rt_id = rid, rt_clientAddr = pk_clientAddr p, rt_connIndex = conn, rt_queuedAt = now\<rparr>"
      using r old [of r] queueOf_enqueue(2) [OF assms(4), of "serverOf f s i"] by auto
    then show ?thesis by (metis pendingRoute.select_convs(2))
  qed
  then show ?thesis using assms(3) rid unfolding flight_ok_def by auto
qed

text \<open>What finishing a dispatch does to the routes.\<close>

lemma dispatchSend_cases:
  assumes "dispatchSend io p i rid (f, s) = (res, f', s')"
  obtains (sent) a dst data where "res = Sent a dst data" "f' = f" "ss_pools s' = ss_pools s"
  | (failed) "res = Dropped" "f' = f\<lparr>fe_routes := cancelPendingRoute (serverOf f s i) rid (fw_tCancel io) (fe_routes f)\<rparr>"
      "ss_pools s' = ss_pools s"
  using assms by (auto simp: dispatchSend_def Let_def split: prod.splits if_splits)

lemma respond_routes:
  assumes "backendReadLoop b rd now (f, s) = (res, f', s')"
  shows "fe_pool f' = fe_pool f" "ss_pools s' = ss_pools s"
    "case res of Ignored \<Rightarrow> fe_routes f' = fe_routes f
     | NoPending a \<Rightarrow> (None, fe_routes f') = dequeuePendingRoute a now (fe_routes f)
     | NoListener a c \<Rightarrow> \<exists>r. rt_clientAddr r = c \<and> (Some r, fe_routes f') = dequeuePendingRoute a now (fe_routes f)
     | Reply a ci c data \<Rightarrow> \<exists>r. rt_clientAddr r = c \<and> (Some r, fe_routes f') = dequeuePendingRoute a now (fe_routes f)"
    "set (queueOf (fe_routes f') a) \<subseteq> set (queueOf (fe_routes f) a)"
proof -
  have *: "fe_pool f' = fe_pool f \<and> ss_pools s' = ss_pools s \<and> (case res of Ignored \<Rightarrow> fe_routes f' = fe_routes f
     | NoPending a \<Rightarrow> (None, fe_routes f') = dequeuePendingRoute a now (fe_routes f)
     | NoListener a c \<Rightarrow> \<exists>r. rt_clientAddr r = c \<and> (Some r, fe_routes f') = dequeuePendingRoute a now (fe_routes f)
     | Reply a ci c data \<Rightarrow> \<exists>r. rt_clientAddr r = c \<and> (Some r, fe_routes f') = dequeuePendingRoute a now (fe_routes f))"
    using assms
    by (auto simp: backendReadLoop_def respond_def fillBuf_def Let_def split: readResult.splits option.splits prod.splits)
  then show "fe_pool f' = fe_pool f" "ss_pools s' = ss_pools s"
    "case res of Ignored \<Rightarrow> fe_routes f' = fe_routes f
     | NoPending a \<Rightarrow> (None, fe_routes f') = dequeuePendingRoute a now (fe_routes f)
     | NoListener a c \<Rightarrow> \<exists>r. rt_clientAddr r = c \<and> (Some r, fe_routes f') = dequeuePendingRoute a now (fe_routes f)
     | Reply a ci c data \<Rightarrow> \<exists>r. rt_clientAddr r = c \<and> (Some r, fe_routes f') = dequeuePendingRoute a now (fe_routes f)"
    by blast+
  have "set (queueOf (snd (dequeuePendingRoute b' now q)) a) \<subseteq> set (queueOf q a)" for b' q
    using queue_subset(1) [of "queueOf q b'" now] by (auto simp: queueOf_dequeue dest: list.set_sel(2) split: if_splits)
      (metis list.sel(2) list.set_sel(2) subsetD)
  then show "set (queueOf (fe_routes f') a) \<subseteq> set (queueOf (fe_routes f) a)"
    using * by (cases res) (auto, (metis snd_conv subsetD)+)
qed

abbreviation pendingAt :: "ostate \<Rightarrow> string \<Rightarrow> addrport \<Rightarrow> nat" where
  "pendingAt st \<equiv> pendingFor (fe_routes (os_fe st))"

text \<open>A step settles its accounts: an answer takes a pending route, and a route that goes away otherwise, or a
  flight that ends, is paid for by a datagram sent or by an overtaken dispatch.\<close>

definition settles :: "nat \<Rightarrow> ostate \<Rightarrow> oevent \<Rightarrow> ostate \<Rightarrow> bool" where
  "settles k st e st' \<longleftrightarrow> (\<exists>k' \<le> Suc k. flights_ok k' st') \<and>
    (\<forall>a c. of_bool (e = Answered a c) + pendingAt st' a c + inFlight a c st \<le>
       pendingAt st a c + of_bool (e = Sending a c) + of_bool (e = Overtaken a c) + inFlight a c st')"

lemma settlesI:
  assumes "flights_ok k' st'" "k' \<le> Suc k"
    "\<And>a c. of_bool (e = Answered a c) + pendingAt st' a c + inFlight a c st \<le>
       pendingAt st a c + of_bool (e = Sending a c) + of_bool (e = Overtaken a c) + inFlight a c st'"
  shows "settles k st e st'"
  using assms unfolding settles_def by blast

lemma settles_begin:
  assumes ok: "flights_ok k \<lparr>os_fe = f, os_sh = s, os_flight = xs\<rparr>" "Suc k < 2 ^ 64"
    and i: "i < length (p_servers (poolOf f s))" and enq: "dispatchEnqueue io p i (f, s) = ((rid, True), f')"
  shows "settles k \<lparr>os_fe = f, os_sh = s, os_flight = xs\<rparr> Quiet
    \<lparr>os_fe = f', os_sh = s, os_flight = \<lparr>fl_pkt = p, fl_srv = i, fl_rid = rid\<rparr> # xs\<rparr>"
proof -
  obtain q where q: "enqueuePendingRoute (serverOf f s i) (pk_clientAddr p) (int (pk_connIndex p)) (fw_tEnqueue io) (fe_routes f)
      = ((rid, True), q)" "f' = f\<lparr>fe_routes := q\<rparr>"
    using enq by (auto simp: dispatchEnqueue_def split: prod.splits)
  have wf: "routes_wf k (fe_routes f)" "\<And>x. x \<in> set xs \<Longrightarrow> flight_ok k f s x"
    using ok(1) by (simp_all add: flights_ok_def)
  show ?thesis
  proof (rule settlesI [of "Suc k"])
    show "flights_ok (Suc k) \<lparr>os_fe = f', os_sh = s, os_flight = \<lparr>fl_pkt = p, fl_srv = i, fl_rid = rid\<rparr> # xs\<rparr>"
      using enqueue_seq(1) [OF wf(1) ok(2) q(1)] flight_ok_enqueue [OF wf(1) ok(2) q(1) wf(2)]
        flight_ok_new [OF wf(1) ok(2) i q(1)]
      by (simp add: flights_ok_def q(2))
    show "of_bool (Quiet = Answered a c) + pendingAt \<lparr>os_fe = f', os_sh = s, os_flight = \<lparr>fl_pkt = p, fl_srv = i, fl_rid = rid\<rparr> # xs\<rparr> a c +
        inFlight a c \<lparr>os_fe = f, os_sh = s, os_flight = xs\<rparr>
      \<le> pendingAt \<lparr>os_fe = f, os_sh = s, os_flight = xs\<rparr> a c + of_bool (Quiet = Sending a c) + of_bool (Quiet = Overtaken a c) +
        inFlight a c \<lparr>os_fe = f', os_sh = s, os_flight = \<lparr>fl_pkt = p, fl_srv = i, fl_rid = rid\<rparr> # xs\<rparr>" for a c
      using pendingFor_enqueue [OF q(1), of a c] by (auto simp: q(2) inFlight_def split: if_splits)
  qed simp
qed

lemma settles_refuse:
  assumes ok: "flights_ok k \<lparr>os_fe = f, os_sh = s, os_flight = xs\<rparr>"
    and enq: "dispatchEnqueue io p i (f, s) = ((rid, False), f')"
  shows "settles k \<lparr>os_fe = f, os_sh = s, os_flight = xs\<rparr> Quiet \<lparr>os_fe = f', os_sh = count countDropped s, os_flight = xs\<rparr>"
proof -
  obtain q where q: "enqueuePendingRoute (serverOf f s i) (pk_clientAddr p) (int (pk_connIndex p)) (fw_tEnqueue io) (fe_routes f)
      = ((rid, False), q)" "f' = f\<lparr>fe_routes := q\<rparr>"
    using enq by (auto simp: dispatchEnqueue_def split: prod.splits)
  note eq = queueOf_enqueue [OF q(1)]
  have sub: "subseq (queueOf q b) (queueOf (fe_routes f) b)" for b using eq(2) [of b] subseq_prune by simp
  have wf: "routes_wf k (fe_routes f')"
    using routes_wf_shrink [of k "fe_routes f" q] ok eq(3) sub by (simp add: flights_ok_def q(2))
  have less: "set (queueOf (fe_routes f') b) \<subseteq> set (queueOf (fe_routes f) b)" for b
    using subseq_parts(2) [OF sub] by (simp add: q(2))
  note shrink = flights_ok_shrink [OF ok wf _ less order_refl, where s' = "count countDropped s"]
  show ?thesis
    by (rule settlesI [of k]) (use shrink pendingFor_subseq [OF sub] in \<open>simp_all add: q(2) add_le_mono\<close>)
qed

lemma settles_other:
  assumes ok: "flights_ok k \<lparr>os_fe = f, os_sh = s, os_flight = xs\<rparr>"
    and same: "fe_routes f' = fe_routes f" "addresses (poolOf f' s') = addresses (poolOf f s)"
  shows "settles k \<lparr>os_fe = f, os_sh = s, os_flight = xs\<rparr> Quiet \<lparr>os_fe = f', os_sh = s', os_flight = xs\<rparr>"
proof -
  have wf: "routes_wf k (fe_routes f')" using ok same by (simp add: flights_ok_def)
  note shrink = flights_ok_shrink [OF ok wf same(2) _ order_refl]
  show ?thesis by (rule settlesI [of k]) (use shrink in \<open>simp_all add: same\<close>)
qed

lemma settles_respond:
  assumes ok: "flights_ok k \<lparr>os_fe = f, os_sh = s, os_flight = xs\<rparr>"
    and resp: "backendReadLoop b rd now (f, s) = (res, f', s')"
  shows "settles k \<lparr>os_fe = f, os_sh = s, os_flight = xs\<rparr> (answerEvent res) \<lparr>os_fe = f', os_sh = s', os_flight = xs\<rparr>"
proof -
  note r = respond_routes [OF resp]
  have wf: "routes_wf k (fe_routes f)" using ok by (simp add: flights_ok_def)
  note shrink = flights_ok_shrink [OF ok response_pending(1) [OF r(3) wf] _ r(4) order_refl, where s' = s']
  have "of_bool (answerEvent res = Answered a c) + pendingFor (fe_routes f') a c \<le> pendingFor (fe_routes f) a c" for a c
    using response_pending(2) [OF r(3), of a c] by (auto simp: answerEvent_def split: response.splits if_splits)
  moreover have "answerEvent res \<noteq> Sending a c" "answerEvent res \<noteq> Overtaken a c" for a c
    by (simp_all add: answerEvent_def split: response.splits)
  ultimately show ?thesis by (intro settlesI [of k]) (use shrink r(1,2) in simp_all)
qed

text \<open>A failed dispatch gives its own route back.\<close>

lemma cancelled_pays:
  assumes "routes_wf k (fe_routes f)" "flight_ok k f s x"
  defines "a \<equiv> serverOf f s (fl_srv x)" and "c \<equiv> pk_clientAddr (fl_pkt x)"
  shows "pendingFor (cancelPendingRoute a (fl_rid x) now (fe_routes f)) b d +
    of_bool (fl_rid x \<in> rt_id ` set (queueOf (fe_routes f) a) \<and> b = a \<and> d = c) \<le> pendingFor (fe_routes f) b d"
proof (cases "fl_rid x \<in> rt_id ` set (queueOf (fe_routes f) a) \<and> b = a \<and> d = c")
  case True
  then obtain r where r: "r \<in> set (queueOf (fe_routes f) a)" "rt_id r = fl_rid x" by auto
  then have "rt_clientAddr r = c" using assms(2) by (simp add: flight_ok_def a_def c_def)
  moreover have "distinct (map rt_id (queueOf (fe_routes f) a))" using assms(1) by (simp add: routes_wf_def)
  ultimately show ?thesis using pendingFor_cancel(2) [OF r, of c] True by simp
next
  case False
  then show ?thesis using pendingFor_cancel(1) by auto
qed

lemma settles_finish:
  assumes ok: "flights_ok k \<lparr>os_fe = f, os_sh = s, os_flight = xs\<rparr>" and x: "x \<in> set xs"
    and send: "dispatchSend io (fl_pkt x) (fl_srv x) (fl_rid x) (f, s) = (res, f', s')"
  shows "settles k \<lparr>os_fe = f, os_sh = s, os_flight = xs\<rparr> (finishEvent f s x res) \<lparr>os_fe = f', os_sh = s', os_flight = remove1 x xs\<rparr>"
proof -
  let ?a = "serverOf f s (fl_srv x)" and ?c = "pk_clientAddr (fl_pkt x)"
  have wf: "routes_wf k (fe_routes f)" "flight_ok k f s x" using ok x by (simp_all add: flights_ok_def)
  note rem = inFlight_remove1 [OF x, of _ _ f s]
  have ok': "flights_ok k \<lparr>os_fe = f, os_sh = s, os_flight = remove1 x xs\<rparr>"
    by (rule flights_ok_shrink(1) [OF ok wf(1)]) (auto dest: set_remove1_subset [THEN subsetD])
  show ?thesis using send
  proof (cases rule: dispatchSend_cases)
    case (sent a dst data)
    note shrink = flights_ok_shrink [OF ok' wf(1) _ _ order_refl, where s' = s']
    have ev: "finishEvent f s x res = Sending ?a ?c" by (simp add: sent finishEvent_def Let_def)
    show ?thesis unfolding ev sent(2) by (rule settlesI [of k]) (use shrink rem sent(3) in simp_all)
  next
    case failed
    let ?q = "cancelPendingRoute ?a (fl_rid x) (fw_tCancel io) (fe_routes f)"
    have wf': "routes_wf k (fe_routes f')" using routes_wf_cancel [OF wf(1)] by (simp add: failed(2))
    have sub: "set (queueOf (fe_routes f') b) \<subseteq> set (queueOf (fe_routes f) b)" for b
      using queue_subset(2) by (simp add: failed(2) queueOf_cancel)
    note shrink = flights_ok_shrink [OF ok' wf' _ sub order_refl, where s' = s']
    have ev: "finishEvent f s x res = (if fl_rid x \<in> rt_id ` set (queueOf (fe_routes f) ?a) then Quiet else Overtaken ?a ?c)"
      by (simp add: failed finishEvent_def Let_def)
    have pay: "pendingFor (fe_routes f') b c + of_bool (fl_rid x \<in> rt_id ` set (queueOf (fe_routes f) ?a) \<and> b = ?a \<and> c = ?c)
        \<le> pendingFor (fe_routes f) b c" for b c
      using cancelled_pays [OF wf] by (simp add: failed(2))
    have same: "addresses (poolOf f' s') = addresses (poolOf f s)" by (simp add: failed)
    show ?thesis
    proof (rule settlesI [of k, OF shrink(1) [OF same]])
      fix b c
      show "of_bool (finishEvent f s x res = Answered b c) + pendingAt \<lparr>os_fe = f', os_sh = s', os_flight = remove1 x xs\<rparr> b c +
          inFlight b c \<lparr>os_fe = f, os_sh = s, os_flight = xs\<rparr>
        \<le> pendingAt \<lparr>os_fe = f, os_sh = s, os_flight = xs\<rparr> b c + of_bool (finishEvent f s x res = Sending b c) +
          of_bool (finishEvent f s x res = Overtaken b c) + inFlight b c \<lparr>os_fe = f', os_sh = s', os_flight = remove1 x xs\<rparr>"
        unfolding shrink(2) [OF same] rem ev using pay [of b c] by (auto split: if_splits)
    qed simp
  qed
qed

lemma settles_step: "overlap_step st e st' \<Longrightarrow> flights_ok k st \<Longrightarrow> Suc k < 2 ^ 64 \<Longrightarrow> settles k st e st'"
  by (induction rule: overlap_step.induct)
    (blast intro: settles_begin settles_refuse settles_finish settles_respond settles_other)+

text \<open>The invariant of a run.\<close>

definition paid :: "oevent list \<Rightarrow> ostate \<Rightarrow> bool" where
  "paid tr st \<longleftrightarrow> (length tr < 2 ^ 64 \<longrightarrow> (\<exists>k \<le> length tr. flights_ok k st) \<and>
    (\<forall>a c. count_list tr (Answered a c) + pendingAt st a c \<le>
       count_list tr (Sending a c) + count_list tr (Overtaken a c) + inFlight a c st))"

interpretation paid: traced overlap_step paid
proof
  fix tr st e st'
  assume inv: "paid tr st" and st: "overlap_step st e st'"
  show "paid (tr @ [e]) st'"
    unfolding paid_def
  proof (intro impI)
    assume len: "length (tr @ [e]) < 2 ^ 64"
    then obtain k where k: "k \<le> length tr" "flights_ok k st"
      and sum: "\<And>a c. count_list tr (Answered a c) + pendingAt st a c \<le>
        count_list tr (Sending a c) + count_list tr (Overtaken a c) + inFlight a c st"
      using inv by (auto simp: paid_def)
    have "settles k st e st'" by (rule settles_step [OF st k(2)]) (use k(1) len in simp)
    then obtain k' where k': "k' \<le> Suc k" "flights_ok k' st'"
      and pay: "\<And>a c. of_bool (e = Answered a c) + pendingAt st' a c + inFlight a c st \<le>
        pendingAt st a c + of_bool (e = Sending a c) + of_bool (e = Overtaken a c) + inFlight a c st'"
      unfolding settles_def by blast
    have "count_list (tr @ [e]) (Answered a c) + pendingAt st' a c \<le>
        count_list (tr @ [e]) (Sending a c) + count_list (tr @ [e]) (Overtaken a c) + inFlight a c st'" for a c
      using sum [of a c] pay [of a c] by (auto split: if_splits)
    moreover have "k' \<le> length (tr @ [e])" using k(1) k'(1) by simp
    ultimately show "(\<exists>k \<le> length (tr @ [e]). flights_ok k st') \<and> (\<forall>a c. count_list (tr @ [e]) (Answered a c) + pendingAt st' a c \<le>
        count_list (tr @ [e]) (Sending a c) + count_list (tr @ [e]) (Overtaken a c) + inFlight a c st')"
      using k'(2) by blast
  qed
qed

text \<open>C2: responses only for requests, with the iterations of the goroutines overlapping.  Over any run of fewer
  than \<open>2^64\<close> steps of a frontend that starts with no pending routes, in which workers, the
  response reader and everything else of the proxy interleave at the points where \<^verbatim>\<open>forward\<close> holds no
  lock, the responses a client got from a server and the routes still queued for it are no more
  than its datagrams that were sent to that server, its dispatches whose route is queued and
  whose datagram is not sent yet, and its dispatches that were overtaken: shaped or failed after
  their route had already been taken by a response of the server or had expired.  So a client for
  which no dispatch began gets nothing, and every route is used for at most one response.\<close>

theorem responses_bounded:
  assumes "run_of overlap_step st0 tr st" and "fe_routes (os_fe st0) = noRoutes" and "os_flight st0 = []" and "length tr < 2 ^ 64"
  shows "count_list tr (Answered a c) + pendingFor (fe_routes (os_fe st)) a c \<le>
    count_list tr (Sending a c) + count_list tr (Overtaken a c) + inFlight a c st"
proof -
  have "flights_ok 0 st0" using noRoutes_wf assms(2,3) by (simp add: flights_ok_def)
  then have "paid [] st0"
    using assms(2,3) by (auto simp: paid_def pendingFor_def noRoutes_def queueOf_def)
  from paid.run_keeps [OF assms(1) this] assms(4) show ?thesis by (simp add: paid_def)
qed

text \<open>The iterations that \<open>System\<close> takes as one step are runs of these smaller steps.\<close>

lemma forward_overlaps:
  assumes "pool_wf (poolOf f s)" "forward io p (f, s) = (res, f', s')"
  shows "\<exists>tr. run_of overlap_step \<lparr>os_fe = f, os_sh = s, os_flight = xs\<rparr> tr \<lparr>os_fe = f', os_sh = s', os_flight = xs\<rparr>"
proof -
  have routed: "run_of overlap_step \<lparr>os_fe = f, os_sh = s, os_flight = xs\<rparr> [Quiet] \<lparr>os_fe = f, os_sh = t, os_flight = xs\<rparr>"
    if l: "like (poolOf f s) (poolOf f t)" for t
    by (rule run_one [of overlap_step, OF overlap_other [OF refl like_addresses [OF l]]])
  from assms show ?thesis
  proof (cases rule: forward_cases)
    case (panic t)
    then show ?thesis using routed pools_like_poolOf by blast
  next
    case (none t)
    then show ?thesis using routed [of "count countDropped t"] pools_like_poolOf [OF none(4)] by auto
  next
    case (to i r t t')
    note go = routed [OF pools_like_poolOf [OF to(2)]]
    obtain rid ok f1 where enq: "dispatchEnqueue io p i (f, t') = ((rid, ok), f1)" by (metis prod.collapse)
    show ?thesis
    proof (cases ok)
      case True
      let ?x = "\<lparr>fl_pkt = p, fl_srv = i, fl_rid = rid\<rparr>"
      have enq': "dispatchEnqueue io p i (f, t') = ((rid, True), f1)" using enq True by simp
      have i: "i < length (p_servers (poolOf f t'))" using to(3) like_length [OF pools_like_poolOf [OF to(2)]] by simp
      have "dispatchSend io (fl_pkt ?x) (fl_srv ?x) (fl_rid ?x) (f1, t') = (res, f', s')"
        using to(6) enq True by (simp add: dispatch_def)
      from overlap_finish [OF _ this, of "?x # xs"] run_snoc [OF go overlap_begin [OF i enq']]
      show ?thesis by (auto intro: run_snoc)
    next
      case False
      then have enq': "dispatchEnqueue io p i (f, t') = ((rid, False), f1)" and "res = Dropped" "f' = f1" "s' = count countDropped t'" using to(6) enq by (simp_all add: dispatch_def)
      then show ?thesis using run_snoc [OF go overlap_refuse [OF enq']] by auto
    qed
  qed
qed

section \<open>A response overtakes a dispatch\<close>

text \<open>The server answers before the worker sends, and the send fails.\<close>

definition test_st0 :: ostate where
  "test_st0 = \<lparr>os_fe = test_frontend\<lparr>fe_mem := [[1, 2, 3, 0, 0], [0, 0, 0, 0, 0]]\<rparr>, os_sh = test_shared, os_flight = []\<rparr>"

definition test_begun :: "(64 word \<times> bool) \<times> frontend" where
  "test_begun = dispatchEnqueue test_io test_pkt 0 (os_fe test_st0, test_shared)"

definition test_flight :: flight where
  "test_flight = \<lparr>fl_pkt = test_pkt, fl_srv = 0, fl_rid = 1\<rparr>"

definition test_overtaking :: "response \<times> frontend \<times> shared" where
  "test_overtaking = backendReadLoop 1 (Datagram (test_addrport 5001) [7, 8] []) (test_time 4) (snd test_begun, test_shared)"

definition test_failed :: "fwdResult \<times> frontend \<times> shared" where
  "test_failed = dispatchSend (test_io\<lparr>fw_send := False\<rparr>) test_pkt 0 1 (snd test_overtaking)"

lemma test_overlap_values:
  "fst test_begun = (1, True)" "fst test_overtaking = Reply ''127.0.0.1:5001'' 0 test_client [7, 8]" "fst test_failed = Dropped"
  "queueOf (fe_routes (fst (snd test_overtaking))) ''127.0.0.1:5001'' = []"
  "serverOf (fst (snd test_overtaking)) (snd (snd test_overtaking)) 0 = ''127.0.0.1:5001''"
  by code_simp+

theorem responses_bounded_witness: "\<exists>tr st. run_of overlap_step test_st0 tr st \<and>
    count_list tr (Answered ''127.0.0.1:5001'' test_client) = 1 \<and> count_list tr (Sending ''127.0.0.1:5001'' test_client) = 0 \<and>
    count_list tr (Overtaken ''127.0.0.1:5001'' test_client) + inFlight ''127.0.0.1:5001'' test_client st \<ge> 1"
proof -
  obtain f1 f2 s2 f3 s3 where v: "test_begun = ((1, True), f1)" "test_failed = (Dropped, f3, s3)"
      "test_overtaking = (Reply ''127.0.0.1:5001'' 0 test_client [7, 8], f2, s2)"
    using test_overlap_values(1-3) by (metis prod.collapse)
  let ?tr = "[Quiet, Answered ''127.0.0.1:5001'' test_client, Overtaken ''127.0.0.1:5001'' test_client]"
  let ?st1 = "\<lparr>os_fe = f1, os_sh = test_shared, os_flight = [test_flight]\<rparr>"
  have "overlap_step test_st0 Quiet ?st1"
    using overlap_begin [OF _ v(1) [unfolded test_begun_def]] test_shared_pool
    by (simp add: test_st0_def test_flight_def) (simp add: test_frontend_def Frontend_New_def test_shared_def test_pool_def)
  moreover have "overlap_step ?st1 (Answered ''127.0.0.1:5001'' test_client) \<lparr>os_fe = f2, os_sh = s2, os_flight = [test_flight]\<rparr>"
    using overlap_respond [OF v(3) [unfolded test_overtaking_def v(1) snd_conv]] by (simp add: answerEvent_def)
  moreover have "finishEvent f2 s2 test_flight Dropped = Overtaken ''127.0.0.1:5001'' test_client"
    using test_overlap_values(4,5) by (simp add: finishEvent_def v(3) test_flight_def test_pkt_def)
  then have "overlap_step \<lparr>os_fe = f2, os_sh = s2, os_flight = [test_flight]\<rparr> (Overtaken ''127.0.0.1:5001'' test_client)
      \<lparr>os_fe = f3, os_sh = s3, os_flight = []\<rparr>"
    using overlap_finish [of test_flight "[test_flight]" "test_io\<lparr>fw_send := False\<rparr>" f2 s2 Dropped f3 s3] v(2)
    by (simp add: test_failed_def v(3)) (simp add: test_flight_def)
  ultimately have "run_of overlap_step test_st0 (([Quiet] @ [Answered ''127.0.0.1:5001'' test_client]) @ [Overtaken ''127.0.0.1:5001'' test_client])
      \<lparr>os_fe = f3, os_sh = s3, os_flight = []\<rparr>"
    by (intro run_snoc [of overlap_step, OF run_snoc [of overlap_step, OF run_one [of overlap_step]]])
  then have run: "run_of overlap_step test_st0 ?tr \<lparr>os_fe = f3, os_sh = s3, os_flight = []\<rparr>" by simp
  have "count_list ?tr (Answered ''127.0.0.1:5001'' test_client) = 1" "count_list ?tr (Sending ''127.0.0.1:5001'' test_client) = 0" by simp_all
  moreover have "fe_routes (os_fe test_st0) = noRoutes" "os_flight test_st0 = []"
    by (simp_all add: test_st0_def test_frontend_def Frontend_New_def)
  from responses_bounded [OF run this, of "''127.0.0.1:5001''" test_client]
  have "count_list ?tr (Overtaken ''127.0.0.1:5001'' test_client) +
      inFlight ''127.0.0.1:5001'' test_client \<lparr>os_fe = f3, os_sh = s3, os_flight = []\<rparr> \<ge> 1" by simp
  ultimately show ?thesis using run by blast
qed

section \<open>Fail-overs overlap\<close>

text \<open>Two workers find the same session bound to the same unhealthy server \<open>j\<close> before either has re-bound it
  (frontend.go:439-455).  Both take a connection from \<open>j\<close> and both count the session at the server
  they picked, but the session keeps the callback of the second only: \<open>j\<close> loses two connections for
  one session, and the first pick is never given back.\<close>

lemma repick_conns:
  assumes "repick io f ip r (Some j) s = (RouteTo i r, t)" "fe_pool f < length (ss_pools s)" "j < length (p_servers (poolOf f s))"
    "r < length (tb_heap (ss_sessions s))"
  shows "i < length (p_servers (poolOf f s))" "length (p_servers (poolOf f t)) = length (p_servers (poolOf f s))"
    "length (ss_pools t) = length (ss_pools s)" "length (tb_heap (ss_sessions t)) = length (tb_heap (ss_sessions s))"
    "h < length (p_servers (poolOf f s)) \<Longrightarrow> srv_connCount (p_servers (poolOf f t) ! h) =
       srv_connCount (p_servers (poolOf f s) ! h) - of_bool (h = j) + of_bool (h = i)"
    "callEvict (sessionAt t r) = Some (fe_pool f, i)"
proof -
  obtain p' where pick: "Pick (fw_intn' io) (poolOf f s) ip = (Picked (Some i), p')"
    using assms(1) by (auto simp: repick_def split: prod.splits pickResult.splits option.splits)
  have p': "p_servers p' = p_servers (poolOf f s)" using Pick_frame [of "fw_intn' io" "poolOf f s" ip] pick by simp
  show i: "i < length (p_servers (poolOf f s))" using Pick_index [of "fw_intn' io" "poolOf f s" ip] pick by fastforce
  have t: "t = rebind f r (Some j) i (setPool f p' s)" using assms(1) pick by (simp add: repick_def rebind_def Let_def)
  show "length (p_servers (poolOf f t)) = length (p_servers (poolOf f s))" "length (ss_pools t) = length (ss_pools s)"
    "length (tb_heap (ss_sessions t)) = length (tb_heap (ss_sessions s))" "callEvict (sessionAt t r) = Some (fe_pool f, i)"
    using assms(2,4) by (simp_all add: t rebind_def bindServer_def p' setSession_def updateSession_def UpdateServer_def callEvict_def Let_def
        IncrConns_def DecrConns_def update_server_def)
  show "srv_connCount (p_servers (poolOf f t) ! h) =
       srv_connCount (p_servers (poolOf f s) ! h) - of_bool (h = j) + of_bool (h = i)" if "h < length (p_servers (poolOf f s))"
    using that assms(2) by (simp add: t rebind_def bindServer_def p' setSession_def Let_def conns_update like_length [OF like_conns(2)])
qed

theorem failovers_drift:
  assumes "repick io f ip r (Some j) s = (RouteTo i r, t)" and "repick io' f ip r (Some j) t = (RouteTo i' r, u)"
    and "fe_pool f < length (ss_pools s)" and "j < length (p_servers (poolOf f s))" and "r < length (tb_heap (ss_sessions s))"
    and "i \<noteq> j" and "i' \<noteq> j"
  shows "srv_connCount (p_servers (poolOf f u) ! j) = srv_connCount (p_servers (poolOf f s) ! j) - 2 \<and>
    srv_connCount (p_servers (poolOf f u) ! i) = srv_connCount (p_servers (poolOf f s) ! i) + 1 + of_bool (i = i') \<and>
    callEvict (sessionAt u r) = Some (fe_pool f, i')"
proof -
  note one = repick_conns [OF assms(1,3,4,5)]
  have "fe_pool f < length (ss_pools t)" "j < length (p_servers (poolOf f t))" "r < length (tb_heap (ss_sessions t))"
    using assms(3-5) one(2-4) by simp_all
  note two = repick_conns [OF assms(2) this]
  show ?thesis using one(5) two(5,6) one(1,2) assms(4,6,7) by simp
qed

end
