(* ===== verification/Spec2Isabelle.thy ===== *)
theory Spec2Isabelle
  imports Proxy Affinity Overlap
begin

text \<open>
  \<^bold>\<open>Verification of light-udp-proxy\<close>, a UDP load balancer written in Go.

  \<^bold>\<open>The program.\<close>  A frontend binds a UDP port.  Its readers take datagrams from the port into pooled
  buffers, drop what is too large, fragmented, over a rate limit, abusive or over the session cap,
  and put the rest on a bounded work queue.  Its workers take packets from the queue, find or make
  the client's session, choose a server of the backend pool, note in a queue per server that the
  client waits for a response, and send the packet.  One goroutine per frontend reads the servers'
  responses and sends each to the client that has waited longest for this server.  Beside them a
  reaper evicts idle sessions and a checker per pool probes the servers.  All frontends share the
  pools, the session table, the counters and the global limiters.  The proxy builds all this from a
  YAML file, reloads it on a hang-up signal and stops it on an interrupt.

  \<^bold>\<open>The theories\<close>, in the order of their imports, with the files under \<^verbatim>\<open>src/\<close> they model:

  \<^item> \<open>Prelude\<close>, \<open>GoFloat\<close>, \<open>GoStrings\<close>, \<open>Netip\<close>: Go's integers, times, maps, \<^verbatim>\<open>float64\<close>, and what
    the code uses of \<^verbatim>\<open>strings\<close>, \<^verbatim>\<open>strconv\<close> and \<^verbatim>\<open>net/netip\<close>.  \<open>Prelude\<close> also has the locale
    \<open>striped\<close> for maps spread over locked shards and \<open>traced\<close> for properties of a state and the
    events so far that every step keeps.
  \<^item> \<open>Shaping\<close> (\<^verbatim>\<open>internal/shaping\<close>): token buckets and the limiter per client address.  A bucket
    admits no more than its rate and burst, whatever the rounding of \<^verbatim>\<open>float64\<close>; it never starves a
    packet that fits the burst; clients do not influence each other.
  \<^item> \<open>Qos\<close>, \<open>Config\<close> (\<^verbatim>\<open>internal/qos\<close>, \<^verbatim>\<open>internal/config\<close>): priorities, byte sizes, defaults and
    validation.  Validation is a declarative predicate; a parsed configuration is valid and a
    fixed point of \<^verbatim>\<open>defaults\<close>, with every field that has a default filled in; byte sizes are exact up to the wrap-around of \<^verbatim>\<open>int64\<close>.
  \<^item> \<open>Backend\<close> (\<^verbatim>\<open>internal/backend\<close>): pools, address lookup and the four algorithms.  Picks are
    healthy servers, round robin is fair, least connections is minimal, hashing is sticky; the
    cases where \<^verbatim>\<open>Pick\<close> fails are exact; an address listed twice escapes the health checker.
  \<^item> \<open>Abuse\<close> (\<^verbatim>\<open>internal/abuse\<close>): limits per address; both caps, isolation, and the lock-out of a
    client over its cap.
  \<^item> \<open>Session\<close> (\<^verbatim>\<open>internal/session\<close>): the sharded table refines a map; eviction is exact, callbacks
    run once; \<open>GetOrCreate_during\<close> has the table of other goroutines between the unlocked look and the
    locked re-check of \<^verbatim>\<open>GetOrCreate\<close>, and creation is exact whatever they did.
  \<^item> \<open>Metrics\<close>, \<open>Fragment\<close>, \<open>Healthcheck\<close> (\<^verbatim>\<open>internal/metrics\<close>, \<^verbatim>\<open>internal/fragment\<close>,
    \<^verbatim>\<open>internal/healthcheck\<close>): counters and the \<^verbatim>\<open>/metrics\<close> response; parsing of ancillary data;
    probes and rounds, whose results do not depend on the order in which the probes finish.
  \<^item> \<open>Routes\<close> (\<^verbatim>\<open>internal/frontend\<close>): the queues of waiting clients are bounded and first-in
    first-out, with unique numbers.
  \<^item> \<open>Frontend\<close>, \<open>FrontendFacts\<close>, \<open>Sockets\<close> (\<^verbatim>\<open>internal/frontend\<close>): the handlers, one definition
    per loop body, start and stop, and the socket options per platform.  The admission chain is
    exact; a packet goes to a healthy server with the bytes that were received; with \<^verbatim>\<open>reuse_port\<close>
    and several workers, which platforms start and which do not.
  \<^item> \<open>System\<close>, \<open>SystemFacts\<close>, \<open>Conns\<close>: the whole running proxy as a step relation over the
    handlers, with the invariants of every run: no worker panics, every buffer has one owner,
    nothing is forged or duplicated, the counters account for every datagram and byte, connection
    counts are exact, and shutdown ends.
  \<^item> \<open>Affinity\<close>: a frontend with session affinity keeps sending a client's datagrams to one server while
    the session lives and the server is healthy.
  \<^item> \<open>Overlap\<close>: iterations that overlap.  The step relation \<open>overlap_step\<close> takes the dispatch of a packet apart
    at the point where \<^verbatim>\<open>forward\<close> holds no lock; responses are bounded by the dispatches even so,
    and the excess over the datagrams sent is exactly what overtaking allows.  Two overlapping
    fail-overs of one session make the connection counts drift (\<open>failovers_drift\<close>).
  \<^item> \<open>Proxy\<close> (\<^verbatim>\<open>internal/proxy\<close>, \<^verbatim>\<open>pkg/logger\<close>, \<^verbatim>\<open>cmd/udp-proxy\<close>): start, stop, reload, the signal
    loop and \<^verbatim>\<open>main\<close>.  What starts and what fails is exact; a started proxy satisfies the
    hypotheses of the theorems about runs; a \<^verbatim>\<open>Run\<close> that ends on a signal leaves nothing at work; the
    metrics endpoint reports what happened.

  \<^bold>\<open>Conventions.\<close>  A struct is a record, a pointer to a shared object an index (a server in its pool, a
  pool in the list of pools, a session in the table's heap, a buffer in the frontend's memory), an
  atomic 64-bit cell a word.  Fallible functions return sums with the error on the left or options.
  Clock readings, random numbers, the answers of sockets, files and the resolver, and the order in
  which Go walks a map are arguments of the definitions that use them, and the theorems hold for all
  their values unless they name a restriction.  Loops are structural recursions on what they range
  over; the infinite loops of the goroutines are one definition per iteration and become steps of
  \<open>sys_step\<close>.  The only fuel is the group count in the printing of IPv6 addresses (\<open>Netip.print6\<close>), which starts
  above the number of groups and always suffices.

  \<^bold>\<open>Atomicity.\<close>  A step of \<open>sys_step\<close> is one iteration of one goroutine, from the moment its blocking call
  returns; a run is any sequence of whole iterations of all goroutines.  The theorems over
  \<open>sys_step\<close> say nothing of iterations that overlap, and for some of them this matters: the
  connection counts and session affinity depend on it.  Where the code releases its locks inside
  an iteration, the interleavings are treated separately: \<open>Backend.Pick_select_nil\<close> (the health flags may
  change between the two passes of \<^verbatim>\<open>Pick\<close>), \<open>Session.GetOrCreate_during\<close> (the table may change while
  \<^verbatim>\<open>newFn\<close> runs), \<open>Overlap.overlap_step\<close> (responses and other dispatches come between queueing a route and
  sending) and \<open>Overlap.failovers_drift\<close> (two workers re-bind one session).

  \<^bold>\<open>Bounds.\<close>  Counters wrap at \<open>2^64\<close>; a theorem that needs them not to wrap says so with the
  number of operations (\<open>2^63\<close> or \<open>2^64\<close>), which no run reaches.  Server weights are assumed to add
  up to less than \<open>2^63\<close>, as otherwise \<^verbatim>\<open>Pick\<close> computes with a wrapped sum.

  \<^bold>\<open>Platform.\<close>  The token buckets round the product and the sum of a refill separately, as Go does on amd64;
  a platform where the compiler fuses them rounds once.  The signal loop takes the signals that
  are delivered: the channel of \<^verbatim>\<open>Run\<close> has one slot, and the runtime drops a signal that finds it full.

  \<^bold>\<open>Not modelled.\<close>  Log output; the HTTP server and the JSON text of the metrics response; the YAML
  decoder (a parameter of \<^verbatim>\<open>Parse\<close>); the kernel side of sockets; flag parsing and the version text
  of \<^verbatim>\<open>main\<close>; the Go scheduler and memory model; subnormal numbers and infinities of \<^verbatim>\<open>float64\<close>,
  which no bucket reaches; 32-bit platforms, where \<^verbatim>\<open>int\<close> is narrower.
\<close>

end
